(* ===== verification/Tm_Prelude.thy ===== *)
theory Tm_Prelude
  imports Main "HOL-Library.Word" "HOL-Library.Monad_Syntax"
begin

text \<open>
  Shared vocabulary of the development: the machine types of the C code (LP64: a pointer and
  a \<open>size_t\<close> are 64 bits, an \<open>int\<close> is 32), the option monad in which every operation that
  may reach undefined behaviour is written (\<open>None\<close> is undefined behaviour or a loop that does
  not return), and generic facts on words, alignment and option binds that all components use.
\<close>

section \<open>Machine types\<close>

type_synonym byte = "8 word"
type_synonym addr = "64 word"   \<comment> \<open>\<open>void*\<close>, \<open>uintptr_t\<close>\<close>
type_synonym csize = "64 word"  \<comment> \<open>\<open>size_t\<close>\<close>
type_synonym cint = "32 word"   \<comment> \<open>\<open>int\<close>, read with \<open>sint\<close>\<close>

abbreviation NULL :: addr where
  "NULL \<equiv> 0"

abbreviation INT_MAX :: cint where
  "INT_MAX \<equiv> 0x7FFFFFFF"

text \<open>The signed comparison \<open>a > b\<close> of two \<open>int\<close>s.\<close>

definition int_gt :: "cint \<Rightarrow> cint \<Rightarrow> bool" where
  "int_gt a b \<longleftrightarrow> sint b < sint a"

text \<open>The signed addition \<open>a + 1\<close>: overflow is undefined behaviour.\<close>

definition int_succ :: "cint \<Rightarrow> cint option" where
  "int_succ a = (if a = INT_MAX then None else Some (a + 1))"

named_theorems bind_simps \<open>unfolding of option binds\<close>

lemmas [bind_simps] = Option.bind_eq_Some_conv Let_def split_def

lemma bind_SomeE:
  assumes "Option.bind m f = Some y"
  obtains x where "m = Some x" and "f x = Some y"
  using assms by (cases m) auto

section \<open>Signed integers below the sign bit\<close>

lemma sint_small:
  fixes w :: cint
  assumes "unat w < 2 ^ 31"
  shows "sint w = int (unat w)"
proof -
  have u: "uint w = int (unat w)" by simp
  have "uint w < 2 ^ 31"
    unfolding u using assms by (simp only: of_nat_less_numeral_power_cancel_iff)
  moreover have "- (2 ^ 31) \<le> uint w"
    by (rule order_trans [of _ 0]) simp_all
  ultimately have "signed_take_bit 31 (uint w) = uint w"
    by (intro signed_take_bit_int_eq_self)
  then show ?thesis by (simp add: sint_uint)
qed

lemma int_gt_small:
  "unat a < 2 ^ 31 \<Longrightarrow> unat b < 2 ^ 31 \<Longrightarrow> int_gt a b \<longleftrightarrow> unat b < unat a"
  by (simp only: int_gt_def sint_small of_nat_less_iff)

lemma unat_succ_small:
  fixes w :: cint
  assumes "unat w < 2 ^ 31"
  shows "unat (w + 1) = Suc (unat w)"
proof -
  have "unat w + 1 < 2 ^ LENGTH(32)" using assms by simp
  then show ?thesis by (simp add: unat_word_ariths)
qed

text \<open>Address arithmetic that does not wrap.\<close>

lemma unat_plus_offset:
  fixes a :: addr
  assumes "unat a + m < 2 ^ 64"
  shows "unat (a + word_of_nat m) = unat a + m"
  using assms by (simp add: unat_word_ariths unat_of_nat take_bit_nat_eq_self)

lemma unat_small: "m < 2 ^ 64 \<Longrightarrow> unat (word_of_nat m :: addr) = m"
  using unat_plus_offset [of 0 m] by simp

lemma int_succ_Some: "int_succ a = Some b \<longleftrightarrow> a \<noteq> INT_MAX \<and> b = a + 1"
  by (auto simp: int_succ_def)

end
