(* ===== verification/Versioned_Spinlock.thy ===== *)
theory Versioned_Spinlock
  imports Tm_Prelude
begin

text \<open>
  \<open>versioned-spinlock.h\<close> and \<open>versioned-spinlock.c\<close>: a lock bit with a version number. The
  acquisition makes several atomic accesses, between which other threads may run; their
  effect is a parameter \<open>env\<close>, where \<open>env k\<close> is what the other threads do to the lock
  just before the \<open>k\<close>-th atomic access of this acquisition. \<open>alone\<close> is no interference.
  The lemmas bound the number of accesses under any interference, show when the
  acquisition gives up and that a success is an exchange that saw the lock free.
\<close>

record versioned_spinlock_t =
  vlock :: bool
  version :: cint

type_synonym interference = "nat \<Rightarrow> versioned_spinlock_t \<Rightarrow> versioned_spinlock_t"

abbreviation alone :: interference where
  "alone \<equiv> \<lambda>k l. l"

definition versioned_spinlock_init :: "versioned_spinlock_t \<Rightarrow> versioned_spinlock_t" where
  "versioned_spinlock_init l = l\<lparr>vlock := False, version := 0\<rparr>"

text \<open>
  The two loops of \<open>versioned_spinlock_acquire\<close>: \<open>acquire_try\<close> is the head of the outer
  \<open>while (true)\<close> with its atomic exchange, \<open>acquire_wait\<close> is the inner \<open>do .. while\<close> with its
  bound check and its atomic load. The result also carries the number of atomic accesses.
\<close>

function (sequential)
  acquire_try :: "interference \<Rightarrow> nat \<Rightarrow> nat \<Rightarrow> versioned_spinlock_t \<Rightarrow> bool \<times> nat \<times> versioned_spinlock_t"
  and acquire_wait :: "interference \<Rightarrow> nat \<Rightarrow> nat \<Rightarrow> versioned_spinlock_t \<Rightarrow> bool \<times> nat \<times> versioned_spinlock_t"
where
  "acquire_try env k bound l =
     (let seen = env k l; l' = seen\<lparr>vlock := True\<rparr> in
      if \<not> vlock seen then (True, Suc k, l')
      else acquire_wait env (Suc k) bound l')"
| "acquire_wait env k bound l =
     (if bound > 3 then (False, k, l)
      else
        let seen = env k l in
        if vlock seen then acquire_wait env (Suc k) (bound + 1) seen
        else acquire_try env (Suc k) (bound + 1) seen)"
  by pat_completeness auto
termination
  by (relation "measure (\<lambda>x. case x of Inl (_, _, b, _) \<Rightarrow> 2 * (5 - b) + 1 | Inr (_, _, b, _) \<Rightarrow> 2 * (5 - b))")
    auto

declare acquire_try.simps [simp del] acquire_wait.simps [simp del]

definition versioned_spinlock_acquire ::
  "interference \<Rightarrow> versioned_spinlock_t \<Rightarrow> bool \<times> nat \<times> versioned_spinlock_t" where
  "versioned_spinlock_acquire env l = acquire_try env 0 0 l"

definition versioned_spinlock_release :: "versioned_spinlock_t \<Rightarrow> versioned_spinlock_t" where
  "versioned_spinlock_release l = l\<lparr>vlock := False\<rparr>"

definition versioned_spinlock_update :: "versioned_spinlock_t \<Rightarrow> cint \<Rightarrow> versioned_spinlock_t" where
  "versioned_spinlock_update l v = l\<lparr>version := v\<rparr>"

definition versioned_spinlock_validate :: "versioned_spinlock_t \<Rightarrow> cint \<Rightarrow> bool" where
  "versioned_spinlock_validate l v =
     (if vlock l then False
      else if int_gt (version l) v then False
      else True)"

section \<open>Acquisition under interference\<close>

text \<open>At most five exchanges and four loads, whatever the other threads do.\<close>

lemma acquire_accesses:
  "b \<le> 4 \<Longrightarrow> fst (snd (acquire_try env k b l)) \<le> k + 2 * (4 - b) + 1"
  "b \<le> 4 \<Longrightarrow> fst (snd (acquire_wait env k b l)) \<le> k + 2 * (4 - b)"
proof (induction env k b l and env k b l rule: acquire_try_acquire_wait.induct)
  case (1 env k b l)
  then show ?case
    by (simp add: acquire_try.simps [of env k b l] Let_def)
next
  case (2 env k b l)
  show ?case
  proof (cases "b > 3")
    case True
    then show ?thesis by (simp add: acquire_wait.simps [of env k b l])
  next
    case False
    then have b: "4 - b = Suc (4 - (b + 1))" by simp
    from False "2.IH"(1) [OF False refl] "2.IH"(2) [OF False refl] show ?thesis
      by (auto simp: acquire_wait.simps [of env k b l] Let_def b)
  qed
qed

lemma versioned_spinlock_acquire_bounded:
  "fst (snd (versioned_spinlock_acquire env l)) \<le> 9"
  using acquire_accesses(1) [of 0 env 0 l] by (simp add: versioned_spinlock_acquire_def)

text \<open>A success is an exchange that saw the lock free and left it taken.\<close>

definition won :: "interference \<Rightarrow> bool \<times> nat \<times> versioned_spinlock_t \<Rightarrow> bool" where
  "won env r \<longleftrightarrow> (case r of (ok, n, l') \<Rightarrow>
     ok \<longrightarrow> (\<exists>l0. 0 < n \<and> \<not> vlock (env (n - 1) l0) \<and> l' = (env (n - 1) l0)\<lparr>vlock := True\<rparr>))"

lemma acquire_won:
  "won env (acquire_try env k b l)" "won env (acquire_wait env k b l)"
proof (induction env k b l and env k b l rule: acquire_try_acquire_wait.induct)
  case (1 env k b l)
  then show ?case
    by (auto simp: acquire_try.simps [of env k b l] Let_def won_def)
next
  case (2 env k b l)
  then show ?case
    by (auto simp: acquire_wait.simps [of env k b l] Let_def won_def)
qed

lemma versioned_spinlock_acquire_won:
  assumes "versioned_spinlock_acquire env l = (True, n, l')"
  obtains l0 where "0 < n" and "\<not> vlock (env (n - 1) l0)" and "l' = (env (n - 1) l0)\<lparr>vlock := True\<rparr>"
  using acquire_won(1) [of env 0 0 l] assms that
  by (auto simp: won_def versioned_spinlock_acquire_def)

text \<open>Without interference the outcome is the state of the lock bit.\<close>

lemma acquire_wait_busy:
  "vlock l \<Longrightarrow> b \<le> 4 \<Longrightarrow> acquire_wait alone k b l = (False, k + (4 - b), l)"
proof (induction "4 - b" arbitrary: k b)
  case 0
  then show ?case by (simp add: acquire_wait.simps)
next
  case (Suc x)
  then have b: "b \<le> 3" by simp
  have "acquire_wait alone (Suc k) (b + 1) l = (False, Suc k + (4 - (b + 1)), l)"
    by (rule Suc.hyps(1)) (use Suc.hyps(2) Suc.prems b in simp_all)
  with b Suc.prems show ?case by (simp add: acquire_wait.simps [of alone k b l] Let_def)
qed

lemma versioned_spinlock_acquire_alone:
  "versioned_spinlock_acquire alone l =
     (\<not> vlock l, if vlock l then 5 else 1, l\<lparr>vlock := True\<rparr>)"
  by (simp add: versioned_spinlock_acquire_def acquire_try.simps [of alone] acquire_wait_busy
      del: One_nat_def)

end
