(* ===== verification/C_Memory.thy ===== *)
theory C_Memory
  imports Tm_Prelude
begin

text \<open>
  The store the C code runs on. Shared words are bytes of a flat memory, copied with
  \<open>memcpy\<close> and cleared with \<open>memset\<close> (\<open>load\<close>, \<open>store\<close>). The nodes, buffers and transaction
  objects the code obtains from \<open>malloc\<close> are typed objects of a heap; reading a freed, NULL
  or wrongly typed object, and freeing anything but a live object or NULL, is undefined
  behaviour (\<open>None\<close>). The allocator is part of the C library: the state carries the pointers it
  is going to answer, and an answer that is NULL, already live or misaligned is a failed
  allocation, as the C standard and POSIX document it. The heap and the
  allocator are in \<open>C_Heap\<close>.
\<close>

section \<open>Bytes\<close>

definition load :: "(addr \<Rightarrow> byte) \<Rightarrow> addr \<Rightarrow> nat \<Rightarrow> byte list" where
  "load m a n = map (\<lambda>i. m (a + word_of_nat i)) [0..<n]"

fun store :: "(addr \<Rightarrow> byte) \<Rightarrow> addr \<Rightarrow> byte list \<Rightarrow> (addr \<Rightarrow> byte)" where
  "store m a [] = m"
| "store m a (b # bs) = store (m(a := b)) (a + 1) bs"

definition aligned :: "nat \<Rightarrow> addr \<Rightarrow> bool" where
  "aligned al a \<longleftrightarrow> unat a mod al = 0"

text \<open>A word size the region can have: it divides the address space.\<close>

definition word_size :: "nat \<Rightarrow> bool" where
  "word_size al \<longleftrightarrow> 0 < al \<and> 2 ^ 64 mod al = 0"

lemma length_load [simp]: "length (load m a n) = n"
  by (simp add: load_def)

lemma nth_load: "i < n \<Longrightarrow> load m a n ! i = m (a + word_of_nat i)"
  by (simp add: load_def)

lemma load_cong:
  "(\<And>i. i < n \<Longrightarrow> m (a + word_of_nat i) = m' (a + word_of_nat i)) \<Longrightarrow> load m a n = load m' a n"
  by (simp add: load_def)

lemma store_other:
  "(\<And>i. i < length bs \<Longrightarrow> x \<noteq> a + word_of_nat i) \<Longrightarrow> store m a bs x = m x"
proof (induction bs arbitrary: m a)
  case Nil
  then show ?case by simp
next
  case (Cons b bs)
  have "x \<noteq> a + 1 + word_of_nat i" if "i < length bs" for i
    using Cons.prems [of "Suc i"] that by (simp add: ac_simps)
  moreover have "x \<noteq> a" using Cons.prems [of 0] by simp
  ultimately show ?case using Cons.IH by simp
qed

lemma word_offset_inj:
  fixes a :: addr
  assumes "a + word_of_nat i = a + word_of_nat j" and "i < 2 ^ 64" and "j < 2 ^ 64"
  shows "i = j"
proof -
  from assms(1) have "unat (word_of_nat i :: addr) = unat (word_of_nat j :: addr)" by simp
  with assms(2,3) show ?thesis by (simp add: unat_of_nat take_bit_nat_eq_self)
qed

lemma store_same:
  "length bs \<le> 2 ^ 64 \<Longrightarrow> i < length bs \<Longrightarrow> store m a bs (a + word_of_nat i) = bs ! i"
proof (induction bs arbitrary: m a i)
  case Nil
  then show ?case by simp
next
  case (Cons b bs)
  show ?case
  proof (cases i)
    case 0
    have "store (m(a := b)) (a + 1) bs a = (m(a := b)) a"
    proof (rule store_other)
      fix j assume j: "j < length bs"
      show "a \<noteq> a + 1 + word_of_nat j"
      proof
        assume "a = a + 1 + word_of_nat j"
        then have "a + word_of_nat 0 = a + word_of_nat (Suc j)" by (simp add: add.assoc)
        from word_offset_inj [OF this] j Cons.prems show False by simp
      qed
    qed
    with 0 show ?thesis by simp
  next
    case (Suc k)
    then show ?thesis
      using Cons.IH [of k "m(a := b)" "a + 1"] Cons.prems by (simp add: ac_simps del: fun_upd_apply)
  qed
qed

lemma load_store_same: "length bs \<le> 2 ^ 64 \<Longrightarrow> load (store m a bs) a (length bs) = bs"
  by (rule nth_equalityI) (simp_all add: nth_load store_same)

lemma load_store_word:
  assumes "word_size al" and "length v = al"
  shows "load (store m a v) a al = v"
proof -
  have "al dvd 2 ^ 64" using assms by (auto simp: word_size_def)
  then have "al \<le> 2 ^ 64" by (rule dvd_imp_le) simp
  then show ?thesis using load_store_same [of v m a] assms by simp
qed

text \<open>Distinct aligned words do not overlap.\<close>

lemma unat_aligned_offset:
  assumes "word_size al" and "aligned al a" and "i < al"
  shows "unat (a + word_of_nat i) = unat a + i"
proof -
  obtain k where k: "2 ^ 64 = al * k"
    using assms(1) by (auto simp: word_size_def)
  obtain q where q: "unat a = al * q"
    using assms(2) by (auto simp: aligned_def)
  have "unat a < 2 ^ 64" using unsigned_less [of a] by simp
  then have "al * q < al * k" using k q by simp
  then have "q + 1 \<le> k" by simp
  then have "al * (q + 1) \<le> al * k" by (rule mult_le_mono2)
  then have "unat a + i < 2 ^ 64" using k q assms(3) by simp
  then show ?thesis by (rule unat_plus_offset)
qed

lemma aligned_words_disjoint:
  assumes "word_size al" and "aligned al a" and "aligned al b"
    and "i < al" and "j < al" and "a + word_of_nat i = b + word_of_nat j"
  shows "a = b"
proof -
  from assms have "unat a + i = unat b + j"
    by (metis unat_aligned_offset)
  then have "(unat a + i) div al = (unat b + j) div al" by simp
  then have "unat a div al = unat b div al"
    using assms(2-5) by (auto simp: aligned_def elim!: dvdE simp flip: dvd_eq_mod_eq_0)
  then have "unat a = unat b"
    using assms(2,3) by (auto simp: aligned_def elim!: dvdE simp flip: dvd_eq_mod_eq_0)
  then show ?thesis by (simp add: word_unat_eq_iff)
qed

lemma load_store_other:
  assumes "word_size al" and "aligned al a" and "aligned al b" and "a \<noteq> b" and "length v = al"
  shows "load (store m a v) b al = load m b al"
  by (rule load_cong, rule store_other) (use assms aligned_words_disjoint in metis)

end
