(* ===== verification/Shared_Lock.thy ===== *)
theory Shared_Lock
  imports Versioned_Spinlock C_Memory
begin

text \<open>
  \<open>shared-lock.h\<close> and \<open>shared-lock.c\<close>: the global clock, the table of \<open>NUM_LOCKS\<close> versioned
  spinlocks an address is hashed into, and the mutex of the segment list. The table is a
  function of the index; \<open>find_lock\<close> only yields indices below \<open>NUM_LOCKS\<close>. The lemmas
  give the effect of each operation on each lock and say which addresses share one.
\<close>

definition NUM_LOCKS :: nat where
  "NUM_LOCKS = 4999"

record shared_lock_t =
  clock :: cint
  locks :: "nat \<Rightarrow> versioned_spinlock_t"
  segment_lock :: bool          \<comment> \<open>whether the mutex is held\<close>

definition shared_lock_init :: "shared_lock_t \<Rightarrow> shared_lock_t" where
  "shared_lock_init lk =
     lk\<lparr>clock := 0,
        locks := fold (\<lambda>i f. f(i := versioned_spinlock_init (f i))) [0..<NUM_LOCKS] (locks lk),
        segment_lock := False\<rparr>"

definition shared_lock_global_clock_get :: "shared_lock_t \<Rightarrow> cint" where
  "shared_lock_global_clock_get lk = clock lk"

text \<open>The atomic increment wraps around at 32 bits.\<close>

definition shared_lock_global_clock_increment_and_get :: "shared_lock_t \<Rightarrow> cint \<times> shared_lock_t" where
  "shared_lock_global_clock_increment_and_get lk = (clock lk + 1, lk\<lparr>clock := clock lk + 1\<rparr>)"

definition find_lock :: "addr \<Rightarrow> nat" where
  "find_lock a = unat a mod NUM_LOCKS"

definition on_lock ::
  "(versioned_spinlock_t \<Rightarrow> versioned_spinlock_t) \<Rightarrow> shared_lock_t \<Rightarrow> addr \<Rightarrow> shared_lock_t" where
  "on_lock f lk a = lk\<lparr>locks := (locks lk)(find_lock a := f (locks lk (find_lock a)))\<rparr>"

definition shared_lock_versioned_spinlock_acquire ::
  "interference \<Rightarrow> shared_lock_t \<Rightarrow> addr \<Rightarrow> bool \<times> shared_lock_t" where
  "shared_lock_versioned_spinlock_acquire env lk a =
     (case versioned_spinlock_acquire env (locks lk (find_lock a)) of
        (ok, _, l) \<Rightarrow> (ok, on_lock (\<lambda>_. l) lk a))"

definition shared_lock_versioned_spinlock_release :: "shared_lock_t \<Rightarrow> addr \<Rightarrow> shared_lock_t" where
  "shared_lock_versioned_spinlock_release lk a = on_lock versioned_spinlock_release lk a"

definition shared_lock_versioned_spinlock_update ::
  "shared_lock_t \<Rightarrow> addr \<Rightarrow> cint \<Rightarrow> shared_lock_t" where
  "shared_lock_versioned_spinlock_update lk a v = on_lock (\<lambda>l. versioned_spinlock_update l v) lk a"

definition shared_lock_versioned_spinlock_validate :: "shared_lock_t \<Rightarrow> addr \<Rightarrow> cint \<Rightarrow> bool" where
  "shared_lock_versioned_spinlock_validate lk a v =
     versioned_spinlock_validate (locks lk (find_lock a)) v"

text \<open>Locking a mutex already held by the caller, or unlocking a free one, does not return
  or is undefined.\<close>

definition shared_lock_segment_lock_acquire :: "shared_lock_t \<Rightarrow> shared_lock_t option" where
  "shared_lock_segment_lock_acquire lk =
     (if segment_lock lk then None else Some (lk\<lparr>segment_lock := True\<rparr>))"

definition shared_lock_segment_lock_release :: "shared_lock_t \<Rightarrow> shared_lock_t option" where
  "shared_lock_segment_lock_release lk =
     (if segment_lock lk then Some (lk\<lparr>segment_lock := False\<rparr>) else None)"

text \<open>Destroying a locked mutex is undefined.\<close>

definition shared_lock_cleanup :: "shared_lock_t \<Rightarrow> shared_lock_t option" where
  "shared_lock_cleanup lk = (if segment_lock lk then None else Some lk)"

section \<open>The views the proofs use\<close>

definition held :: "shared_lock_t \<Rightarrow> addr \<Rightarrow> bool" where
  "held lk a = vlock (locks lk (find_lock a))"

definition ver :: "shared_lock_t \<Rightarrow> addr \<Rightarrow> cint" where
  "ver lk a = version (locks lk (find_lock a))"

text \<open>No lock of the table is taken.\<close>

definition all_free :: "shared_lock_t \<Rightarrow> bool" where
  "all_free lk \<longleftrightarrow> (\<forall>a. \<not> held lk a)"

lemma find_lock_less [simp]: "find_lock a < NUM_LOCKS"
  by (simp add: find_lock_def NUM_LOCKS_def)

lemma on_lock_sel [simp]:
  "clock (on_lock f lk a) = clock lk"
  "segment_lock (on_lock f lk a) = segment_lock lk"
  "locks (on_lock f lk a) = (locks lk)(find_lock a := f (locks lk (find_lock a)))"
  by (simp_all add: on_lock_def)

lemma acquire_simps:
  "shared_lock_versioned_spinlock_acquire alone lk a =
     (\<not> held lk a, on_lock (\<lambda>l. l\<lparr>vlock := True\<rparr>) lk a)"
  by (simp add: shared_lock_versioned_spinlock_acquire_def versioned_spinlock_acquire_alone held_def
      on_lock_def)

lemma acquire_busy:
  "held lk a \<Longrightarrow> shared_lock_versioned_spinlock_acquire alone lk a = (False, lk)"
proof -
  assume "held lk a"
  then have "(locks lk (find_lock a))\<lparr>vlock := True\<rparr> = locks lk (find_lock a)"
    by (simp add: held_def)
  with \<open>held lk a\<close> show ?thesis by (simp add: acquire_simps on_lock_def)
qed

lemma held_upd [simp]:
  "held (on_lock (\<lambda>l. l\<lparr>vlock := b\<rparr>) lk a) x = (if find_lock x = find_lock a then b else held lk x)"
  "held (shared_lock_versioned_spinlock_release lk a) x = (find_lock x \<noteq> find_lock a \<and> held lk x)"
  "held (shared_lock_versioned_spinlock_update lk a v) x = held lk x"
  by (auto simp: held_def shared_lock_versioned_spinlock_release_def versioned_spinlock_release_def
      shared_lock_versioned_spinlock_update_def versioned_spinlock_update_def)

lemma ver_upd [simp]:
  "ver (on_lock (\<lambda>l. l\<lparr>vlock := b\<rparr>) lk a) x = ver lk x"
  "ver (shared_lock_versioned_spinlock_release lk a) x = ver lk x"
  "ver (shared_lock_versioned_spinlock_update lk a v) x =
     (if find_lock x = find_lock a then v else ver lk x)"
  by (auto simp: ver_def shared_lock_versioned_spinlock_release_def versioned_spinlock_release_def
      shared_lock_versioned_spinlock_update_def versioned_spinlock_update_def)

lemma clock_upd [simp]:
  "clock (shared_lock_versioned_spinlock_release lk a) = clock lk"
  "clock (shared_lock_versioned_spinlock_update lk a v) = clock lk"
  by (simp_all add: shared_lock_versioned_spinlock_release_def shared_lock_versioned_spinlock_update_def)

lemma held_clock [simp]:
  "held (lk\<lparr>clock := c\<rparr>) a = held lk a" "ver (lk\<lparr>clock := c\<rparr>) a = ver lk a"
  by (simp_all add: held_def ver_def)

lemma validate_iff:
  "shared_lock_versioned_spinlock_validate lk a v \<longleftrightarrow> \<not> held lk a \<and> \<not> int_gt (ver lk a) v"
  by (simp add: shared_lock_versioned_spinlock_validate_def versioned_spinlock_validate_def held_def
      ver_def)

lemma same_lock: "find_lock a = find_lock b \<Longrightarrow> held lk a = held lk b \<and> ver lk a = ver lk b"
  by (simp add: held_def ver_def)

lemma init_locks:
  "locks (shared_lock_init lk) i =
     (if i < NUM_LOCKS then versioned_spinlock_init (locks lk i) else locks lk i)"
proof -
  have "fold (\<lambda>i f. f(i := versioned_spinlock_init (f i))) [0..<n] g i =
      (if i < n then versioned_spinlock_init (g i) else g i)" for n g
    by (induction n) auto
  then show ?thesis by (simp add: shared_lock_init_def)
qed

lemma init_held [simp]: "held (shared_lock_init lk) a = False" "ver (shared_lock_init lk) a = 0"
  by (simp_all add: held_def ver_def init_locks versioned_spinlock_init_def)

section \<open>Which words share a lock\<close>

lemma num_locks_coprime: "coprime (2 ^ k) NUM_LOCKS"
  by (simp add: NUM_LOCKS_def coprime_right_2_iff_odd coprime_power_left_iff)

text \<open>
  Words of a power-of-two size less than \<open>NUM_LOCKS\<close> words apart never share a lock.
\<close>

lemma find_lock_stride:
  assumes "unat a + 2 ^ k * i < 2 ^ 64" and "unat a + 2 ^ k * j < 2 ^ 64"
    and "find_lock (a + word_of_nat (2 ^ k * i)) = find_lock (a + word_of_nat (2 ^ k * j))"
    and "i < j" and "j - i < NUM_LOCKS"
  shows False
proof -
  have u: "unat (a + word_of_nat (2 ^ k * n)) = unat a + 2 ^ k * n"
    if "unat a + 2 ^ k * n < 2 ^ 64" for n
    using that by (rule unat_plus_offset)
  have "(unat a + 2 ^ k * i) mod NUM_LOCKS = (unat a + 2 ^ k * j) mod NUM_LOCKS"
    using assms(3) u [OF assms(1)] u [OF assms(2)] by (simp add: find_lock_def)
  then have "NUM_LOCKS dvd (unat a + 2 ^ k * j) - (unat a + 2 ^ k * i)"
    by (metis mod_eq_dvd_iff_nat nat_le_linear dvd_0_right diff_is_0_eq)
  also have "(unat a + 2 ^ k * j) - (unat a + 2 ^ k * i) = 2 ^ k * (j - i)"
    by (simp add: diff_mult_distrib2)
  finally have "NUM_LOCKS dvd 2 ^ k * (j - i)" .
  then have "NUM_LOCKS dvd j - i"
    using num_locks_coprime [of k] by (simp add: coprime_dvd_mult_right_iff coprime_commute)
  with assms(4,5) show False by (simp add: nat_dvd_not_less)
qed

end
