(* ===== verification/C_Heap.thy ===== *)
theory C_Heap
  imports C_Memory
begin

text \<open>
  The heap of the C code: the structs of \<open>read-set.h\<close>, \<open>write-set.h\<close>, \<open>transaction.h\<close> and of
  the segment list in \<open>tm.c\<close> as records, a typed object per live allocation, and the
  allocation functions of the C library. Every dereference is a partial lookup, so a NULL,
  dangling or wrongly typed access is \<open>None\<close>. The locale \<open>node_chain\<close> at the end states what
  the three linked lists share and is interpreted for each node type.
\<close>

section \<open>Structs and heap objects\<close>

record read_node =
  rn_address :: addr
  rn_next :: addr

record write_node =
  wn_address :: addr
  wn_value :: addr
  wn_next :: addr

record transaction =
  is_ro :: bool
  rv :: cint
  first_read_node :: addr
  last_read_node :: addr
  first_write_node :: addr
  last_write_node :: addr

record segment_node =
  sn_prev :: addr
  sn_next :: addr

datatype obj =
    Uninit nat                 \<comment> \<open>bytes fresh from \<open>malloc\<close>, not yet written\<close>
  | RNode read_node
  | WNode write_node
  | Bytes "byte list"          \<comment> \<open>a value buffer\<close>
  | Tx transaction
  | Seg segment_node
  | Raw                        \<comment> \<open>the \<open>struct region\<close> and the first segment\<close>

record cstate =
  heap :: "addr \<Rightarrow> obj option"
  mem :: "addr \<Rightarrow> byte"
  answers :: "addr list"       \<comment> \<open>what the allocator is going to answer\<close>

definition deref :: "cstate \<Rightarrow> addr \<Rightarrow> obj option" where
  "deref s p = (if p = NULL then None else heap s p)"

definition put :: "addr \<Rightarrow> obj \<Rightarrow> cstate \<Rightarrow> cstate option" where
  "put p ob s = (if deref s p = None then None else Some (s\<lparr>heap := (heap s)(p := Some ob)\<rparr>))"

definition get_rnode :: "cstate \<Rightarrow> addr \<Rightarrow> read_node option" where
  "get_rnode s p = (case deref s p of Some (RNode n) \<Rightarrow> Some n | _ \<Rightarrow> None)"

definition get_wnode :: "cstate \<Rightarrow> addr \<Rightarrow> write_node option" where
  "get_wnode s p = (case deref s p of Some (WNode n) \<Rightarrow> Some n | _ \<Rightarrow> None)"

definition get_bytes :: "cstate \<Rightarrow> addr \<Rightarrow> byte list option" where
  "get_bytes s p = (case deref s p of Some (Bytes b) \<Rightarrow> Some b | _ \<Rightarrow> None)"

definition get_tx :: "cstate \<Rightarrow> addr \<Rightarrow> transaction option" where
  "get_tx s p = (case deref s p of Some (Tx t) \<Rightarrow> Some t | _ \<Rightarrow> None)"

definition get_seg :: "cstate \<Rightarrow> addr \<Rightarrow> segment_node option" where
  "get_seg s p = (case deref s p of Some (Seg n) \<Rightarrow> Some n | _ \<Rightarrow> None)"

section \<open>The allocation functions of the C library\<close>

definition malloc :: "nat \<Rightarrow> cstate \<Rightarrow> addr \<times> cstate" where
  "malloc n s =
     (case answers s of
        [] \<Rightarrow> (NULL, s)
      | p # ps \<Rightarrow>
          if p = NULL \<or> heap s p \<noteq> None then (NULL, s\<lparr>answers := ps\<rparr>)
          else (p, s\<lparr>heap := (heap s)(p := Some (Uninit n)), answers := ps\<rparr>))"

definition free :: "addr \<Rightarrow> cstate \<Rightarrow> cstate option" where
  "free p s =
     (if p = NULL then Some s
      else if heap s p = None then None
      else Some (s\<lparr>heap := (heap s)(p := None)\<rparr>))"

text \<open>
  \<open>posix_memalign\<close> refuses an alignment that is not a power of two or not a multiple of
  \<open>sizeof(void*)\<close> with EINVAL (22); a failed allocation is ENOMEM (12).
\<close>

definition power_of_two :: "csize \<Rightarrow> bool" where
  "power_of_two w \<longleftrightarrow> unat w \<in> set (map (\<lambda>k. 2 ^ k) [0..<64])"

definition posix_memalign :: "csize \<Rightarrow> nat \<Rightarrow> cstate \<Rightarrow> nat \<times> addr \<times> cstate" where
  "posix_memalign align n s =
     (if \<not> power_of_two align \<or> unat align mod 8 \<noteq> 0 then (22, NULL, s)
      else case answers s of
        [] \<Rightarrow> (12, NULL, s)
      | p # ps \<Rightarrow>
          if p = NULL \<or> heap s p \<noteq> None \<or> \<not> aligned (unat align) p
          then (12, NULL, s\<lparr>answers := ps\<rparr>)
          else (0, p, s\<lparr>heap := (heap s)(p := Some (Uninit n)), answers := ps\<rparr>))"

text \<open>
  \<open>memcpy\<close> between addresses of the flat memory, into a buffer of the heap and out of one.
  Writing past the end of a buffer, or reading bytes never written, is undefined.
\<close>

definition memcpy :: "addr \<Rightarrow> addr \<Rightarrow> nat \<Rightarrow> cstate \<Rightarrow> cstate" where
  "memcpy dst src n s = s\<lparr>mem := store (mem s) dst (load (mem s) src n)\<rparr>"

definition memcpy_to_buffer :: "addr \<Rightarrow> addr \<Rightarrow> nat \<Rightarrow> cstate \<Rightarrow> cstate option" where
  "memcpy_to_buffer p src n s =
     (case deref s p of
        Some (Uninit m) \<Rightarrow> if m < n then None else put p (Bytes (load (mem s) src n)) s
      | Some (Bytes b) \<Rightarrow>
          if length b < n then None else put p (Bytes (load (mem s) src n @ drop n b)) s
      | _ \<Rightarrow> None)"

definition memcpy_from_buffer :: "addr \<Rightarrow> addr \<Rightarrow> nat \<Rightarrow> cstate \<Rightarrow> cstate option" where
  "memcpy_from_buffer dst p n s =
     (case get_bytes s p of
        Some b \<Rightarrow> if length b < n then None else Some (s\<lparr>mem := store (mem s) dst (take n b)\<rparr>)
      | None \<Rightarrow> None)"

definition memset0 :: "addr \<Rightarrow> csize \<Rightarrow> cstate \<Rightarrow> cstate" where
  "memset0 p n s = s\<lparr>mem := store (mem s) p (replicate (unat n) 0)\<rparr>"

text \<open>
  An allocator that can still satisfy \<open>n\<close> requests: its next answers are fresh and distinct.
\<close>

definition can_alloc :: "nat \<Rightarrow> cstate \<Rightarrow> bool" where
  "can_alloc n s \<longleftrightarrow> n \<le> length (answers s) \<and> distinct (answers s) \<and>
     (\<forall>p \<in> set (answers s). p \<noteq> NULL \<and> heap s p = None)"

lemma can_alloc_mono: "can_alloc n s \<Longrightarrow> m \<le> n \<Longrightarrow> can_alloc m s"
  by (simp add: can_alloc_def)

lemma malloc_ok:
  assumes "can_alloc (Suc n) s"
  obtains p ps where "answers s = p # ps" and "p \<noteq> NULL" and "heap s p = None"
    and "\<And>m. malloc m s = (p, s\<lparr>heap := (heap s)(p := Some (Uninit m)), answers := ps\<rparr>)"
    and "\<And>ob. can_alloc n (s\<lparr>heap := (heap s)(p := Some ob), answers := ps\<rparr>)"
proof (cases "answers s")
  case Nil
  with assms show ?thesis by (simp add: can_alloc_def)
next
  case (Cons p ps)
  show ?thesis
    by (rule that [OF Cons]) (use assms Cons in \<open>auto simp: can_alloc_def malloc_def\<close>)
qed

lemma malloc_none: "answers s = [] \<Longrightarrow> malloc n s = (NULL, s)"
  by (simp add: malloc_def)

lemma can_alloc_heap_upd:
  "can_alloc n s \<Longrightarrow> heap s p \<noteq> None \<Longrightarrow> can_alloc n (s\<lparr>heap := (heap s)(p := ob)\<rparr>)"
  by (auto simp: can_alloc_def)

lemma can_alloc_free:
  "can_alloc n s \<Longrightarrow> can_alloc n (s\<lparr>heap := (heap s)(p := None)\<rparr>)"
  by (auto simp: can_alloc_def)

lemma can_alloc_mem [simp]: "can_alloc n (s\<lparr>mem := m\<rparr>) = can_alloc n s"
  by (simp add: can_alloc_def)

lemma deref_Some [simp]: "deref s p = Some ob \<longleftrightarrow> p \<noteq> NULL \<and> heap s p = Some ob"
  by (auto simp: deref_def)

lemma get_rnode_iff: "get_rnode s p = Some n \<longleftrightarrow> p \<noteq> NULL \<and> heap s p = Some (RNode n)"
  by (auto simp: get_rnode_def deref_def split: option.splits obj.splits)

lemma get_wnode_iff: "get_wnode s p = Some n \<longleftrightarrow> p \<noteq> NULL \<and> heap s p = Some (WNode n)"
  by (auto simp: get_wnode_def deref_def split: option.splits obj.splits)

lemma get_bytes_iff: "get_bytes s p = Some n \<longleftrightarrow> p \<noteq> NULL \<and> heap s p = Some (Bytes n)"
  by (auto simp: get_bytes_def deref_def split: option.splits obj.splits)

lemma get_tx_iff: "get_tx s p = Some n \<longleftrightarrow> p \<noteq> NULL \<and> heap s p = Some (Tx n)"
  by (auto simp: get_tx_def deref_def split: option.splits obj.splits)

lemma get_seg_iff: "get_seg s p = Some n \<longleftrightarrow> p \<noteq> NULL \<and> heap s p = Some (Seg n)"
  by (auto simp: get_seg_def deref_def split: option.splits obj.splits)

lemma put_iff:
  "put p ob s = Some s' \<longleftrightarrow>
     p \<noteq> NULL \<and> heap s p \<noteq> None \<and> s' = s\<lparr>heap := (heap s)(p := Some ob)\<rparr>"
  by (auto simp: put_def deref_def)

lemmas get_iffs = get_rnode_iff get_wnode_iff get_bytes_iff get_tx_iff get_seg_iff put_iff

text \<open>The heap without the objects at some pointers.\<close>

definition without :: "addr list \<Rightarrow> (addr \<Rightarrow> obj option) \<Rightarrow> (addr \<Rightarrow> obj option)" where
  "without ps h = (\<lambda>p. if p \<in> set ps then None else h p)"

lemma without_Nil [simp]: "without [] h = h"
  by (simp add: without_def)

lemma without_Cons: "without (p # ps) h = without ps (h(p := None))"
  by (auto simp: without_def)

lemma without_append: "without (ps @ qs) h = without qs (without ps h)"
  by (auto simp: without_def)

lemma can_alloc_without: "can_alloc n s \<Longrightarrow> can_alloc n (s\<lparr>heap := without ps (heap s)\<rparr>)"
  by (auto simp: can_alloc_def without_def)

section \<open>NULL-terminated chains\<close>

text \<open>
  \<open>chain nx h p ps\<close>: following the link \<open>nx\<close> of the objects from \<open>p\<close> visits exactly the
  pointers \<open>ps\<close> and ends in NULL.
\<close>

fun chain :: "(obj \<Rightarrow> addr option) \<Rightarrow> (addr \<Rightarrow> obj option) \<Rightarrow> addr \<Rightarrow> addr list \<Rightarrow> bool" where
  "chain nx h p [] \<longleftrightarrow> p = NULL"
| "chain nx h p (q # qs) \<longleftrightarrow> p = q \<and> q \<noteq> NULL \<and>
     (case h q of None \<Rightarrow> False
      | Some ob \<Rightarrow> (case nx ob of None \<Rightarrow> False | Some n \<Rightarrow> chain nx h n qs))"

definition rn_link :: "obj \<Rightarrow> addr option" where
  "rn_link ob = (case ob of RNode n \<Rightarrow> Some (rn_next n) | _ \<Rightarrow> None)"

definition wn_link :: "obj \<Rightarrow> addr option" where
  "wn_link ob = (case ob of WNode n \<Rightarrow> Some (wn_next n) | _ \<Rightarrow> None)"

definition sn_link :: "obj \<Rightarrow> addr option" where
  "sn_link ob = (case ob of Seg n \<Rightarrow> Some (sn_next n) | _ \<Rightarrow> None)"

definition rn_relink :: "addr \<Rightarrow> obj \<Rightarrow> obj" where
  "rn_relink q ob = (case ob of RNode n \<Rightarrow> RNode (n\<lparr>rn_next := q\<rparr>) | _ \<Rightarrow> ob)"

definition wn_relink :: "addr \<Rightarrow> obj \<Rightarrow> obj" where
  "wn_relink q ob = (case ob of WNode n \<Rightarrow> WNode (n\<lparr>wn_next := q\<rparr>) | _ \<Rightarrow> ob)"

definition sn_relink :: "addr \<Rightarrow> obj \<Rightarrow> obj" where
  "sn_relink q ob = (case ob of Seg n \<Rightarrow> Seg (n\<lparr>sn_next := q\<rparr>) | _ \<Rightarrow> ob)"

locale node_chain =
  fixes nx :: "obj \<Rightarrow> addr option"
    and relink :: "addr \<Rightarrow> obj \<Rightarrow> obj"
  assumes nx_relink: "nx ob = Some n \<Longrightarrow> nx (relink q ob) = Some q"
begin

lemma chain_Cons:
  "chain nx h p (q # qs) \<longleftrightarrow>
     p = q \<and> q \<noteq> NULL \<and> (\<exists>ob n. h q = Some ob \<and> nx ob = Some n \<and> chain nx h n qs)"
  by (auto split: option.splits)

lemma chain_live: "chain nx h p ps \<Longrightarrow> q \<in> set ps \<Longrightarrow> q \<noteq> NULL \<and> (\<exists>ob n. h q = Some ob \<and> nx ob = Some n)"
  by (induction ps arbitrary: p) (auto split: option.splits)

lemma chain_cong:
  "(\<And>q. q \<in> set ps \<Longrightarrow> h q = h' q) \<Longrightarrow> chain nx h p ps = chain nx h' p ps"
  by (induction ps arbitrary: p) (auto split: option.splits)

lemma chain_upd: "q \<notin> set ps \<Longrightarrow> chain nx (h(q := x)) p ps = chain nx h p ps"
  by (rule chain_cong) auto

lemma chain_fun: "chain nx h p ps \<Longrightarrow> chain nx h p qs \<Longrightarrow> ps = qs"
proof (induction ps arbitrary: p qs)
  case Nil
  then show ?case by (cases qs) auto
next
  case (Cons q ps)
  then show ?case by (cases qs) (auto split: option.splits)
qed

lemma chain_append:
  "chain nx h p (xs @ ys) \<Longrightarrow> \<exists>r. chain nx h r ys"
  by (induction xs arbitrary: p) (auto split: option.splits)

lemma chain_distinct: "chain nx h p ps \<Longrightarrow> distinct ps"
proof (induction ps arbitrary: p)
  case Nil
  then show ?case by simp
next
  case (Cons q ps)
  then obtain ob n where n: "h q = Some ob" "nx ob = Some n" "chain nx h n ps"
    by (auto split: option.splits)
  have "q \<notin> set ps"
  proof
    assume "q \<in> set ps"
    then obtain xs ys where ps: "ps = xs @ q # ys" by (meson split_list)
    with n(3) obtain r where "chain nx h r (q # ys)" using chain_append by metis
    with n have "chain nx h n ys" by simp
    with n(3) have "ps = ys" by (rule chain_fun)
    with ps show False by simp
  qed
  with Cons.IH n(3) show ?case by simp
qed

text \<open>Linking a fresh node behind the last one appends it.\<close>

lemma chain_snoc:
  assumes "chain nx h p ps" and "ps \<noteq> []" and "q \<notin> set ps" and "q \<noteq> NULL"
    and "h (last ps) = Some ob" and "nx ob' = Some NULL"
  shows "chain nx (h(last ps := Some (relink q ob), q := Some ob')) p (ps @ [q])"
  using assms
proof (induction ps arbitrary: p)
  case Nil
  then show ?case by simp
next
  case (Cons r rs)
  then obtain or n where r: "h r = Some or" "nx or = Some n" "chain nx h n rs" "p = r" "r \<noteq> NULL"
    by (auto split: option.splits)
  have dist: "distinct (r # rs)" using Cons.prems(1) by (rule chain_distinct)
  show ?case
  proof (cases "rs = []")
    case True
    with Cons.prems r show ?thesis by (auto simp: nx_relink)
  next
    case False
    have "chain nx (h(last rs := Some (relink q ob), q := Some ob')) n (rs @ [q])"
      by (rule Cons.IH) (use Cons.prems False r(3) in \<open>auto split: if_splits\<close>)
    moreover have "(h(last rs := Some (relink q ob), q := Some ob')) r = Some or"
      using dist False last_in_set Cons.prems(3) r(1) by auto
    ultimately show ?thesis using False r by (simp del: fun_upd_apply)
  qed
qed

end

interpretation rn: node_chain rn_link rn_relink
  by unfold_locales (auto simp: rn_link_def rn_relink_def split: obj.splits)

interpretation wn: node_chain wn_link wn_relink
  by unfold_locales (auto simp: wn_link_def wn_relink_def split: obj.splits)

interpretation sn: node_chain sn_link sn_relink
  by unfold_locales (auto simp: sn_link_def sn_relink_def split: obj.splits)

lemma link_iffs:
  "rn_link ob = Some q \<longleftrightarrow> (\<exists>n. ob = RNode n \<and> rn_next n = q)"
  "wn_link ob = Some q \<longleftrightarrow> (\<exists>n. ob = WNode n \<and> wn_next n = q)"
  "sn_link ob = Some q \<longleftrightarrow> (\<exists>n. ob = Seg n \<and> sn_next n = q)"
  by (auto simp: rn_link_def wn_link_def sn_link_def split: obj.splits)

end
