(* ===== verification/Read_Set.thy ===== *)
theory Read_Set
  imports C_Heap
begin

text \<open>
  \<open>read-set.c\<close>: the linked list of the addresses a transaction has read. Each function is
  translated over the heap, with the caller's pointers \<open>*first_node\<close> and \<open>*last_node\<close> as
  arguments and results. \<open>read_set_rel\<close> relates the list in the heap to a HOL list, and the
  lemmas show that adding appends, that the cleanup frees exactly the nodes, and what a
  failing \<open>malloc\<close> does.
\<close>

definition read_set_init :: "addr \<times> addr" where
  "read_set_init = (NULL, NULL)"

text \<open>
  \<open>new_node\<close> is the caller's out parameter \<open>&new_node\<close>: the test \<open>!new_node\<close> after the
  allocation is on that address, not on the pointer \<open>malloc\<close> returned.
\<close>

definition read_node_create :: "addr \<Rightarrow> addr \<Rightarrow> cstate \<Rightarrow> (bool \<times> addr \<times> cstate) option" where
  "read_node_create new_node source_word s =
     (let (p, s) = malloc 16 s in
      if new_node = NULL then Some (False, p, s)
      else do {
        s \<leftarrow> put p (RNode \<lparr>rn_address = source_word, rn_next = NULL\<rparr>) s;
        Some (True, p, s)
      })"

text \<open>The address of the callers' local variable \<open>new_node\<close>.\<close>

definition local_new_node :: addr where
  "local_new_node = 0x7FFF00000000"

definition read_set_add_first :: "addr \<Rightarrow> cstate \<Rightarrow> addr \<Rightarrow> addr \<Rightarrow> (bool \<times> addr \<times> addr \<times> cstate) option" where
  "read_set_add_first source_word s first_node last_node = do {
     (ok, p, s) \<leftarrow> read_node_create local_new_node source_word s;
     if \<not> ok then Some (False, first_node, last_node, s)
     else Some (True, p, p, s)
   }"

definition read_set_add_next :: "addr \<Rightarrow> cstate \<Rightarrow> addr \<Rightarrow> (bool \<times> addr \<times> cstate) option" where
  "read_set_add_next source_word s last_node = do {
     (ok, p, s) \<leftarrow> read_node_create local_new_node source_word s;
     if \<not> ok then Some (False, last_node, s)
     else do {
       n \<leftarrow> get_rnode s last_node;
       s \<leftarrow> put last_node (RNode (n\<lparr>rn_next := p\<rparr>)) s;
       Some (True, p, s)
     }
   }"

definition read_set_add :: "addr \<Rightarrow> addr \<Rightarrow> addr \<Rightarrow> cstate \<Rightarrow> (bool \<times> addr \<times> addr \<times> cstate) option" where
  "read_set_add first_node last_node source_word s =
     (if first_node = NULL then read_set_add_first source_word s first_node last_node
      else do {
        (ok, last_node, s) \<leftarrow> read_set_add_next source_word s last_node;
        Some (ok, first_node, last_node, s)
      })"

partial_function (option) read_set_cleanup :: "addr \<Rightarrow> cstate \<Rightarrow> cstate option" where
  "read_set_cleanup first_node s =
     (if first_node = NULL then Some s
      else do {
        n \<leftarrow> get_rnode s first_node;
        s \<leftarrow> free first_node s;
        read_set_cleanup (rn_next n) s
      })"

section \<open>The list in the heap\<close>

definition rn_addr :: "(addr \<Rightarrow> obj option) \<Rightarrow> addr \<Rightarrow> addr" where
  "rn_addr h p = (case h p of Some (RNode n) \<Rightarrow> rn_address n | _ \<Rightarrow> NULL)"

definition read_set_rel :: "(addr \<Rightarrow> obj option) \<Rightarrow> addr \<Rightarrow> addr \<Rightarrow> addr list \<Rightarrow> addr list \<Rightarrow> bool" where
  "read_set_rel h f l ps xs \<longleftrightarrow>
     chain rn_link h f ps \<and> l = (if ps = [] then NULL else last ps) \<and> map (rn_addr h) ps = xs"

lemma read_set_rel_cong:
  assumes "\<And>p. p \<in> set ps \<Longrightarrow> h p = h' p"
  shows "read_set_rel h f l ps xs = read_set_rel h' f l ps xs"
proof -
  have "map (rn_addr h) ps = map (rn_addr h') ps"
    using assms by (simp add: rn_addr_def)
  moreover have "chain rn_link h f ps = chain rn_link h' f ps"
    using assms by (rule rn.chain_cong)
  ultimately show ?thesis by (simp only: read_set_rel_def)
qed

lemma read_set_rel_init: "read_set_init = (f, l) \<Longrightarrow> read_set_rel h f l [] []"
  by (simp add: read_set_init_def read_set_rel_def)

lemma read_set_rel_live:
  "read_set_rel h f l ps xs \<Longrightarrow> p \<in> set ps \<Longrightarrow> p \<noteq> NULL \<and> (\<exists>n. h p = Some (RNode n))"
  using rn.chain_live [of h f ps p] by (auto simp: read_set_rel_def link_iffs)

lemma read_set_rel_distinct: "read_set_rel h f l ps xs \<Longrightarrow> distinct ps"
  by (auto simp: read_set_rel_def dest: rn.chain_distinct)

lemma local_new_node_nonnull [simp]: "local_new_node \<noteq> NULL"
  by (simp add: local_new_node_def)

lemma read_set_add_appends:
  assumes rel: "read_set_rel (heap s) f l ps xs" and alloc: "can_alloc (Suc n) s"
  obtains q f' s' where "read_set_add f l a s = Some (True, f', q, s')"
    and "read_set_rel (heap s') f' q (ps @ [q]) (xs @ [a])"
    and "q \<noteq> NULL" and "heap s q = None" and "can_alloc n s'" and "mem s' = mem s"
    and "\<And>p. p \<notin> set ps \<Longrightarrow> p \<noteq> q \<Longrightarrow> heap s' p = heap s p"
proof -
  obtain q qs where q: "answers s = q # qs" "q \<noteq> NULL" "heap s q = None"
    "\<And>m. malloc m s = (q, s\<lparr>heap := (heap s)(q := Some (Uninit m)), answers := qs\<rparr>)"
    "\<And>ob. can_alloc n (s\<lparr>heap := (heap s)(q := Some ob), answers := qs\<rparr>)"
    using malloc_ok [OF alloc] by metis
  let ?new = "RNode \<lparr>rn_address = a, rn_next = NULL\<rparr>"
  let ?s1 = "s\<lparr>heap := (heap s)(q := Some ?new), answers := qs\<rparr>"
  have create: "read_node_create local_new_node a s = Some (True, q, ?s1)"
    by (simp add: read_node_create_def q put_def deref_def)
  have fresh: "q \<notin> set ps" using read_set_rel_live [OF rel] q(3) by force
  show thesis
  proof (cases "ps = []")
    case True
    with rel have "f = NULL" "xs = []" by (auto simp: read_set_rel_def)
    show thesis
    proof (rule that)
      show "read_set_add f l a s = Some (True, q, q, ?s1)"
        using \<open>f = NULL\<close> create by (simp add: read_set_add_def read_set_add_first_def)
      show "read_set_rel (heap ?s1) q q (ps @ [q]) (xs @ [a])"
        using True q(2) \<open>xs = []\<close> by (simp add: read_set_rel_def rn_addr_def rn_link_def)
    qed (use q True in simp_all)
  next
    case False
    then have last: "last ps \<in> set ps" "l = last ps" using rel by (auto simp: read_set_rel_def)
    then obtain m where m: "heap s l = Some (RNode m)" "l \<noteq> NULL"
      using read_set_rel_live [OF rel] by metis
    have lq: "l \<noteq> q" using m q(3) by auto
    have fnn: "f \<noteq> NULL" using rel False by (cases ps) (auto simp: read_set_rel_def)
    let ?s2 = "?s1\<lparr>heap := (heap ?s1)(l := Some (RNode (m\<lparr>rn_next := q\<rparr>)))\<rparr>"
    have h2: "heap ?s2 = (heap s)(last ps := Some (rn_relink q (RNode m)), q := Some ?new)"
      using lq last by (auto simp: rn_relink_def)
    show thesis
    proof (rule that)
      show "read_set_add f l a s = Some (True, f, q, ?s2)"
        using fnn create m lq
        by (simp add: read_set_add_def read_set_add_next_def get_rnode_def put_def deref_def)
      have "chain rn_link (heap ?s2) f (ps @ [q])"
        unfolding h2 using rel False fresh q(2) m last
        by (intro rn.chain_snoc) (auto simp: read_set_rel_def rn_link_def)
      moreover have "map (rn_addr (heap ?s2)) (ps @ [q]) = xs @ [a]"
        using rel fresh last lq m by (auto simp: read_set_rel_def rn_addr_def)
      ultimately show "read_set_rel (heap ?s2) f q (ps @ [q]) (xs @ [a])"
        by (simp add: read_set_rel_def)
      show "can_alloc n ?s2" using can_alloc_heap_upd [OF q(5)] m lq by simp
    qed (use q last in auto)
  qed
qed

lemma read_set_cleanup_frees:
  "chain rn_link (heap s) f ps \<Longrightarrow> distinct ps \<Longrightarrow>
     read_set_cleanup f s = Some (s\<lparr>heap := without ps (heap s)\<rparr>)"
proof (induction ps arbitrary: f s)
  case Nil
  then show ?case by (subst read_set_cleanup.simps) simp
next
  case (Cons p ps)
  then obtain n where p: "f = p" "p \<noteq> NULL" "heap s p = Some (RNode n)"
    "chain rn_link (heap s) (rn_next n) ps"
    by (auto simp: rn.chain_Cons link_iffs simp del: chain.simps)
  let ?s = "s\<lparr>heap := (heap s)(p := None)\<rparr>"
  have "read_set_cleanup (rn_next n) ?s = Some (?s\<lparr>heap := without ps (heap ?s)\<rparr>)"
    using Cons.prems p by (intro Cons.IH) (simp_all add: rn.chain_upd del: fun_upd_apply)
  then show ?case
    using p by (subst read_set_cleanup.simps) (simp add: get_rnode_def free_def deref_def without_Cons)
qed

text \<open>A failing allocation is not noticed: the node is written through NULL.\<close>

lemma read_node_create_oom:
  "malloc 16 s = (NULL, s') \<Longrightarrow> read_node_create local_new_node a s = None"
  by (simp add: read_node_create_def put_def deref_def)

lemma read_set_add_oom: "malloc 16 s = (NULL, s') \<Longrightarrow> read_set_add f l a s = None"
  by (simp add: read_set_add_def read_set_add_first_def read_set_add_next_def read_node_create_oom)

lemma read_set_add_never_False: "read_set_add f l a s \<noteq> Some (False, r)"
  by (auto simp: read_set_add_def read_set_add_first_def read_set_add_next_def read_node_create_def
      bind_simps split: if_splits)

end
