(* ===== verification/Write_Set.thy ===== *)
theory Write_Set
  imports C_Heap "HOL-Library.AList"
begin

text \<open>
  \<open>write-set.c\<close>: the linked list of the words a transaction has written, each with a buffer
  that holds its new value. \<open>write_set_rel\<close> relates the list in the heap to an association list
  of addresses and values; the lemmas show that finding is lookup, that adding and overwriting
  together are an update of the association list, and that the cleanup frees exactly the nodes
  and their buffers. A failing allocation of a node is not noticed (undefined behaviour), a
  failing allocation of the value is reported and leaks the node.
\<close>

definition write_set_init :: "addr \<times> addr" where
  "write_set_init = (NULL, NULL)"

definition write_node_create ::
  "addr \<Rightarrow> addr \<Rightarrow> addr \<Rightarrow> csize \<Rightarrow> cstate \<Rightarrow> (bool \<times> addr \<times> cstate) option" where
  "write_node_create new_node target_word source_word sz s =
     (let (p, s) = malloc 24 s in
      if new_node = NULL then Some (False, p, s)
      else do {
        \<comment> \<open>\<open>next\<close> is not initialised before the value is there\<close>
        s \<leftarrow> put p (WNode \<lparr>wn_address = target_word, wn_value = NULL, wn_next = NULL\<rparr>) s;
        let (v, s) = malloc (unat sz) s;
        s \<leftarrow> put p (WNode \<lparr>wn_address = target_word, wn_value = v, wn_next = NULL\<rparr>) s;
        if v = NULL then Some (False, p, s)
        else do {
          s \<leftarrow> memcpy_to_buffer v source_word (unat sz) s;
          Some (True, p, s)
        }
      })"

definition local_new_wnode :: addr where
  "local_new_wnode = 0x7FFF00000000"

definition write_set_add_first ::
  "addr \<Rightarrow> addr \<Rightarrow> csize \<Rightarrow> cstate \<Rightarrow> addr \<Rightarrow> addr \<Rightarrow> (bool \<times> addr \<times> addr \<times> cstate) option" where
  "write_set_add_first target_word source_word sz s first_node last_node = do {
     (ok, p, s) \<leftarrow> write_node_create local_new_wnode target_word source_word sz s;
     if \<not> ok then Some (False, first_node, last_node, s)
     else Some (True, p, p, s)
   }"

definition write_set_add_next ::
  "addr \<Rightarrow> addr \<Rightarrow> csize \<Rightarrow> cstate \<Rightarrow> addr \<Rightarrow> (bool \<times> addr \<times> cstate) option" where
  "write_set_add_next target_word source_word sz s last_node = do {
     (ok, p, s) \<leftarrow> write_node_create local_new_wnode target_word source_word sz s;
     if \<not> ok then Some (False, last_node, s)
     else do {
       n \<leftarrow> get_wnode s last_node;
       s \<leftarrow> put last_node (WNode (n\<lparr>wn_next := p\<rparr>)) s;
       Some (True, p, s)
     }
   }"

definition write_set_add ::
  "addr \<Rightarrow> addr \<Rightarrow> addr \<Rightarrow> addr \<Rightarrow> csize \<Rightarrow> cstate \<Rightarrow> (bool \<times> addr \<times> addr \<times> cstate) option" where
  "write_set_add first_node last_node target_word source_word sz s =
     (if first_node = NULL
      then write_set_add_first target_word source_word sz s first_node last_node
      else do {
        (ok, last_node, s) \<leftarrow> write_set_add_next target_word source_word sz s last_node;
        Some (ok, first_node, last_node, s)
      })"

definition write_node_overwrite :: "addr \<Rightarrow> addr \<Rightarrow> csize \<Rightarrow> cstate \<Rightarrow> cstate option" where
  "write_node_overwrite node source_word sz s = do {
     n \<leftarrow> get_wnode s node;
     memcpy_to_buffer (wn_value n) source_word (unat sz) s
   }"

partial_function (option) write_node_find :: "addr \<Rightarrow> addr \<Rightarrow> cstate \<Rightarrow> addr option" where
  "write_node_find first_node target_word s =
     (if first_node = NULL then Some NULL
      else do {
        n \<leftarrow> get_wnode s first_node;
        if wn_address n = target_word then Some first_node
        else write_node_find (wn_next n) target_word s
      })"

partial_function (option) write_set_cleanup :: "addr \<Rightarrow> cstate \<Rightarrow> cstate option" where
  "write_set_cleanup first_node s =
     (if first_node = NULL then Some s
      else do {
        n \<leftarrow> get_wnode s first_node;
        s \<leftarrow> free (wn_value n) s;
        s \<leftarrow> free first_node s;
        write_set_cleanup (wn_next n) s
      })"

section \<open>The list in the heap\<close>

fun wdata :: "(addr \<Rightarrow> obj option) \<Rightarrow> addr list \<Rightarrow> addr list \<Rightarrow> (addr \<times> byte list) list \<Rightarrow> bool" where
  "wdata h [] [] [] \<longleftrightarrow> True"
| "wdata h (p # ps) (v # vs) ((a, b) # ws) \<longleftrightarrow>
     (\<exists>q. h p = Some (WNode \<lparr>wn_address = a, wn_value = v, wn_next = q\<rparr>)) \<and>
     v \<noteq> NULL \<and> h v = Some (Bytes b) \<and> wdata h ps vs ws"
| "wdata h _ _ _ \<longleftrightarrow> False"

definition write_set_rel ::
  "(addr \<Rightarrow> obj option) \<Rightarrow> addr \<Rightarrow> addr \<Rightarrow> addr list \<Rightarrow> addr list \<Rightarrow> (addr \<times> byte list) list \<Rightarrow> bool" where
  "write_set_rel h f l ps vs ws \<longleftrightarrow>
     chain wn_link h f ps \<and> l = (if ps = [] then NULL else last ps) \<and> wdata h ps vs ws \<and>
     distinct vs"

lemma wdata_live:
  "wdata h ps vs ws \<Longrightarrow> p \<in> set ps \<Longrightarrow> \<exists>n. h p = Some (WNode n)"
  "wdata h ps vs ws \<Longrightarrow> v \<in> set vs \<Longrightarrow> v \<noteq> NULL \<and> (\<exists>b. h v = Some (Bytes b))"
  by (induction h ps vs ws rule: wdata.induct) auto

lemma wdata_disjoint: "wdata h ps vs ws \<Longrightarrow> set ps \<inter> set vs = {}"
  using wdata_live by fastforce

lemma wdata_cong:
  "(\<And>p. p \<in> set ps \<union> set vs \<Longrightarrow> h p = h' p) \<Longrightarrow> wdata h ps vs ws = wdata h' ps vs ws"
  by (induction h ps vs ws rule: wdata.induct) simp_all

lemma wdata_lengths: "wdata h ps vs ws \<Longrightarrow> length ps = length ws \<and> length vs = length ws"
  by (induction h ps vs ws rule: wdata.induct) auto

lemma wdata_append:
  "wdata h ps vs ws \<Longrightarrow> wdata h [p] [v] [w] \<Longrightarrow> wdata h (ps @ [p]) (vs @ [v]) (ws @ [w])"
  by (induction h ps vs ws rule: wdata.induct) auto

lemma wdata_relink:
  assumes "wdata h ps vs ws" and "h r = Some (WNode m)"
  shows "wdata (h(r := Some (WNode (m\<lparr>wn_next := q\<rparr>)))) ps vs ws"
  using assms
proof (induction h ps vs ws rule: wdata.induct)
  case (2 h p ps v vs a b ws)
  moreover have "v \<noteq> r" using 2 by auto
  ultimately show ?case by (cases "p = r") auto
qed auto

lemma write_set_rel_cong:
  assumes "\<And>p. p \<in> set ps \<union> set vs \<Longrightarrow> h p = h' p"
  shows "write_set_rel h f l ps vs ws = write_set_rel h' f l ps vs ws"
  using wn.chain_cong [of ps h h'] wdata_cong [of ps vs h h'] assms
  by (simp add: write_set_rel_def)

lemma write_set_rel_init: "write_set_init = (f, l) \<Longrightarrow> write_set_rel h f l [] [] []"
  by (simp add: write_set_init_def write_set_rel_def)

lemma write_set_rel_live:
  assumes "write_set_rel h f l ps vs ws" and "p \<in> set ps \<union> set vs"
  shows "p \<noteq> NULL \<and> (\<exists>ob. h p = Some ob \<and> (\<forall>n. ob \<noteq> RNode n) \<and> (\<forall>t. ob \<noteq> Tx t))"
  using assms wn.chain_live [of h f ps p] wdata_live [of h ps vs ws p]
  by (auto simp: write_set_rel_def)

section \<open>Lookup\<close>

fun ptr_of :: "addr list \<Rightarrow> (addr \<times> byte list) list \<Rightarrow> addr \<Rightarrow> addr" where
  "ptr_of (p # ps) ((b, v) # ws) a = (if b = a then p else ptr_of ps ws a)"
| "ptr_of _ _ a = NULL"

lemma write_node_find_lookup:
  "chain wn_link (heap s) f ps \<Longrightarrow> wdata (heap s) ps vs ws \<Longrightarrow>
     write_node_find f a s = Some (ptr_of ps ws a)"
proof (induction "heap s" ps vs ws arbitrary: f rule: wdata.induct)
  case 1
  then show ?case by (subst write_node_find.simps) simp
next
  case (2 p ps v vs b x ws)
  then obtain q where q: "f = p" "p \<noteq> NULL"
    "heap s p = Some (WNode \<lparr>wn_address = b, wn_value = v, wn_next = q\<rparr>)"
    "chain wn_link (heap s) q ps" "wdata (heap s) ps vs ws"
    by (auto simp: wn.chain_Cons link_iffs simp del: chain.simps)
  then show ?case
    using "2.hyps" [of q] by (subst write_node_find.simps) (simp add: get_wnode_def deref_def)
qed simp_all

lemma ptr_of_NULL:
  assumes "wdata h ps vs ws" and "chain wn_link h f ps"
  shows "ptr_of ps ws a = NULL \<longleftrightarrow> a \<notin> fst ` set ws"
  using assms
proof (induction h ps vs ws arbitrary: f rule: wdata.induct)
  case (2 h p ps v vs b x ws)
  then show ?case by (auto simp: wn.chain_Cons simp del: chain.simps)
qed auto

text \<open>The node found holds the value the association list has for the address.\<close>

lemma ptr_of_value:
  assumes "wdata h ps vs ws" and "a \<in> fst ` set ws"
  obtains v q b where "h (ptr_of ps ws a) = Some (WNode \<lparr>wn_address = a, wn_value = v, wn_next = q\<rparr>)"
    and "v \<in> set vs" and "v \<noteq> NULL" and "h v = Some (Bytes b)" and "map_of ws a = Some b"
    and "ptr_of ps ws a \<in> set ps"
  using assms
proof (induction h ps vs ws arbitrary: thesis rule: wdata.induct)
  case (2 h p ps v vs b x ws)
  show ?case
  proof (cases "b = a")
    case True
    with 2 show ?thesis by auto
  next
    case False
    with 2 show ?thesis by auto
  qed
qed auto

section \<open>Adding and overwriting\<close>

lemma local_new_wnode_nonnull [simp]: "local_new_wnode \<noteq> NULL"
  by (simp add: local_new_wnode_def)

lemma write_node_create_ok:
  assumes "can_alloc (Suc (Suc n)) s"
  obtains p v as where "p \<noteq> NULL" and "v \<noteq> NULL" and "p \<noteq> v" and "heap s p = None" and "heap s v = None"
    and "write_node_create local_new_wnode a src sz s =
      Some (True, p, s\<lparr>heap := (heap s)(p := Some (WNode \<lparr>wn_address = a, wn_value = v, wn_next = NULL\<rparr>),
                                     v := Some (Bytes (load (mem s) src (unat sz)))), answers := as\<rparr>)"
    and "\<And>ob ob'. can_alloc n (s\<lparr>heap := (heap s)(p := Some ob, v := Some ob'), answers := as\<rparr>)"
proof -
  obtain p v as where as: "answers s = p # v # as"
    using assms by (cases "answers s"; cases "tl (answers s)") (auto simp: can_alloc_def)
  then have pv: "p \<noteq> NULL" "v \<noteq> NULL" "p \<noteq> v" "heap s p = None" "heap s v = None"
    using assms by (auto simp: can_alloc_def)
  show thesis
  proof (rule that [OF pv, of as])
    show "write_node_create local_new_wnode a src sz s =
      Some (True, p, s\<lparr>heap := (heap s)(p := Some (WNode \<lparr>wn_address = a, wn_value = v, wn_next = NULL\<rparr>),
                                     v := Some (Bytes (load (mem s) src (unat sz)))), answers := as\<rparr>)"
      using as pv
      by (simp add: write_node_create_def malloc_def put_def deref_def memcpy_to_buffer_def fun_upd_twist)
    show "\<And>ob ob'. can_alloc n (s\<lparr>heap := (heap s)(p := Some ob, v := Some ob'), answers := as\<rparr>)"
      using assms as by (auto simp: can_alloc_def)
  qed
qed

lemma write_set_add_appends:
  assumes rel: "write_set_rel (heap s) f l ps vs ws" and alloc: "can_alloc (Suc (Suc n)) s"
  obtains q v f' s' where "write_set_add f l a src sz s = Some (True, f', q, s')"
    and "write_set_rel (heap s') f' q (ps @ [q]) (vs @ [v])
           (ws @ [(a, load (mem s) src (unat sz))])"
    and "q \<noteq> NULL" and "heap s q = None" and "v \<noteq> NULL" and "heap s v = None" and "q \<noteq> v"
    and "can_alloc n s'" and "mem s' = mem s"
    and "\<And>p. p \<notin> set ps \<Longrightarrow> p \<noteq> q \<Longrightarrow> p \<noteq> v \<Longrightarrow> heap s' p = heap s p"
proof -
  let ?b = "load (mem s) src (unat sz)"
  obtain q v as where q: "q \<noteq> NULL" "v \<noteq> NULL" "q \<noteq> v" "heap s q = None" "heap s v = None"
    and create: "write_node_create local_new_wnode a src sz s =
      Some (True, q, s\<lparr>heap := (heap s)(q := Some (WNode \<lparr>wn_address = a, wn_value = v, wn_next = NULL\<rparr>),
                                     v := Some (Bytes ?b)), answers := as\<rparr>)"
    and alloc': "\<And>ob ob'. can_alloc n (s\<lparr>heap := (heap s)(q := Some ob, v := Some ob'), answers := as\<rparr>)"
    using write_node_create_ok [OF alloc] by metis
  let ?new = "WNode \<lparr>wn_address = a, wn_value = v, wn_next = NULL\<rparr>"
  let ?s1 = "s\<lparr>heap := (heap s)(q := Some ?new, v := Some (Bytes ?b)), answers := as\<rparr>"
  have fresh: "q \<notin> set ps \<union> set vs" "v \<notin> set ps \<union> set vs"
    using write_set_rel_live [OF rel] q(4,5) by force+
  have w1: "wdata (heap ?s1) (ps @ [q]) (vs @ [v]) (ws @ [(a, ?b)])"
  proof (rule wdata_append)
    have "wdata (heap ?s1) ps vs ws = wdata (heap s) ps vs ws"
      by (rule wdata_cong) (use fresh in auto)
    then show "wdata (heap ?s1) ps vs ws" using rel by (simp add: write_set_rel_def)
    show "wdata (heap ?s1) [q] [v] [(a, ?b)]" using q by simp
  qed
  have dist: "distinct (vs @ [v])" using rel fresh by (auto simp: write_set_rel_def)
  show thesis
  proof (cases "ps = []")
    case True
    with rel have "f = NULL" by (auto simp: write_set_rel_def)
    show thesis
    proof (rule that)
      show "write_set_add f l a src sz s = Some (True, q, q, ?s1)"
        using \<open>f = NULL\<close> create by (simp add: write_set_add_def write_set_add_first_def)
      show "write_set_rel (heap ?s1) q q (ps @ [q]) (vs @ [v]) (ws @ [(a, ?b)])"
        using w1 dist True q by (simp add: write_set_rel_def wn_link_def)
    qed (use q True alloc' in simp_all)
  next
    case False
    then have last: "last ps \<in> set ps" "l = last ps" using rel by (auto simp: write_set_rel_def)
    obtain m where m: "heap s l = Some (WNode m)" "l \<noteq> NULL"
      using last rel wdata_live(1) wn.chain_live by (metis write_set_rel_def)
    have lq: "l \<noteq> q" "l \<noteq> v" using m q by auto
    have fnn: "f \<noteq> NULL" using rel False by (cases ps) (auto simp: write_set_rel_def)
    let ?s2 = "?s1\<lparr>heap := (heap ?s1)(l := Some (WNode (m\<lparr>wn_next := q\<rparr>)))\<rparr>"
    have h2: "heap ?s2 = (heap s)(v := Some (Bytes ?b), last ps := Some (wn_relink q (WNode m)), q := Some ?new)"
      using lq q(3) last by (auto simp: wn_relink_def)
    show thesis
    proof (rule that)
      show "write_set_add f l a src sz s = Some (True, f, q, ?s2)"
        using fnn create m lq
        by (simp add: write_set_add_def write_set_add_next_def get_wnode_def put_def deref_def)
      have "chain wn_link ((heap s)(v := Some (Bytes ?b))) f ps"
        using rel fresh by (simp add: wn.chain_upd write_set_rel_def)
      then have "chain wn_link (heap ?s2) f (ps @ [q])"
        unfolding h2 using False fresh q m last lq
        by (intro wn.chain_snoc) (auto simp: wn_link_def)
      moreover have "wdata (heap ?s2) (ps @ [q]) (vs @ [v]) (ws @ [(a, ?b)])"
        using wdata_relink [OF w1, of l m q] m lq by simp
      ultimately show "write_set_rel (heap ?s2) f q (ps @ [q]) (vs @ [v]) (ws @ [(a, ?b)])"
        using dist by (simp add: write_set_rel_def)
      show "can_alloc n ?s2" using can_alloc_heap_upd [OF alloc', of _ _ l] m lq by simp
    qed (use q last in auto)
  qed
qed

lemma wdata_overwrite:
  assumes "wdata h ps vs ws" and "distinct vs" and "a \<in> fst ` set ws"
    and "h (ptr_of ps ws a) = Some (WNode n)"
  shows "wdata (h(wn_value n := Some (Bytes c))) ps vs (AList.update a c ws)"
  using assms
proof (induction h ps vs ws rule: wdata.induct)
  case (2 h p ps v vs b x ws)
  have disj: "set (p # ps) \<inter> set (v # vs) = {}" using "2.prems"(1) by (rule wdata_disjoint)
  show ?case
  proof (cases "b = a")
    case True
    with "2.prems" have v: "wn_value n = v" by auto
    have "wdata (h(v := Some (Bytes c))) ps vs ws = wdata h ps vs ws"
      by (rule wdata_cong) (use "2.prems"(2) disj in auto)
    then have "wdata (h(v := Some (Bytes c))) ps vs ws" using "2.prems"(1) by simp
    moreover from "2.prems"(1) obtain q where
      "h p = Some (WNode \<lparr>wn_address = b, wn_value = v, wn_next = q\<rparr>)" "v \<noteq> NULL" by auto
    moreover have "p \<noteq> v" using disj by auto
    ultimately show ?thesis unfolding v using True
      by (simp add: fun_upd_same fun_upd_other del: fun_upd_apply)
  next
    case False
    then have a: "a \<in> fst ` set ws" and n: "h (ptr_of ps ws a) = Some (WNode n)"
      using "2.prems" by auto
    define u where u: "u = wn_value n"
    have w': "wdata h ps vs ws" using "2.prems"(1) by simp
    obtain v' q' where v': "v' \<in> set vs"
      "h (ptr_of ps ws a) = Some (WNode \<lparr>wn_address = a, wn_value = v', wn_next = q'\<rparr>)"
      using ptr_of_value [OF w' a] by metis
    have "n = \<lparr>wn_address = a, wn_value = v', wn_next = q'\<rparr>" using n v'(2) by simp
    then have "u \<in> set vs" using v'(1) u by simp
    then have "p \<noteq> u" "v \<noteq> u" using disj "2.prems"(2) by auto
    moreover have "wdata (h(u := Some (Bytes c))) ps vs (AList.update a c ws)"
      unfolding u by (rule "2.IH" [OF w' _ a n]) (use "2.prems"(2) in simp)
    moreover from "2.prems"(1) obtain q where
      "h p = Some (WNode \<lparr>wn_address = b, wn_value = v, wn_next = q\<rparr>)" "v \<noteq> NULL"
      "h v = Some (Bytes x)" by auto
    ultimately show ?thesis unfolding u [symmetric] using False
      by (simp add: fun_upd_same fun_upd_other del: fun_upd_apply)
  qed
qed auto

lemma write_node_overwrite_updates:
  assumes rel: "write_set_rel (heap s) f l ps vs ws" and a: "a \<in> fst ` set ws"
    and len: "\<And>w. w \<in> set ws \<Longrightarrow> length (snd w) = unat sz"
  obtains v s' where "write_node_overwrite (ptr_of ps ws a) src sz s = Some s'"
    and "v \<in> set vs" and "s' = s\<lparr>heap := (heap s)(v := Some (Bytes (load (mem s) src (unat sz))))\<rparr>"
    and "write_set_rel (heap s') f l ps vs (AList.update a (load (mem s) src (unat sz)) ws)"
proof -
  let ?b = "load (mem s) src (unat sz)"
  have w: "wdata (heap s) ps vs ws" and c: "chain wn_link (heap s) f ps" and d: "distinct vs"
    using rel by (auto simp: write_set_rel_def)
  obtain v q b where n: "heap s (ptr_of ps ws a) = Some (WNode \<lparr>wn_address = a, wn_value = v, wn_next = q\<rparr>)"
    and v: "v \<in> set vs" "v \<noteq> NULL" "heap s v = Some (Bytes b)" "map_of ws a = Some b" "ptr_of ps ws a \<in> set ps"
    using ptr_of_value [OF w a] by metis
  let ?s' = "s\<lparr>heap := (heap s)(v := Some (Bytes ?b))\<rparr>"
  have lb: "length b = unat sz" using v(4) len [of "(a, b)"] by (auto dest: map_of_SomeD)
  have pnn: "ptr_of ps ws a \<noteq> NULL" using wn.chain_live [OF c v(5)] by simp
  show thesis
  proof (rule that)
    show "write_node_overwrite (ptr_of ps ws a) src sz s = Some ?s'"
      using n v(2,3) lb pnn
      by (simp add: write_node_overwrite_def get_wnode_def deref_def memcpy_to_buffer_def put_def)
    show "v \<in> set vs" by (rule v)
    have "wdata (heap ?s') ps vs (AList.update a ?b ws)"
      using wdata_overwrite [OF w d a n, of ?b] by simp
    moreover have "chain wn_link (heap ?s') f ps"
      using c v(1) wdata_disjoint [OF w] by (subst wn.chain_cong [of ps _ "heap s"]) auto
    ultimately show "write_set_rel (heap ?s') f l ps vs (AList.update a ?b ws)"
      using rel by (simp add: write_set_rel_def)
  qed simp
qed

section \<open>Cleanup and failing allocations\<close>

lemma write_set_cleanup_frees:
  "chain wn_link (heap s) f ps \<Longrightarrow> wdata (heap s) ps vs ws \<Longrightarrow> distinct ps \<Longrightarrow> distinct vs \<Longrightarrow>
     write_set_cleanup f s = Some (s\<lparr>heap := without (ps @ vs) (heap s)\<rparr>)"
proof (induction ps arbitrary: f s vs ws)
  case Nil
  then show ?case by (cases vs; cases ws) (subst write_set_cleanup.simps, simp)+
next
  case (Cons p ps f s vs0 ws0)
  then obtain v vs b x ws where eq: "vs0 = v # vs" "ws0 = (b, x) # ws"
    using wdata_lengths [of "heap s" "p # ps" vs0 ws0] by (cases vs0; cases ws0) auto
  note prems = Cons.prems [unfolded eq]
  from prems obtain q where q: "f = p" "p \<noteq> NULL" "v \<noteq> NULL" "heap s v = Some (Bytes x)"
    "heap s p = Some (WNode \<lparr>wn_address = b, wn_value = v, wn_next = q\<rparr>)"
    "chain wn_link (heap s) q ps" "wdata (heap s) ps vs ws"
    by (auto simp: wn.chain_Cons link_iffs simp del: chain.simps)
  have disj: "set (p # ps) \<inter> set (v # vs) = {}" using prems(2) by (rule wdata_disjoint)
  let ?s = "s\<lparr>heap := (heap s)(v := None, p := None)\<rparr>"
  have same: "heap ?s r = heap s r" if "r \<in> set ps \<union> set vs" for r
    using that prems(3,4) disj by auto
  have "write_set_cleanup q ?s = Some (?s\<lparr>heap := without (ps @ vs) (heap ?s)\<rparr>)"
  proof (rule Cons.IH)
    show "chain wn_link (heap ?s) q ps"
      using q(6) same by (subst wn.chain_cong [of ps _ "heap s"]) auto
    show "wdata (heap ?s) ps vs ws"
      using q(7) same by (subst wdata_cong [of ps vs _ "heap s"]) auto
  qed (use prems in auto)
  moreover have "without (ps @ vs) (heap ?s) = without ((p # ps) @ v # vs) (heap s)"
    by (auto simp: without_def)
  ultimately show ?case
    unfolding eq using q disj not_sym [of v p]
    by (subst write_set_cleanup.simps) (simp add: get_wnode_def free_def deref_def)
qed

lemma write_node_create_oom:
  "malloc 24 s = (NULL, s') \<Longrightarrow> write_node_create local_new_wnode a src sz s = None"
  by (simp add: write_node_create_def put_def deref_def)

lemma write_set_add_oom: "malloc 24 s = (NULL, s') \<Longrightarrow> write_set_add f l a src sz s = None"
  by (simp add: write_set_add_def write_set_add_first_def write_set_add_next_def write_node_create_oom)

end
