(* ===== verification/Transaction.thy ===== *)
theory Transaction
  imports Read_Set Write_Set
begin

text \<open>
  \<open>transaction.h\<close> and \<open>transaction.c\<close>: initialising and cleaning up the transaction object.
  \<open>txn\<close> is the abstract view of a transaction, its read set as a list and its write set as an
  association list; \<open>tx_rel\<close> relates it to the object, the nodes and the buffers in the heap,
  and the footprint of that relation is what a cleanup gives back.
\<close>

definition transaction_init :: "addr \<Rightarrow> bool \<Rightarrow> cstate \<Rightarrow> cstate option" where
  "transaction_init p ro s =
     (let (fr, lr) = read_set_init; (fw, lw) = write_set_init in
      \<comment> \<open>\<open>rv\<close> is set by the caller\<close>
      put p (Tx \<lparr>is_ro = ro, rv = 0, first_read_node = fr, last_read_node = lr,
                 first_write_node = fw, last_write_node = lw\<rparr>) s)"

definition transaction_cleanup :: "addr \<Rightarrow> cstate \<Rightarrow> cstate option" where
  "transaction_cleanup p s = do {
     t \<leftarrow> get_tx s p;
     s \<leftarrow> read_set_cleanup (first_read_node t) s;
     write_set_cleanup (first_write_node t) s
   }"

section \<open>The abstract transaction\<close>

record txn =
  t_ro :: bool
  t_rv :: cint
  t_rset :: "addr list"
  t_wset :: "(addr \<times> byte list) list"

text \<open>The pointers a transaction owns: read nodes, write nodes and value buffers.\<close>

record footprint =
  fp_r :: "addr list"
  fp_w :: "addr list"
  fp_v :: "addr list"

definition owned :: "footprint \<Rightarrow> addr list" where
  "owned fp = fp_r fp @ fp_w fp @ fp_v fp"

definition tx_rel :: "(addr \<Rightarrow> obj option) \<Rightarrow> addr \<Rightarrow> footprint \<Rightarrow> txn \<Rightarrow> bool" where
  "tx_rel h p fp T \<longleftrightarrow> p \<noteq> NULL \<and>
     (\<exists>t. h p = Some (Tx t) \<and> is_ro t = t_ro T \<and> rv t = t_rv T \<and>
        read_set_rel h (first_read_node t) (last_read_node t) (fp_r fp) (t_rset T) \<and>
        write_set_rel h (first_write_node t) (last_write_node t) (fp_w fp) (fp_v fp) (t_wset T))"

lemma tx_relE:
  assumes "tx_rel h p fp T"
  obtains t where "p \<noteq> NULL" and "h p = Some (Tx t)" and "is_ro t = t_ro T" and "rv t = t_rv T"
    and "read_set_rel h (first_read_node t) (last_read_node t) (fp_r fp) (t_rset T)"
    and "write_set_rel h (first_write_node t) (last_write_node t) (fp_w fp) (fp_v fp) (t_wset T)"
  using assms by (auto simp: tx_rel_def)

lemma tx_rel_owned:
  assumes "tx_rel h p fp T" and "q \<in> set (owned fp)"
  shows "q \<noteq> NULL \<and> q \<noteq> p \<and> h q \<noteq> None"
  using assms(1)
proof (rule tx_relE)
  fix t assume t: "h p = Some (Tx t)"
    "read_set_rel h (first_read_node t) (last_read_node t) (fp_r fp) (t_rset T)"
    "write_set_rel h (first_write_node t) (last_write_node t) (fp_w fp) (fp_v fp) (t_wset T)"
  show ?thesis
    using assms(2) t(1) read_set_rel_live [OF t(2), of q] write_set_rel_live [OF t(3), of q]
    by (auto simp: owned_def)
qed

lemma tx_rel_cong:
  assumes "h p = h' p" and "\<And>q. q \<in> set (owned fp) \<Longrightarrow> h q = h' q"
  shows "tx_rel h p fp T = tx_rel h' p fp T"
proof -
  have "read_set_rel h f l (fp_r fp) xs = read_set_rel h' f l (fp_r fp) xs" for f l xs
    using assms(2) by (intro read_set_rel_cong) (simp add: owned_def)
  moreover have "write_set_rel h f l (fp_w fp) (fp_v fp) ws = write_set_rel h' f l (fp_w fp) (fp_v fp) ws"
    for f l ws
    using assms(2) by (intro write_set_rel_cong) (auto simp: owned_def)
  ultimately show ?thesis by (simp add: tx_rel_def assms(1))
qed

lemma tx_rel_distinct:
  assumes "tx_rel h p fp T"
  shows "distinct (fp_r fp)" and "distinct (fp_w fp)" and "distinct (fp_v fp)"
    and "set (fp_r fp) \<inter> set (fp_w fp @ fp_v fp) = {}"
proof -
  from assms obtain t :: transaction where t:
    "read_set_rel h (first_read_node t) (last_read_node t) (fp_r fp) (t_rset T)"
    "write_set_rel h (first_write_node t) (last_write_node t) (fp_w fp) (fp_v fp) (t_wset T)"
    by (auto simp: tx_rel_def)
  show "distinct (fp_r fp)" using t(1) by (rule read_set_rel_distinct)
  show "distinct (fp_w fp)" "distinct (fp_v fp)"
    using t(2) by (auto simp: write_set_rel_def dest: wn.chain_distinct)
  have False if "q \<in> set (fp_r fp)" "q \<in> set (fp_w fp @ fp_v fp)" for q
    using read_set_rel_live [OF t(1) that(1)] write_set_rel_live [OF t(2), of q] that(2) by auto
  then show "set (fp_r fp) \<inter> set (fp_w fp @ fp_v fp) = {}" by blast
qed

text \<open>The cleanup frees exactly what the transaction owns.\<close>

lemma transaction_cleanup_frees:
  assumes "tx_rel (heap s) p fp T"
  shows "transaction_cleanup p s = Some (s\<lparr>heap := without (owned fp) (heap s)\<rparr>)"
proof -
  from assms obtain t :: transaction where t: "p \<noteq> NULL" "heap s p = Some (Tx t)"
    "read_set_rel (heap s) (first_read_node t) (last_read_node t) (fp_r fp) (t_rset T)"
    "write_set_rel (heap s) (first_write_node t) (last_write_node t) (fp_w fp) (fp_v fp) (t_wset T)"
    by (auto simp: tx_rel_def)
  let ?s = "s\<lparr>heap := without (fp_r fp) (heap s)\<rparr>"
  note d = tx_rel_distinct [OF assms]
  have "read_set_cleanup (first_read_node t) s = Some ?s"
    using t(3) d(1) by (intro read_set_cleanup_frees) (auto simp: read_set_rel_def)
  moreover have "write_set_rel (heap ?s) (first_write_node t) (last_write_node t) (fp_w fp) (fp_v fp) (t_wset T)"
    using t(4) d(4) by (subst write_set_rel_cong [of _ _ _ "heap s"]) (auto simp: without_def)
  then have "write_set_cleanup (first_write_node t) ?s =
      Some (?s\<lparr>heap := without (fp_w fp @ fp_v fp) (heap ?s)\<rparr>)"
    using d by (intro write_set_cleanup_frees) (auto simp: write_set_rel_def)
  ultimately show ?thesis
    using t(1,2)
    by (simp add: transaction_cleanup_def get_tx_def deref_def owned_def without_append)
qed

end
