(* ===== verification/Tm.thy ===== *)
theory Tm
  imports Shared_Lock Transaction
begin

text \<open>
  \<open>335740/tm.c\<close>, function by function, over the heap and the flat memory, executed by one
  thread without interference from others (the interleavings are in \<open>Concurrent\<close>). The
  \<open>struct region\<close> is passed and returned explicitly; every operation returns \<open>None\<close> where
  the code runs into undefined behaviour or does not return.
\<close>

unbundle bit_operations_syntax

record region =
  lock :: shared_lock_t
  start :: addr
  allocs :: addr
  region_size :: csize
  align :: csize

text \<open>\<open>alloc_t\<close> of \<open>tm.h\<close>, the invalid region and the invalid transaction.\<close>

datatype alloc_t = success_alloc | abort_alloc | nomem_alloc

definition invalid_tx :: addr where
  "invalid_tx = NOT 0"

definition invalid_shared :: addr where
  [simp]: "invalid_shared = NULL"

section \<open>The helper functions of the commit\<close>

partial_function (option) unlock_write_set ::
  "shared_lock_t \<Rightarrow> addr \<Rightarrow> addr \<Rightarrow> cstate \<Rightarrow> shared_lock_t option" where
  "unlock_write_set lk write_node_ptr next_to_lock s =
     (if write_node_ptr = next_to_lock then Some lk
      else do {
        n \<leftarrow> get_wnode s write_node_ptr;
        unlock_write_set (shared_lock_versioned_spinlock_release lk (wn_address n))
          (wn_next n) next_to_lock s
      })"

partial_function (option) lock_write_set_loop ::
  "addr \<Rightarrow> shared_lock_t \<Rightarrow> addr \<Rightarrow> cstate \<Rightarrow> (bool \<times> shared_lock_t) option" where
  "lock_write_set_loop begin_node lk write_node_ptr s =
     (if write_node_ptr = NULL then Some (True, lk)
      else do {
        n \<leftarrow> get_wnode s write_node_ptr;
        let (ok, lk) = shared_lock_versioned_spinlock_acquire alone lk (wn_address n);
        if \<not> ok then do {
          lk \<leftarrow> unlock_write_set lk begin_node write_node_ptr s;
          Some (False, lk)
        }
        else lock_write_set_loop begin_node lk (wn_next n) s
      })"

definition lock_write_set :: "shared_lock_t \<Rightarrow> addr \<Rightarrow> cstate \<Rightarrow> (bool \<times> shared_lock_t) option" where
  "lock_write_set lk write_node_ptr s = lock_write_set_loop write_node_ptr lk write_node_ptr s"

partial_function (option) validate_read_set ::
  "shared_lock_t \<Rightarrow> addr \<Rightarrow> cint \<Rightarrow> cstate \<Rightarrow> bool option" where
  "validate_read_set lk read_node_ptr v s =
     (if read_node_ptr = NULL then Some True
      else do {
        n \<leftarrow> get_rnode s read_node_ptr;
        if \<not> shared_lock_versioned_spinlock_validate lk (rn_address n) v then Some False
        else validate_read_set lk (rn_next n) v s
      })"

partial_function (option) store_write_set ::
  "shared_lock_t \<Rightarrow> addr \<Rightarrow> csize \<Rightarrow> cint \<Rightarrow> cstate \<Rightarrow> (shared_lock_t \<times> cstate) option" where
  "store_write_set lk write_node_ptr sz wv s =
     (if write_node_ptr = NULL then Some (lk, s)
      else do {
        n \<leftarrow> get_wnode s write_node_ptr;
        s \<leftarrow> memcpy_from_buffer (wn_address n) (wn_value n) (unat sz) s;
        let lk = shared_lock_versioned_spinlock_update lk (wn_address n) wv;
        let lk = shared_lock_versioned_spinlock_release lk (wn_address n);
        store_write_set lk (wn_next n) sz wv s
      })"

section \<open>Regions\<close>

text \<open>
  \<open>junk\<close> is what the lock table holds before it is initialised. The handle is NULL
  (\<open>invalid_shared\<close>) on failure.
\<close>

definition tm_create :: "shared_lock_t \<Rightarrow> csize \<Rightarrow> csize \<Rightarrow> cstate \<Rightarrow> (addr \<times> region option \<times> cstate) option" where
  "tm_create junk sz al s =
     (let (shared, s) = malloc 40072 s in
      if shared = NULL then Some (invalid_shared, None, s)
      else
        let (err, st, s) = posix_memalign al (unat sz) s in
        if err \<noteq> 0 then do {
          s \<leftarrow> free shared s;
          Some (invalid_shared, None, s)
        }
        else
          let lk = shared_lock_init junk;
              s = memset0 st sz s in
          Some (shared,
                Some \<lparr>lock = lk, start = st, allocs = NULL, region_size = sz, align = al\<rparr>, s))"

partial_function (option) free_segments :: "addr \<Rightarrow> cstate \<Rightarrow> cstate option" where
  "free_segments p s =
     (if p = NULL then Some s
      else do {
        n \<leftarrow> get_seg s p;
        s \<leftarrow> free p s;
        free_segments (sn_next n) s
      })"

definition tm_destroy :: "addr \<Rightarrow> region \<Rightarrow> cstate \<Rightarrow> cstate option" where
  "tm_destroy shared rg s = do {
     s \<leftarrow> free_segments (allocs rg) s;
     _ \<leftarrow> shared_lock_cleanup (lock rg);
     s \<leftarrow> free (start rg) s;
     free shared s
   }"

definition tm_start :: "region \<Rightarrow> addr" where
  "tm_start rg = start rg"

definition tm_size :: "region \<Rightarrow> csize" where
  "tm_size rg = region_size rg"

definition tm_align :: "region \<Rightarrow> csize" where
  "tm_align rg = align rg"

section \<open>Transactions\<close>

definition tm_begin :: "region \<Rightarrow> bool \<Rightarrow> cstate \<Rightarrow> (addr \<times> cstate) option" where
  "tm_begin rg ro s =
     (let (tx, s) = malloc 40 s in
      if tx = NULL then Some (invalid_tx, s)
      else do {
        s \<leftarrow> transaction_init tx ro s;
        t \<leftarrow> get_tx s tx;
        s \<leftarrow> put tx (Tx (t\<lparr>rv := shared_lock_global_clock_get (lock rg)\<rparr>)) s;
        Some (tx, s)
      })"

definition tm_abort :: "addr \<Rightarrow> cstate \<Rightarrow> cstate option" where
  "tm_abort tx s = do {
     s \<leftarrow> transaction_cleanup tx s;
     free tx s
   }"

definition tm_end :: "region \<Rightarrow> addr \<Rightarrow> cstate \<Rightarrow> (bool \<times> region \<times> cstate) option" where
  "tm_end rg tx s = do {
     t \<leftarrow> get_tx s tx;
     if is_ro t then do {
       s \<leftarrow> free tx s;
       Some (True, rg, s)
     }
     else do {
       (ok, lk) \<leftarrow> lock_write_set (lock rg) (first_write_node t) s;
       if \<not> ok then do {
         s \<leftarrow> tm_abort tx s;
         Some (False, rg\<lparr>lock := lk\<rparr>, s)
       }
       else do {
         let (wv, lk) = shared_lock_global_clock_increment_and_get lk;
         rv1 \<leftarrow> int_succ (rv t);
         valid \<leftarrow> (if wv \<noteq> rv1 then validate_read_set lk (first_read_node t) (rv t) s else Some True);
         if \<not> valid then do {
           lk \<leftarrow> unlock_write_set lk (first_write_node t) NULL s;
           s \<leftarrow> tm_abort tx s;
           Some (False, rg\<lparr>lock := lk\<rparr>, s)
         }
         else do {
           (lk, s) \<leftarrow> store_write_set lk (first_write_node t) (align rg) wv s;
           s \<leftarrow> transaction_cleanup tx s;
           s \<leftarrow> free tx s;
           Some (True, rg\<lparr>lock := lk\<rparr>, s)
         }
       }
     }
   }"

text \<open>One round of the loop of \<open>tm_read\<close>, up to the validation of the word.\<close>

definition tm_read_word :: "region \<Rightarrow> addr \<Rightarrow> addr \<Rightarrow> addr \<Rightarrow> cstate \<Rightarrow> (bool \<times> cstate) option" where
  "tm_read_word rg tx source_word target_word s = do {
     t \<leftarrow> get_tx s tx;
     (ok, s) \<leftarrow>
       (if is_ro t then Some (True, memcpy target_word source_word (unat (align rg)) s)
        else do {
          old_node \<leftarrow> write_node_find (first_write_node t) source_word s;
          if old_node = NULL then do {
            (ok, f, l, s) \<leftarrow> read_set_add (first_read_node t) (last_read_node t) source_word s;
            if \<not> ok then do {
              s \<leftarrow> tm_abort tx s;
              Some (False, s)
            }
            else do {
              s \<leftarrow> put tx (Tx (t\<lparr>first_read_node := f, last_read_node := l\<rparr>)) s;
              Some (True, memcpy target_word source_word (unat (align rg)) s)
            }
          }
          else do {
            n \<leftarrow> get_wnode s old_node;
            s \<leftarrow> memcpy_from_buffer target_word (wn_value n) (unat (align rg)) s;
            Some (True, s)
          }
        });
     if \<not> ok then Some (False, s)
     else if \<not> shared_lock_versioned_spinlock_validate (lock rg) source_word (rv t) then do {
       s \<leftarrow> tm_abort tx s;
       Some (False, s)
     }
     else Some (True, s)
   }"

partial_function (option) tm_read_loop ::
  "region \<Rightarrow> addr \<Rightarrow> addr \<Rightarrow> addr \<Rightarrow> csize \<Rightarrow> csize \<Rightarrow> cstate \<Rightarrow> (bool \<times> cstate) option" where
  "tm_read_loop rg tx source_word target_word num_bytes_read sz s = do {
     (ok, s) \<leftarrow> tm_read_word rg tx source_word target_word s;
     if \<not> ok then Some (False, s)
     else if num_bytes_read + align rg < sz
     then tm_read_loop rg tx (source_word + align rg) (target_word + align rg)
            (num_bytes_read + align rg) sz s
     else Some (True, s)
   }"

definition tm_read ::
  "region \<Rightarrow> addr \<Rightarrow> addr \<Rightarrow> csize \<Rightarrow> addr \<Rightarrow> cstate \<Rightarrow> (bool \<times> cstate) option" where
  "tm_read rg tx source sz target s = tm_read_loop rg tx source target 0 sz s"

definition tm_write_word :: "region \<Rightarrow> addr \<Rightarrow> addr \<Rightarrow> addr \<Rightarrow> cstate \<Rightarrow> (bool \<times> cstate) option" where
  "tm_write_word rg tx source_word target_word s = do {
     t \<leftarrow> get_tx s tx;
     old_node \<leftarrow> write_node_find (first_write_node t) target_word s;
     if old_node = NULL then do {
       (ok, f, l, s) \<leftarrow> write_set_add (first_write_node t) (last_write_node t) target_word source_word (align rg) s;
       if \<not> ok then do {
         s \<leftarrow> tm_abort tx s;
         Some (False, s)
       }
       else do {
         s \<leftarrow> put tx (Tx (t\<lparr>first_write_node := f, last_write_node := l\<rparr>)) s;
         Some (True, s)
       }
     }
     else do {
       s \<leftarrow> write_node_overwrite old_node source_word (align rg) s;
       Some (True, s)
     }
   }"

partial_function (option) tm_write_loop ::
  "region \<Rightarrow> addr \<Rightarrow> addr \<Rightarrow> addr \<Rightarrow> csize \<Rightarrow> csize \<Rightarrow> cstate \<Rightarrow> (bool \<times> cstate) option" where
  "tm_write_loop rg tx source_word target_word num_bytes_read sz s = do {
     (ok, s) \<leftarrow> tm_write_word rg tx source_word target_word s;
     if \<not> ok then Some (False, s)
     else if num_bytes_read + align rg < sz
     then tm_write_loop rg tx (source_word + align rg) (target_word + align rg)
            (num_bytes_read + align rg) sz s
     else Some (True, s)
   }"

definition tm_write ::
  "region \<Rightarrow> addr \<Rightarrow> addr \<Rightarrow> csize \<Rightarrow> addr \<Rightarrow> cstate \<Rightarrow> (bool \<times> cstate) option" where
  "tm_write rg tx source sz target s = tm_write_loop rg tx source target 0 sz s"

section \<open>Segments\<close>

text \<open>The segment starts behind the 16 bytes of its \<open>struct segment_node\<close>.\<close>

definition tm_alloc ::
  "region \<Rightarrow> addr \<Rightarrow> csize \<Rightarrow> cstate \<Rightarrow> (alloc_t \<times> addr option \<times> region \<times> cstate) option" where
  "tm_alloc rg tx sz s =
     (let al = (if align rg < 8 then 8 else align rg);
          (err, sn, s) = posix_memalign al (unat (16 + sz)) s in
      if err \<noteq> 0 then Some (nomem_alloc, None, rg, s)
      else do {
        s \<leftarrow> put sn (Seg \<lparr>sn_prev = NULL, sn_next = NULL\<rparr>) s;
        lk \<leftarrow> shared_lock_segment_lock_acquire (lock rg);
        s \<leftarrow> put sn (Seg \<lparr>sn_prev = NULL, sn_next = allocs rg\<rparr>) s;
        s \<leftarrow> (if allocs rg \<noteq> NULL then do {
                 n \<leftarrow> get_seg s (allocs rg);
                 put (allocs rg) (Seg (n\<lparr>sn_prev := sn\<rparr>)) s
               }
               else Some s);
        lk \<leftarrow> shared_lock_segment_lock_release lk;
        let segment = sn + 16;
        let s = memset0 segment sz s;
        Some (success_alloc, Some segment, rg\<lparr>lock := lk, allocs := sn\<rparr>, s)
      })"

definition tm_free :: "region \<Rightarrow> addr \<Rightarrow> addr \<Rightarrow> bool" where
  "tm_free rg tx segment = True"

end
