(* ===== verification/Tm_Spec.thy ===== *)
theory Tm_Spec
  imports Tm
begin

text \<open>
  The abstract specification of one TL2 operation executed without interference, over
  \<open>txn\<close> values: no heap, read sets as lists, write sets as association lists. The lemmas put
  the commit in closed form: when the locks can be taken, what a failed attempt leaves behind,
  and the lock table and memory after a commit. \<open>Tm_Refine\<close> proves that the C functions
  implement these.
\<close>

type_synonym wset = "(addr \<times> byte list) list"

abbreviation stripes :: "wset \<Rightarrow> nat list" where
  "stripes ws \<equiv> map (\<lambda>w. find_lock (fst w)) ws"

section \<open>The specification\<close>

definition sp_unlock :: "shared_lock_t \<Rightarrow> wset \<Rightarrow> shared_lock_t" where
  "sp_unlock lk ws = foldl (\<lambda>lk w. shared_lock_versioned_spinlock_release lk (fst w)) lk ws"

fun sp_lock :: "shared_lock_t \<Rightarrow> wset \<Rightarrow> wset \<Rightarrow> bool \<times> shared_lock_t" where
  "sp_lock lk got [] = (True, lk)"
| "sp_lock lk got (w # ws) =
     (let (ok, lk') = shared_lock_versioned_spinlock_acquire alone lk (fst w) in
      if ok then sp_lock lk' (got @ [w]) ws else (False, sp_unlock lk' got))"

definition sp_validate :: "shared_lock_t \<Rightarrow> addr list \<Rightarrow> cint \<Rightarrow> bool" where
  "sp_validate lk rs v = list_all (\<lambda>a. shared_lock_versioned_spinlock_validate lk a v) rs"

definition store_words :: "(addr \<Rightarrow> byte) \<Rightarrow> wset \<Rightarrow> (addr \<Rightarrow> byte)" where
  "store_words m ws = foldl (\<lambda>m w. store m (fst w) (snd w)) m ws"

definition sp_publish :: "shared_lock_t \<Rightarrow> wset \<Rightarrow> cint \<Rightarrow> shared_lock_t" where
  "sp_publish lk ws wv = foldl (\<lambda>lk w. shared_lock_versioned_spinlock_release
     (shared_lock_versioned_spinlock_update lk (fst w) wv) (fst w)) lk ws"

definition sp_begin :: "shared_lock_t \<Rightarrow> bool \<Rightarrow> txn" where
  "sp_begin lk ro = \<lparr>t_ro = ro, t_rv = clock lk, t_rset = [], t_wset = []\<rparr>"

definition sp_end ::
  "shared_lock_t \<Rightarrow> (addr \<Rightarrow> byte) \<Rightarrow> txn \<Rightarrow> (bool \<times> shared_lock_t \<times> (addr \<Rightarrow> byte)) option" where
  "sp_end lk m T =
     (if t_ro T then Some (True, lk, m)
      else case sp_lock lk [] (t_wset T) of
        (False, lk) \<Rightarrow> Some (False, lk, m)
      | (True, lk) \<Rightarrow>
          (let (wv, lk) = shared_lock_global_clock_increment_and_get lk in
           case int_succ (t_rv T) of
             None \<Rightarrow> None
           | Some rv1 \<Rightarrow>
               if wv \<noteq> rv1 \<and> \<not> sp_validate lk (t_rset T) (t_rv T)
               then Some (False, sp_unlock lk (t_wset T), m)
               else Some (True, sp_publish lk (t_wset T) wv, store_words m (t_wset T))))"

text \<open>What the read of one word yields, whether it validates, and the transaction after it.\<close>

definition sp_value :: "nat \<Rightarrow> (addr \<Rightarrow> byte) \<Rightarrow> txn \<Rightarrow> addr \<Rightarrow> byte list" where
  "sp_value al m T a =
     (if t_ro T then load m a al
      else case map_of (t_wset T) a of Some v \<Rightarrow> v | None \<Rightarrow> load m a al)"

definition sp_note_read :: "txn \<Rightarrow> addr \<Rightarrow> txn" where
  "sp_note_read T a =
     (if t_ro T \<or> map_of (t_wset T) a \<noteq> None then T else T\<lparr>t_rset := t_rset T @ [a]\<rparr>)"

definition sp_read_ok :: "shared_lock_t \<Rightarrow> txn \<Rightarrow> addr \<Rightarrow> bool" where
  "sp_read_ok lk T a = shared_lock_versioned_spinlock_validate lk a (t_rv T)"

definition sp_write :: "txn \<Rightarrow> addr \<Rightarrow> byte list \<Rightarrow> txn" where
  "sp_write T a v = T\<lparr>t_wset := AList.update a v (t_wset T)\<rparr>"

section \<open>Locking in closed form\<close>

definition lock_stripes :: "shared_lock_t \<Rightarrow> wset \<Rightarrow> shared_lock_t" where
  "lock_stripes lk ws = foldl (\<lambda>lk w. on_lock (\<lambda>l. l\<lparr>vlock := True\<rparr>) lk (fst w)) lk ws"

definition lockable :: "shared_lock_t \<Rightarrow> wset \<Rightarrow> bool" where
  "lockable lk ws \<longleftrightarrow> distinct (stripes ws) \<and> (\<forall>w \<in> set ws. \<not> held lk (fst w))"

lemma lock_eqI:
  "clock a = clock b \<Longrightarrow> segment_lock a = segment_lock b \<Longrightarrow> (\<And>i. locks a i = locks b i) \<Longrightarrow> a = (b :: shared_lock_t)"
  by (cases a; cases b) auto

lemma lock_stripes_sel:
  "clock (lock_stripes lk ws) = clock lk"
  "segment_lock (lock_stripes lk ws) = segment_lock lk"
  "locks (lock_stripes lk ws) i =
     (if i \<in> set (stripes ws) then (locks lk i)\<lparr>vlock := True\<rparr> else locks lk i)"
  by (induction ws rule: rev_induct) (auto simp: lock_stripes_def)

lemma sp_unlock_sel:
  "clock (sp_unlock lk ws) = clock lk"
  "segment_lock (sp_unlock lk ws) = segment_lock lk"
  "locks (sp_unlock lk ws) i =
     (if i \<in> set (stripes ws) then (locks lk i)\<lparr>vlock := False\<rparr> else locks lk i)"
  by (induction ws rule: rev_induct)
    (auto simp: sp_unlock_def shared_lock_versioned_spinlock_release_def versioned_spinlock_release_def)

lemma sp_publish_sel:
  "clock (sp_publish lk ws wv) = clock lk"
  "segment_lock (sp_publish lk ws wv) = segment_lock lk"
  "locks (sp_publish lk ws wv) i =
     (if i \<in> set (stripes ws) then (locks lk i)\<lparr>vlock := False, version := wv\<rparr> else locks lk i)"
  by (induction ws rule: rev_induct)
    (auto simp: sp_publish_def shared_lock_versioned_spinlock_release_def versioned_spinlock_release_def
      shared_lock_versioned_spinlock_update_def versioned_spinlock_update_def)

lemmas lock_sels = lock_stripes_sel sp_unlock_sel sp_publish_sel

lemma held_lock_stripes:
  "held (lock_stripes lk ws) a \<longleftrightarrow> find_lock a \<in> set (stripes ws) \<or> held lk a"
  by (auto simp: held_def lock_sels)

lemma ver_lock_stripes: "ver (lock_stripes lk ws) a = ver lk a"
  by (simp add: ver_def lock_sels)

lemma restore_bit: "\<not> vlock l \<Longrightarrow> l\<lparr>vlock := True\<rparr>\<lparr>vlock := False\<rparr> = l"
  by simp

lemma unlock_lock_stripes:
  assumes "\<forall>w \<in> set ws. \<not> held lk (fst w)"
  shows "sp_unlock (lock_stripes lk ws) ws = lk"
proof (rule lock_eqI)
  fix i show "locks (sp_unlock (lock_stripes lk ws) ws) i = locks lk i"
    using assms by (auto simp: lock_sels held_def)
qed (simp_all add: lock_sels)

text \<open>
  Acquiring the write set succeeds exactly when no two of its words share a lock and all of its
  locks are free; otherwise the lock table is left as it was.
\<close>

lemma sp_lock_from:
  assumes "distinct (stripes got)" and "\<forall>w \<in> set got. \<not> held lk (fst w)"
  shows "sp_lock (lock_stripes lk got) got ws =
     (if lockable lk (got @ ws) then (True, lock_stripes lk (got @ ws)) else (False, lk))"
  using assms
proof (induction ws arbitrary: got)
  case Nil
  then show ?case by (simp add: lockable_def)
next
  case (Cons w ws)
  let ?lk = "lock_stripes lk got"
  show ?case
  proof (cases "held ?lk (fst w)")
    case True
    then have "\<not> lockable lk (got @ w # ws)"
      by (auto simp: lockable_def held_lock_stripes)
    with True Cons.prems show ?thesis by (simp add: acquire_busy unlock_lock_stripes)
  next
    case False
    then have free: "\<not> held lk (fst w)" "find_lock (fst w) \<notin> set (stripes got)"
      by (auto simp: held_lock_stripes)
    have "sp_lock (lock_stripes lk (got @ [w])) (got @ [w]) ws =
       (if lockable lk ((got @ [w]) @ ws) then (True, lock_stripes lk ((got @ [w]) @ ws)) else (False, lk))"
      using Cons.prems free by (intro Cons.IH) auto
    with False show ?thesis by (simp add: acquire_simps lock_stripes_def)
  qed
qed

lemma sp_lock_closed:
  "sp_lock lk [] ws = (if lockable lk ws then (True, lock_stripes lk ws) else (False, lk))"
  using sp_lock_from [of "[]" lk ws] by (simp add: lock_stripes_def)

text \<open>A write set with more words than there are locks can never be locked.\<close>

lemma lockable_length: "lockable lk ws \<Longrightarrow> length ws \<le> NUM_LOCKS"
proof -
  assume "lockable lk ws"
  then have "card (set (stripes ws)) = length ws"
    using distinct_card [of "stripes ws"] by (simp add: lockable_def)
  moreover have "set (stripes ws) \<subseteq> {..<NUM_LOCKS}" by auto
  then have "card (set (stripes ws)) \<le> card {..<NUM_LOCKS}" by (rule card_mono [rotated]) simp
  ultimately show ?thesis by simp
qed

section \<open>The commit in closed form\<close>

text \<open>The read set is still valid while the transaction holds its own locks.\<close>

definition reads_valid :: "shared_lock_t \<Rightarrow> txn \<Rightarrow> bool" where
  "reads_valid lk T \<longleftrightarrow> (\<forall>a \<in> set (t_rset T).
     \<not> held lk a \<and> find_lock a \<notin> set (stripes (t_wset T)) \<and> \<not> int_gt (ver lk a) (t_rv T))"

lemma sp_end_closed:
  "sp_end lk m T =
     (if t_ro T then Some (True, lk, m)
      else if \<not> lockable lk (t_wset T) then Some (False, lk, m)
      else if t_rv T = INT_MAX then None
      else if clock lk \<noteq> t_rv T \<and> \<not> reads_valid lk T then Some (False, lk\<lparr>clock := clock lk + 1\<rparr>, m)
      else Some (True, sp_publish ((lock_stripes lk (t_wset T))\<lparr>clock := clock lk + 1\<rparr>) (t_wset T) (clock lk + 1),
                 store_words m (t_wset T)))"
proof -
  let ?lk = "(lock_stripes lk (t_wset T))\<lparr>clock := clock lk + 1\<rparr>"
  have "sp_validate ?lk (t_rset T) (t_rv T) = reads_valid lk T"
    by (auto simp: sp_validate_def reads_valid_def list_all_iff validate_iff held_lock_stripes
        ver_lock_stripes)
  moreover have "sp_unlock ?lk (t_wset T) = lk\<lparr>clock := clock lk + 1\<rparr>" if "lockable lk (t_wset T)"
  proof (rule lock_eqI)
    fix i show "locks (sp_unlock ?lk (t_wset T)) i = locks (lk\<lparr>clock := clock lk + 1\<rparr>) i"
      using that by (auto simp: lock_sels lockable_def held_def)
  qed (simp_all add: lock_sels)
  ultimately show ?thesis
    by (auto simp: sp_end_def sp_lock_closed shared_lock_global_clock_increment_and_get_def
        int_succ_def lock_sels)
qed

section \<open>Reads and writes of several words\<close>

text \<open>The number of rounds of the \<open>do .. while\<close> loops: whole words, and one at least.\<close>

definition rounds :: "nat \<Rightarrow> nat \<Rightarrow> nat" where
  "rounds al n = max 1 ((n + al - 1) div al)"

lemma rounds_continue: "0 < al \<Longrightarrow> Suc i * al < n \<longleftrightarrow> Suc i < rounds al n"
proof -
  assume al: "0 < al"
  have "Suc i < (n + al - 1) div al \<longleftrightarrow> Suc (Suc i) * al \<le> n + al - 1"
    using al by (simp only: Suc_le_eq [symmetric] less_eq_div_iff_mult_less_eq)
  also have "\<dots> \<longleftrightarrow> Suc i * al < n" using al by auto
  finally show ?thesis by (auto simp: rounds_def)
qed

lemma rounds_multiple: "0 < al \<Longrightarrow> 0 < k \<Longrightarrow> rounds al (k * al) = k"
proof -
  assume "0 < al" "0 < k"
  then have "(k * al + al - 1) div al = ((al - 1) + k * al) div al" by (simp add: add.commute)
  also have "\<dots> = k" using \<open>0 < al\<close> by (subst div_mult_self1) simp_all
  finally show ?thesis using \<open>0 < k\<close> by (simp add: rounds_def)
qed

fun sp_read_loop ::
  "nat \<Rightarrow> shared_lock_t \<Rightarrow> (addr \<Rightarrow> byte) \<Rightarrow> txn \<Rightarrow> addr \<Rightarrow> addr \<Rightarrow> nat \<Rightarrow> bool \<times> (addr \<Rightarrow> byte) \<times> txn" where
  "sp_read_loop al lk m T src tgt 0 = (True, m, T)"
| "sp_read_loop al lk m T src tgt (Suc k) =
     (let m' = store m tgt (sp_value al m T src); T' = sp_note_read T src in
      if \<not> sp_read_ok lk T src then (False, m', T')
      else sp_read_loop al lk m' T' (src + word_of_nat al) (tgt + word_of_nat al) k)"

fun sp_write_loop :: "nat \<Rightarrow> (addr \<Rightarrow> byte) \<Rightarrow> txn \<Rightarrow> addr \<Rightarrow> addr \<Rightarrow> nat \<Rightarrow> txn" where
  "sp_write_loop al m T src tgt 0 = T"
| "sp_write_loop al m T src tgt (Suc k) =
     sp_write_loop al m (sp_write T tgt (load m src al)) (src + word_of_nat al) (tgt + word_of_nat al) k"

lemma note_read_sel [simp]:
  "t_ro (sp_note_read T a) = t_ro T" "t_rv (sp_note_read T a) = t_rv T"
  "t_wset (sp_note_read T a) = t_wset T"
  by (simp_all add: sp_note_read_def)

lemma write_sel [simp]:
  "t_ro (sp_write T a v) = t_ro T" "t_rv (sp_write T a v) = t_rv T"
  "t_rset (sp_write T a v) = t_rset T"
  by (simp_all add: sp_write_def)

lemma sp_value_note [simp]: "sp_value al m (sp_note_read T b) a = sp_value al m T a"
  by (simp add: sp_value_def)

lemma sp_read_ok_note [simp]: "sp_read_ok lk (sp_note_read T b) a = sp_read_ok lk T a"
  by (simp add: sp_read_ok_def)

text \<open>The words written are looked up by the later reads of the transaction.\<close>

lemma sp_value_write:
  "\<not> t_ro T \<Longrightarrow> sp_value al m (sp_write T a v) b = (if b = a then v else sp_value al m T b)"
  by (simp add: sp_value_def sp_write_def update_conv')

end
