(* ===== verification/Tm_Refine.thy ===== *)
theory Tm_Refine
  imports Tm_Spec
begin

text \<open>
  The C functions of \<open>Tm\<close> implement the specification of \<open>Tm_Spec\<close>: for a transaction object
  whose lists in the heap represent the abstract transaction, each operation returns what the
  specification says, and its effect on the heap is exactly the nodes it adds or the nodes and
  buffers it gives back.
\<close>

section \<open>The loops of the commit\<close>

definition wn_addr :: "(addr \<Rightarrow> obj option) \<Rightarrow> addr \<Rightarrow> addr" where
  "wn_addr h p = (case h p of Some (WNode n) \<Rightarrow> wn_address n | _ \<Rightarrow> NULL)"

lemma wdata_addrs: "wdata h ps vs ws \<Longrightarrow> map (wn_addr h) ps = map fst ws"
  by (induction h ps vs ws rule: wdata.induct) (auto simp: wn_addr_def)

lemma chain_wnode:
  assumes "chain wn_link h p (q # qs)"
  obtains n where "p = q" and "q \<noteq> NULL" and "h q = Some (WNode n)" and "chain wn_link h (wn_next n) qs"
    and "wn_addr h q = wn_address n"
  using assms by (auto simp: wn.chain_Cons link_iffs wn_addr_def simp del: chain.simps)

lemma chain_rnode:
  assumes "chain rn_link h p (q # qs)"
  obtains n where "p = q" and "q \<noteq> NULL" and "h q = Some (RNode n)" and "chain rn_link h (rn_next n) qs"
    and "rn_addr h q = rn_address n"
  using assms by (auto simp: rn.chain_Cons link_iffs rn_addr_def simp del: chain.simps)

lemma chain_head: "chain nx h p ps \<Longrightarrow> p = (case ps of [] \<Rightarrow> NULL | q # _ \<Rightarrow> q)"
  by (cases ps) auto

lemma unlock_write_set_refines:
  assumes "chain wn_link (heap s) f (ps @ qs)" and "map (wn_addr (heap s)) ps = map fst ws"
  shows "unlock_write_set lk f (case qs of [] \<Rightarrow> NULL | q # _ \<Rightarrow> q) s = Some (sp_unlock lk ws)"
  using assms
proof (induction ps arbitrary: f lk ws)
  case Nil
  then have "f = (case qs of [] \<Rightarrow> NULL | q # _ \<Rightarrow> q)" using chain_head by force
  with Nil show ?case by (subst unlock_write_set.simps) (simp add: sp_unlock_def)
next
  case (Cons p ps)
  then obtain w ws' where ws: "ws = w # ws'" by (cases ws) auto
  obtain n where n: "f = p" "p \<noteq> NULL" "heap s p = Some (WNode n)"
    "chain wn_link (heap s) (wn_next n) (ps @ qs)" "wn_addr (heap s) p = wn_address n"
    using Cons.prems(1) unfolding append_Cons by (rule chain_wnode)
  have "distinct (p # ps @ qs)" using wn.chain_distinct Cons.prems(1) by fastforce
  then have "f \<noteq> (case qs of [] \<Rightarrow> NULL | q # _ \<Rightarrow> q)" using n by (cases qs) auto
  then show ?case
    using n Cons.IH [OF n(4)] Cons.prems(2) ws
    by (subst unlock_write_set.simps) (simp add: get_wnode_def deref_def sp_unlock_def)
qed

lemma lock_write_set_loop_refines:
  assumes "chain wn_link (heap s) b (ps @ qs)" and "chain wn_link (heap s) f qs"
    and "map (wn_addr (heap s)) ps = map fst got" and "map (wn_addr (heap s)) qs = map fst ws"
  shows "lock_write_set_loop b lk f s = Some (sp_lock lk got ws)"
  using assms
proof (induction qs arbitrary: ps f lk got ws)
  case Nil
  then show ?case by (subst lock_write_set_loop.simps) simp
next
  case (Cons q qs)
  then obtain w ws' where ws: "ws = w # ws'" by (cases ws) auto
  obtain n where n: "f = q" "q \<noteq> NULL" "heap s q = Some (WNode n)"
    "chain wn_link (heap s) (wn_next n) qs" "wn_addr (heap s) q = wn_address n"
    using Cons.prems(2) by (rule chain_wnode)
  have w: "wn_address n = fst w" using n(5) Cons.prems(4) ws by simp
  obtain ok lk' where acq: "shared_lock_versioned_spinlock_acquire alone lk (fst w) = (ok, lk')"
    by (cases "shared_lock_versioned_spinlock_acquire alone lk (fst w)")
  have unl: "unlock_write_set lk' b q s = Some (sp_unlock lk' got)"
    using unlock_write_set_refines [OF Cons.prems(1,3)] by simp
  have rest: "lock_write_set_loop b lk' (wn_next n) s = Some (sp_lock lk' (got @ [w]) ws')"
    using Cons.prems n ws w by (intro Cons.IH [of "ps @ [q]"]) auto
  show ?case
    using n w acq unl rest ws
    by (subst lock_write_set_loop.simps) (simp add: get_wnode_def deref_def)
qed

lemma lock_write_set_refines:
  "chain wn_link (heap s) f ps \<Longrightarrow> wdata (heap s) ps vs ws \<Longrightarrow>
     lock_write_set lk f s = Some (sp_lock lk [] ws)"
  using lock_write_set_loop_refines [of s f "[]" ps f "[]" ws lk] wdata_addrs
  by (simp add: lock_write_set_def)

lemma unlock_all_refines:
  "chain wn_link (heap s) f ps \<Longrightarrow> wdata (heap s) ps vs ws \<Longrightarrow>
     unlock_write_set lk f NULL s = Some (sp_unlock lk ws)"
  using unlock_write_set_refines [of s f ps "[]" ws lk] wdata_addrs by simp

lemma validate_read_set_refines:
  "chain rn_link (heap s) f ps \<Longrightarrow>
     validate_read_set lk f v s = Some (sp_validate lk (map (rn_addr (heap s)) ps) v)"
proof (induction ps arbitrary: f)
  case Nil
  then show ?case by (subst validate_read_set.simps) (simp add: sp_validate_def)
next
  case (Cons p ps)
  obtain n where n: "f = p" "p \<noteq> NULL" "heap s p = Some (RNode n)"
    "chain rn_link (heap s) (rn_next n) ps" "rn_addr (heap s) p = rn_address n"
    using Cons.prems by (rule chain_rnode)
  show ?case
    using n Cons.IH [OF n(4)]
    by (subst validate_read_set.simps) (simp add: get_rnode_def deref_def sp_validate_def)
qed

lemma store_write_set_refines:
  assumes "chain wn_link (heap s) f ps" and "wdata (heap s) ps vs ws"
    and "\<And>w. w \<in> set ws \<Longrightarrow> length (snd w) = unat sz"
  shows "store_write_set lk f sz wv s =
     Some (sp_publish lk ws wv, s\<lparr>mem := store_words (mem s) ws\<rparr>)"
  using assms
proof (induction ps arbitrary: f lk s vs ws)
  case Nil
  then show ?case
    by (cases vs; cases ws) (subst store_write_set.simps, simp add: sp_publish_def store_words_def)+
next
  case (Cons p ps f lk s vs0 ws0)
  then obtain v vs b x ws where eq: "vs0 = v # vs" "ws0 = (b, x) # ws"
    using wdata_lengths [of "heap s" "p # ps" vs0 ws0] by (cases vs0; cases ws0) auto
  note prems = Cons.prems [unfolded eq]
  obtain n where n: "f = p" "p \<noteq> NULL" "heap s p = Some (WNode n)" "chain wn_link (heap s) (wn_next n) ps"
    using prems(1) by (rule chain_wnode)
  have v: "wn_address n = b" "wn_value n = v" "v \<noteq> NULL" "heap s v = Some (Bytes x)"
    "wdata (heap s) ps vs ws" "length x = unat sz"
    using prems(2) n(3) prems(3) [of "(b, x)"] by auto
  let ?s = "s\<lparr>mem := store (mem s) b x\<rparr>"
  let ?lk = "shared_lock_versioned_spinlock_release (shared_lock_versioned_spinlock_update lk b wv) b"
  have copy: "memcpy_from_buffer b v (unat sz) s = Some ?s"
    using v by (simp add: memcpy_from_buffer_def get_bytes_def deref_def)
  have "store_write_set ?lk (wn_next n) sz wv ?s =
      Some (sp_publish ?lk ws wv, ?s\<lparr>mem := store_words (mem ?s) ws\<rparr>)"
    using n(4) v(5) prems(3) by (intro Cons.IH) auto
  then show ?case
    using n v copy unfolding eq
    by (subst store_write_set.simps) (simp add: get_wnode_def deref_def sp_publish_def store_words_def Let_def)
qed

section \<open>Ending a transaction\<close>

text \<open>The values in the write set have the size of a word.\<close>

definition word_sized :: "nat \<Rightarrow> wset \<Rightarrow> bool" where
  "word_sized al ws \<longleftrightarrow> (\<forall>w \<in> set ws. length (snd w) = al)"

text \<open>All a transaction holds on the heap; a read-only one frees its object alone.\<close>

definition holdings :: "addr \<Rightarrow> footprint \<Rightarrow> addr list" where
  "holdings tx fp = owned fp @ [tx]"

lemma tm_abort_frees:
  assumes "tx_rel (heap s) tx fp T"
  shows "tm_abort tx s = Some (s\<lparr>heap := without (holdings tx fp) (heap s)\<rparr>)"
proof -
  have "tx \<notin> set (owned fp)" using tx_rel_owned [OF assms] by blast
  then have "without (owned fp) (heap s) tx = heap s tx" by (simp add: without_def)
  moreover have "tx \<noteq> NULL" "heap s tx \<noteq> None" using assms by (auto simp: tx_rel_def)
  ultimately show ?thesis
    using transaction_cleanup_frees [OF assms]
    by (simp add: tm_abort_def free_def holdings_def without_append without_Cons)
qed

lemma tx_rel_mem: "tx_rel (heap (s\<lparr>mem := m\<rparr>)) tx fp T = tx_rel (heap s) tx fp T"
  by simp

lemma tm_end_impl:
  assumes rel: "tx_rel (heap s) tx fp T" and size: "word_sized (unat (align rg)) (t_wset T)"
  shows "tm_end rg tx s =
     (case sp_end (lock rg) (mem s) T of
        None \<Rightarrow> None
      | Some (ok, lk, m) \<Rightarrow>
          Some (ok, rg\<lparr>lock := lk\<rparr>,
                s\<lparr>mem := m, heap := without (if t_ro T then [tx] else holdings tx fp) (heap s)\<rparr>))"
proof -
  from rel obtain t :: transaction where t: "tx \<noteq> NULL" "heap s tx = Some (Tx t)" "is_ro t = t_ro T" "rv t = t_rv T"
    "read_set_rel (heap s) (first_read_node t) (last_read_node t) (fp_r fp) (t_rset T)"
    "write_set_rel (heap s) (first_write_node t) (last_write_node t) (fp_w fp) (fp_v fp) (t_wset T)"
    by (rule tx_relE)
  have get: "get_tx s tx = Some t" using t by (simp add: get_tx_def deref_def)
  show ?thesis
  proof (cases "t_ro T")
    case True
    then show ?thesis
      using get t by (simp add: tm_end_def sp_end_def free_def without_Cons)
  next
    case False
    have w: "chain wn_link (heap s) (first_write_node t) (fp_w fp)"
      "wdata (heap s) (fp_w fp) (fp_v fp) (t_wset T)"
      using t(6) by (auto simp: write_set_rel_def)
    have r: "chain rn_link (heap s) (first_read_node t) (fp_r fp)"
      "map (rn_addr (heap s)) (fp_r fp) = t_rset T"
      using t(5) by (auto simp: read_set_rel_def)
    have st: "store_write_set lk (first_write_node t) (align rg) wv s =
        Some (sp_publish lk (t_wset T) wv, s\<lparr>mem := store_words (mem s) (t_wset T)\<rparr>)" for lk wv
      using w size by (intro store_write_set_refines) (auto simp: word_sized_def)
    have ab: "tm_abort tx s' = Some (s'\<lparr>heap := without (holdings tx fp) (heap s)\<rparr>)"
      if "heap s' = heap s" for s'
      using tm_abort_frees [of s' tx fp T] rel that by simp
    have end': "do { s \<leftarrow> transaction_cleanup tx s'; s \<leftarrow> free tx s; Some (True, r, s) } =
        Option.bind (tm_abort tx s') (\<lambda>s. Some (True, r, s))" for s' and r :: region
      by (cases "transaction_cleanup tx s'") (auto simp: tm_abort_def)
    show ?thesis
      using False get t(3,4)
      by (simp add: tm_end_def end' lock_write_set_refines [OF w] validate_read_set_refines [OF r(1)]
          r(2) unlock_all_refines [OF w] st ab sp_end_def shared_lock_global_clock_increment_and_get_def
          Let_def split: prod.split bool.split option.split)
  qed
qed

section \<open>Beginning a transaction\<close>

abbreviation no_footprint :: footprint where
  "no_footprint \<equiv> \<lparr>fp_r = [], fp_w = [], fp_v = []\<rparr>"

lemma tm_begin_impl:
  assumes "can_alloc (Suc n) s"
  obtains tx s' where "tm_begin rg ro s = Some (tx, s')"
    and "tx_rel (heap s') tx no_footprint (sp_begin (lock rg) ro)"
    and "heap s tx = None" and "can_alloc n s'" and "mem s' = mem s"
    and "\<And>p. p \<noteq> tx \<Longrightarrow> heap s' p = heap s p"
proof -
  obtain tx as where tx: "answers s = tx # as" "tx \<noteq> NULL" "heap s tx = None"
    "\<And>m. malloc m s = (tx, s\<lparr>heap := (heap s)(tx := Some (Uninit m)), answers := as\<rparr>)"
    "\<And>ob. can_alloc n (s\<lparr>heap := (heap s)(tx := Some ob), answers := as\<rparr>)"
    using malloc_ok [OF assms] by metis
  let ?t = "\<lparr>is_ro = ro, rv = clock (lock rg), first_read_node = NULL, last_read_node = NULL,
             first_write_node = NULL, last_write_node = NULL\<rparr>"
  let ?s = "s\<lparr>heap := (heap s)(tx := Some (Tx ?t)), answers := as\<rparr>"
  show thesis
  proof (rule that)
    show "tm_begin rg ro s = Some (tx, ?s)"
      using tx by (simp add: tm_begin_def transaction_init_def read_set_init_def write_set_init_def
          put_def deref_def get_tx_def shared_lock_global_clock_get_def)
    show "tx_rel (heap ?s) tx no_footprint (sp_begin (lock rg) ro)"
      using tx(2) by (simp add: tx_rel_def sp_begin_def read_set_rel_def write_set_rel_def)
  qed (use tx in simp_all)
qed

section \<open>Reading\<close>

text \<open>The copying half of one round: what is in \<open>target\<close>, and the read set after it.\<close>

definition read_copy :: "region \<Rightarrow> addr \<Rightarrow> addr \<Rightarrow> addr \<Rightarrow> cstate \<Rightarrow> (bool \<times> cstate) option" where
  "read_copy rg tx source_word target_word s = do {
     t \<leftarrow> get_tx s tx;
     if is_ro t then Some (True, memcpy target_word source_word (unat (align rg)) s)
     else do {
       old_node \<leftarrow> write_node_find (first_write_node t) source_word s;
       if old_node = NULL then do {
         (ok, f, l, s) \<leftarrow> read_set_add (first_read_node t) (last_read_node t) source_word s;
         if \<not> ok then do {
           s \<leftarrow> tm_abort tx s;
           Some (False, s)
         }
         else do {
           s \<leftarrow> put tx (Tx (t\<lparr>first_read_node := f, last_read_node := l\<rparr>)) s;
           Some (True, memcpy target_word source_word (unat (align rg)) s)
         }
       }
       else do {
         n \<leftarrow> get_wnode s old_node;
         s \<leftarrow> memcpy_from_buffer target_word (wn_value n) (unat (align rg)) s;
         Some (True, s)
       }
     }
   }"

text \<open>What an operation may have done to the heap: only nodes of its own transaction.\<close>

definition tx_frame :: "(addr \<Rightarrow> obj option) \<Rightarrow> (addr \<Rightarrow> obj option) \<Rightarrow> addr \<Rightarrow> footprint \<Rightarrow> footprint \<Rightarrow> bool" where
  "tx_frame h h' tx fp fp' \<longleftrightarrow> set (owned fp) \<subseteq> set (owned fp') \<and>
     (\<forall>p \<in> set (owned fp') - set (owned fp). h p = None) \<and>
     (\<forall>p. p \<notin> set (holdings tx fp') \<longrightarrow> h' p = h p)"

lemma tx_frame_refl: "tx_frame h h tx fp fp"
  by (simp add: tx_frame_def)

lemma tx_frame_trans:
  "tx_frame h h' tx fp fp' \<Longrightarrow> tx_frame h' h'' tx fp' fp'' \<Longrightarrow> h' tx \<noteq> None \<Longrightarrow> tx_frame h h'' tx fp fp''"
  unfolding tx_frame_def holdings_def
proof (intro conjI ballI allI impI; elim conjE)
  fix p
  assume h1: "\<forall>p \<in> set (owned fp') - set (owned fp). h p = None"
    and h2: "\<forall>p. p \<notin> set (owned fp' @ [tx]) \<longrightarrow> h' p = h p" and live: "h' tx \<noteq> None"
    and h3: "\<forall>p \<in> set (owned fp'') - set (owned fp'). h' p = None"
    and p: "p \<in> set (owned fp'') - set (owned fp)"
  show "h p = None"
  proof (cases "p \<in> set (owned fp')")
    case True
    with h1 p show ?thesis by simp
  next
    case False
    with h3 p have "h' p = None" by simp
    with live False h2 show ?thesis by (cases "p = tx") auto
  qed
qed auto

lemma tx_frame_without:
  assumes "tx_frame h h' tx fp fp'"
  shows "without (holdings tx fp') h' = without (holdings tx fp) h"
proof
  fix p
  show "without (holdings tx fp') h' p = without (holdings tx fp) h p"
    using assms by (cases "p \<in> set (holdings tx fp)") (auto simp: tx_frame_def without_def holdings_def)
qed

lemma read_copy_impl:
  assumes rel: "tx_rel (heap s) tx fp T" and alloc: "can_alloc (Suc n) s"
    and size: "word_sized (unat (align rg)) (t_wset T)"
  obtains s' fp' where "read_copy rg tx src tgt s = Some (True, s')"
    and "tx_rel (heap s') tx fp' (sp_note_read T src)"
    and "mem s' = store (mem s) tgt (sp_value (unat (align rg)) (mem s) T src)"
    and "can_alloc n s'" and "tx_frame (heap s) (heap s') tx fp fp'"
proof -
  from rel obtain t :: transaction where t: "tx \<noteq> NULL" "heap s tx = Some (Tx t)" "is_ro t = t_ro T" "rv t = t_rv T"
    "read_set_rel (heap s) (first_read_node t) (last_read_node t) (fp_r fp) (t_rset T)"
    "write_set_rel (heap s) (first_write_node t) (last_write_node t) (fp_w fp) (fp_v fp) (t_wset T)"
    by (rule tx_relE)
  have get: "get_tx s tx = Some t" using t by (simp add: get_tx_def deref_def)
  have w: "chain wn_link (heap s) (first_write_node t) (fp_w fp)"
    "wdata (heap s) (fp_w fp) (fp_v fp) (t_wset T)"
    using t(6) by (auto simp: write_set_rel_def)
  note find = write_node_find_lookup [OF w, of src] and null = ptr_of_NULL [OF w(2,1), of src]
  have small: "can_alloc n s" using alloc by (rule can_alloc_mono) simp
  consider (ro) "t_ro T" | (hit) "\<not> t_ro T" "src \<in> fst ` set (t_wset T)"
    | (miss) "\<not> t_ro T" "src \<notin> fst ` set (t_wset T)" by blast
  then show thesis
  proof cases
    case ro
    show thesis
      by (rule that [of "memcpy tgt src (unat (align rg)) s" fp])
        (use ro get t rel small in \<open>simp_all add: read_copy_def memcpy_def sp_value_def sp_note_read_def
          tx_frame_refl\<close>)
  next
    case hit
    obtain v q b where n: "heap s (ptr_of (fp_w fp) (t_wset T) src) =
        Some (WNode \<lparr>wn_address = src, wn_value = v, wn_next = q\<rparr>)"
      and v: "v \<noteq> NULL" "heap s v = Some (Bytes b)" "map_of (t_wset T) src = Some b"
      using ptr_of_value [OF w(2) hit(2)] by metis
    have "length b = unat (align rg)"
      using size map_of_SomeD [OF v(3)] by (auto simp: word_sized_def)
    then show thesis
      using hit get t(3) find null n v rel small
      by (intro that [of "s\<lparr>mem := store (mem s) tgt b\<rparr>" fp])
        (simp_all add: read_copy_def sp_value_def sp_note_read_def tx_frame_refl
          get_wnode_def memcpy_from_buffer_def get_bytes_def deref_def)
  next
    case miss
    then have none: "map_of (t_wset T) src = None" by (simp add: map_of_eq_None_iff)
    obtain q f s1 where add: "read_set_add (first_read_node t) (last_read_node t) src s = Some (True, f, q, s1)"
      and rel1: "read_set_rel (heap s1) f q (fp_r fp @ [q]) (t_rset T @ [src])"
      and q: "q \<noteq> NULL" "heap s q = None" and alloc1: "can_alloc n s1" "mem s1 = mem s"
      and frame1: "\<And>p. p \<notin> set (fp_r fp) \<Longrightarrow> p \<noteq> q \<Longrightarrow> heap s1 p = heap s p"
      using read_set_add_appends [OF t(5) alloc] by metis
    let ?t = "t\<lparr>first_read_node := f, last_read_node := q\<rparr>"
    let ?s2 = "s1\<lparr>heap := (heap s1)(tx := Some (Tx ?t))\<rparr>"
    let ?fp = "fp\<lparr>fp_r := fp_r fp @ [q]\<rparr>"
    have tx: "tx \<notin> set (fp_r fp)" "tx \<notin> set (fp_w fp) \<union> set (fp_v fp)" "tx \<noteq> q"
      using tx_rel_owned [OF rel] t(2) q by (auto simp: owned_def)
    then have live: "heap s1 tx = Some (Tx t)" using frame1 t(2) by simp
    have qw: "q \<notin> set (fp_w fp) \<union> set (fp_v fp)"
      using tx_rel_owned [OF rel, of q] q(2) by (auto simp: owned_def)
    have "read_set_rel (heap ?s2) f q (fp_r ?fp) (t_rset T @ [src])"
      using rel1 tx by (subst read_set_rel_cong [of _ _ "heap s1"]) auto
    moreover have "write_set_rel (heap ?s2) (first_write_node t) (last_write_node t) (fp_w fp) (fp_v fp) (t_wset T)"
      using t(6) tx qw tx_rel_distinct(4) [OF rel] frame1
      by (subst write_set_rel_cong [of _ _ _ "heap s"]) auto
    ultimately have rel2: "tx_rel (heap ?s2) tx ?fp (sp_note_read T src)"
      using t none miss by (auto simp: tx_rel_def sp_note_read_def)
    have frame2: "tx_frame (heap s) (heap ?s2) tx fp ?fp"
      using frame1 q tx by (auto simp: tx_frame_def owned_def holdings_def)
    have alloc2: "can_alloc n ?s2" using alloc1(1) live by (simp add: can_alloc_heap_upd)
    show thesis
    proof (rule that)
      show "read_copy rg tx src tgt s = Some (True, memcpy tgt src (unat (align rg)) ?s2)"
        using miss get t(1,3) find null add live by (simp add: read_copy_def put_def deref_def)
    qed (use rel2 frame2 alloc2 alloc1 miss none in \<open>simp_all add: memcpy_def sp_value_def\<close>)
  qed
qed

lemma tm_read_word_copy:
  "tm_read_word rg tx src tgt s = do {
     t \<leftarrow> get_tx s tx;
     (ok, s) \<leftarrow> read_copy rg tx src tgt s;
     if \<not> ok then Some (False, s)
     else if \<not> shared_lock_versioned_spinlock_validate (lock rg) src (rv t) then do {
       s \<leftarrow> tm_abort tx s;
       Some (False, s)
     }
     else Some (True, s)
   }"
  by (cases "get_tx s tx") (simp_all add: tm_read_word_def read_copy_def)

lemma tm_read_word_impl:
  assumes rel: "tx_rel (heap s) tx fp T" and alloc: "can_alloc (Suc n) s"
    and size: "word_sized (unat (align rg)) (t_wset T)"
  obtains s' fp' where "tm_read_word rg tx src tgt s = Some (sp_read_ok (lock rg) T src, s')"
    and "mem s' = store (mem s) tgt (sp_value (unat (align rg)) (mem s) T src)"
    and "can_alloc n s'"
    and "sp_read_ok (lock rg) T src \<Longrightarrow>
           tx_rel (heap s') tx fp' (sp_note_read T src) \<and> tx_frame (heap s) (heap s') tx fp fp'"
    and "\<not> sp_read_ok (lock rg) T src \<Longrightarrow> heap s' = without (holdings tx fp) (heap s)"
proof -
  obtain s1 fp1 where copy: "read_copy rg tx src tgt s = Some (True, s1)"
    and rel1: "tx_rel (heap s1) tx fp1 (sp_note_read T src)"
    and mem1: "mem s1 = store (mem s) tgt (sp_value (unat (align rg)) (mem s) T src)"
    and alloc1: "can_alloc n s1" and frame1: "tx_frame (heap s) (heap s1) tx fp fp1"
    using read_copy_impl [OF rel alloc size] by metis
  from rel obtain t where t: "get_tx s tx = Some t" "rv t = t_rv T"
    by (auto simp: tx_rel_def get_tx_def deref_def)
  show thesis
  proof (cases "sp_read_ok (lock rg) T src")
    case True
    with t copy have "tm_read_word rg tx src tgt s = Some (True, s1)"
      by (simp add: tm_read_word_copy sp_read_ok_def)
    with True show thesis using that [of s1 fp1] mem1 alloc1 rel1 frame1 by simp
  next
    case False
    let ?s2 = "s1\<lparr>heap := without (holdings tx fp1) (heap s1)\<rparr>"
    have "tm_read_word rg tx src tgt s = Some (False, ?s2)"
      using False t copy tm_abort_frees [OF rel1] by (simp add: tm_read_word_copy sp_read_ok_def)
    moreover have "heap ?s2 = without (holdings tx fp) (heap s)"
      using tx_frame_without [OF frame1] by simp
    ultimately show thesis
      using False that [of ?s2 fp1] mem1 can_alloc_without [OF alloc1, of "holdings tx fp1"] by simp
  qed
qed

text \<open>
  The loop: as many rounds as whole words are needed to cover \<open>sz\<close> bytes, provided \<open>sz\<close> plus one
  word does not wrap around \<open>size_t\<close>.
\<close>

lemma loop_test:
  assumes "0 < al" and "unat sz + al < 2 ^ 64" and "unat a = al" and "i < rounds al (unat sz)"
  shows "word_of_nat (i * al) + a < sz \<longleftrightarrow> Suc i < rounds al (unat sz)"
    and "word_of_nat (i * al) + a = (word_of_nat (Suc i * al) :: csize)"
proof -
  have a: "a = word_of_nat al" unfolding assms(3) [symmetric] by simp
  show eq: "word_of_nat (i * al) + a = (word_of_nat (Suc i * al) :: csize)"
    unfolding a by (simp add: add.commute)
  have "i * al \<le> unat sz"
  proof (cases i)
    case (Suc j)
    then show ?thesis using assms(4) rounds_continue [OF assms(1), of j "unat sz"] by simp
  qed simp
  then have "Suc i * al < 2 ^ 64" using assms(2) by simp
  then show "word_of_nat (i * al) + a < sz \<longleftrightarrow> Suc i < rounds al (unat sz)"
    unfolding eq word_less_nat_alt
    by (simp only: unat_small rounds_continue [OF assms(1), symmetric])
qed

lemma tm_read_loop_impl:
  assumes al: "0 < unat (align rg)" and sz: "unat sz + unat (align rg) < 2 ^ 64"
    and "Suc i + k = rounds (unat (align rg)) (unat sz)"
    and "tx_rel (heap s) tx fp T" and "can_alloc (Suc k + n) s"
    and "word_sized (unat (align rg)) (t_wset T)"
    and "sp_read_loop (unat (align rg)) (lock rg) (mem s) T src tgt (Suc k) = (ok, m', T')"
  shows "\<exists>s' fp'. tm_read_loop rg tx src tgt (word_of_nat (i * unat (align rg))) sz s = Some (ok, s') \<and>
     mem s' = m' \<and> can_alloc n s' \<and>
     (if ok then tx_rel (heap s') tx fp' T' \<and> tx_frame (heap s) (heap s') tx fp fp'
      else heap s' = without (holdings tx fp) (heap s))"
  using assms(3-)
proof (induction k arbitrary: i s fp T src tgt)
  case 0
  have test: "\<not> word_of_nat (i * unat (align rg)) + align rg < sz"
    using loop_test(1) [OF al sz refl, of i] 0 by simp
  obtain s1 fp1 where step: "tm_read_word rg tx src tgt s = Some (sp_read_ok (lock rg) T src, s1)"
    "mem s1 = store (mem s) tgt (sp_value (unat (align rg)) (mem s) T src)" "can_alloc n s1"
    "sp_read_ok (lock rg) T src \<Longrightarrow>
           tx_rel (heap s1) tx fp1 (sp_note_read T src) \<and> tx_frame (heap s) (heap s1) tx fp fp1"
    "\<not> sp_read_ok (lock rg) T src \<Longrightarrow> heap s1 = without (holdings tx fp) (heap s)"
    using tm_read_word_impl [OF 0(2) _ 0(4)] 0(3) by (metis add_Suc add_0)
  then show ?case
    using 0(5) test
    by (subst tm_read_loop.simps) (auto simp: Let_def split: if_splits)
next
  case (Suc k)
  have test: "word_of_nat (i * unat (align rg)) + align rg < sz"
    using loop_test(1) [OF al sz refl, of i] Suc.prems(1) by simp
  have num: "word_of_nat (i * unat (align rg)) + align rg = (word_of_nat (Suc i * unat (align rg)) :: csize)"
    using loop_test(2) [OF al sz refl, of i] Suc.prems(1) by simp
  have al64: "word_of_nat (unat (align rg)) = align rg" by simp
  obtain s1 fp1 where step: "tm_read_word rg tx src tgt s = Some (sp_read_ok (lock rg) T src, s1)"
    "mem s1 = store (mem s) tgt (sp_value (unat (align rg)) (mem s) T src)" "can_alloc (Suc k + n) s1"
    "sp_read_ok (lock rg) T src \<Longrightarrow>
           tx_rel (heap s1) tx fp1 (sp_note_read T src) \<and> tx_frame (heap s) (heap s1) tx fp fp1"
    "\<not> sp_read_ok (lock rg) T src \<Longrightarrow> heap s1 = without (holdings tx fp) (heap s)"
    using tm_read_word_impl [OF Suc.prems(2) _ Suc.prems(4)] Suc.prems(3) by (metis add_Suc)
  show ?case
  proof (cases "sp_read_ok (lock rg) T src")
    case False
    then have "ok = False" "m' = mem s1"
      using Suc.prems(5) step(2) by (simp_all add: Let_def)
    moreover have "can_alloc n s1" using step(3) by (rule can_alloc_mono) simp
    ultimately show ?thesis using False step by (subst tm_read_loop.simps) auto
  next
    case True
    have "\<exists>s' fp'. tm_read_loop rg tx (src + align rg) (tgt + align rg) (word_of_nat (Suc i * unat (align rg))) sz s1 =
        Some (ok, s') \<and> mem s' = m' \<and> can_alloc n s' \<and>
       (if ok then tx_rel (heap s') tx fp' T' \<and> tx_frame (heap s1) (heap s') tx fp1 fp'
        else heap s' = without (holdings tx fp1) (heap s1))"
    proof (rule Suc.IH)
      show "sp_read_loop (unat (align rg)) (lock rg) (mem s1) (sp_note_read T src) (src + align rg)
          (tgt + align rg) (Suc k) = (ok, m', T')"
        using Suc.prems(5) True step(2)
        by (subst (asm) sp_read_loop.simps(2)) (simp add: Let_def del: sp_read_loop.simps)
    qed (use Suc.prems step(3) step(4) [OF True] in simp_all)
    then obtain s' fp' where s': "tm_read_loop rg tx (src + align rg) (tgt + align rg)
        (word_of_nat (Suc i * unat (align rg))) sz s1 = Some (ok, s')" "mem s' = m'" "can_alloc n s'"
      "if ok then tx_rel (heap s') tx fp' T' \<and> tx_frame (heap s1) (heap s') tx fp1 fp'
        else heap s' = without (holdings tx fp1) (heap s1)" by blast
    have live: "heap s1 tx \<noteq> None" and fr: "tx_frame (heap s) (heap s1) tx fp fp1"
      using step(4) [OF True] by (auto simp: tx_rel_def)
    have "tm_read_loop rg tx src tgt (word_of_nat (i * unat (align rg))) sz s = Some (ok, s')"
      using True step(1) test num s'(1)
      by (subst tm_read_loop.simps) (simp del: of_nat_mult of_nat_Suc mult_Suc)
    moreover have "if ok then tx_rel (heap s') tx fp' T' \<and> tx_frame (heap s) (heap s') tx fp fp'
        else heap s' = without (holdings tx fp) (heap s)"
      using s'(4) tx_frame_trans [OF fr _ live] tx_frame_without [OF fr] by auto
    ultimately show ?thesis using s'(2,3) by blast
  qed
qed

text \<open>\<open>tm_read\<close> implements the loop of the specification, and on an abort leaves no object behind.\<close>

lemma tm_read_impl:
  assumes "0 < unat (align rg)" and "unat sz + unat (align rg) < 2 ^ 64"
    and "tx_rel (heap s) tx fp T" and "can_alloc (rounds (unat (align rg)) (unat sz) + n) s"
    and "word_sized (unat (align rg)) (t_wset T)"
    and "sp_read_loop (unat (align rg)) (lock rg) (mem s) T src tgt (rounds (unat (align rg)) (unat sz)) = (ok, m', T')"
  shows "\<exists>s' fp'. tm_read rg tx src sz tgt s = Some (ok, s') \<and> mem s' = m' \<and> can_alloc n s' \<and>
     (if ok then tx_rel (heap s') tx fp' T' \<and> tx_frame (heap s) (heap s') tx fp fp'
      else heap s' = without (holdings tx fp) (heap s))"
proof -
  obtain k where k: "rounds (unat (align rg)) (unat sz) = Suc k"
    by (cases "rounds (unat (align rg)) (unat sz)") (auto simp: rounds_def)
  show ?thesis
    using tm_read_loop_impl [OF assms(1,2), of 0 k s tx fp T n src tgt ok m' T'] assms(3-) k
    by (simp add: tm_read_def)
qed

section \<open>Writing\<close>

lemma word_sized_update:
  assumes "word_sized al ws" and "length v = al"
  shows "word_sized al (AList.update a v ws)"
  using assms by (induction ws) (auto simp: word_sized_def)

lemma update_append: "a \<notin> fst ` set ws \<Longrightarrow> AList.update a v ws = ws @ [(a, v)]"
  by (induction ws) auto

text \<open>One round of \<open>tm_write\<close>: a new node, or the buffer of the old one overwritten.\<close>

lemma tm_write_word_impl:
  assumes rel: "tx_rel (heap s) tx fp T" and alloc: "can_alloc (Suc (Suc n)) s"
    and size: "word_sized (unat (align rg)) (t_wset T)"
  obtains s' fp' where "tm_write_word rg tx src tgt s = Some (True, s')"
    and "tx_rel (heap s') tx fp' (sp_write T tgt (load (mem s) src (unat (align rg))))"
    and "mem s' = mem s" and "can_alloc n s'" and "tx_frame (heap s) (heap s') tx fp fp'"
proof -
  let ?b = "load (mem s) src (unat (align rg))"
  from rel obtain t :: transaction where t: "tx \<noteq> NULL" "heap s tx = Some (Tx t)" "is_ro t = t_ro T" "rv t = t_rv T"
    "read_set_rel (heap s) (first_read_node t) (last_read_node t) (fp_r fp) (t_rset T)"
    "write_set_rel (heap s) (first_write_node t) (last_write_node t) (fp_w fp) (fp_v fp) (t_wset T)"
    by (rule tx_relE)
  have get: "get_tx s tx = Some t" using t by (simp add: get_tx_def deref_def)
  have w: "chain wn_link (heap s) (first_write_node t) (fp_w fp)"
    "wdata (heap s) (fp_w fp) (fp_v fp) (t_wset T)"
    using t(6) by (auto simp: write_set_rel_def)
  note find = write_node_find_lookup [OF w, of tgt] and null = ptr_of_NULL [OF w(2,1), of tgt]
  note own = tx_rel_owned [OF rel] and dist = tx_rel_distinct [OF rel]
  have len: "\<And>w. w \<in> set (t_wset T) \<Longrightarrow> length (snd w) = unat (align rg)"
    using size by (auto simp: word_sized_def)
  show thesis
  proof (cases "tgt \<in> fst ` set (t_wset T)")
    case True
    obtain v s' where over: "write_node_overwrite (ptr_of (fp_w fp) (t_wset T) tgt) src (align rg) s = Some s'"
      and v: "v \<in> set (fp_v fp)" and s': "s' = s\<lparr>heap := (heap s)(v := Some (Bytes ?b))\<rparr>"
      and wrel: "write_set_rel (heap s') (first_write_node t) (last_write_node t) (fp_w fp) (fp_v fp)
           (AList.update tgt ?b (t_wset T))"
      using write_node_overwrite_updates [OF t(6) True, where sz = "align rg" and src = src] len by metis
    have vo: "v \<in> set (owned fp)" using v by (simp add: owned_def)
    have "v \<noteq> tx" "v \<notin> set (fp_r fp)" using own [OF vo] v dist(4) by auto
    moreover from this have "read_set_rel (heap s') (first_read_node t) (last_read_node t) (fp_r fp) (t_rset T)"
      using t(5) unfolding s' by (subst read_set_rel_cong [of _ _ "heap s"]) auto
    ultimately have "tx_rel (heap s') tx fp (sp_write T tgt ?b)"
      using t wrel by (auto simp: tx_rel_def sp_write_def s')
    moreover have "can_alloc n s'"
      unfolding s' using own [OF vo] can_alloc_mono [OF alloc, of n] by (intro can_alloc_heap_upd) auto
    moreover have "tx_frame (heap s) (heap s') tx fp fp"
      using vo by (auto simp: tx_frame_def s' holdings_def)
    ultimately show thesis
      using that [of s' fp] get find null True over s' by (simp add: tm_write_word_def)
  next
    case False
    obtain q v f s1 where add: "write_set_add (first_write_node t) (last_write_node t) tgt src (align rg) s = Some (True, f, q, s1)"
      and rel1: "write_set_rel (heap s1) f q (fp_w fp @ [q]) (fp_v fp @ [v]) (t_wset T @ [(tgt, ?b)])"
      and q: "q \<noteq> NULL" "heap s q = None" "v \<noteq> NULL" "heap s v = None" "q \<noteq> v"
      and alloc1: "can_alloc n s1" "mem s1 = mem s"
      and frame1: "\<And>p. p \<notin> set (fp_w fp) \<Longrightarrow> p \<noteq> q \<Longrightarrow> p \<noteq> v \<Longrightarrow> heap s1 p = heap s p"
      using write_set_add_appends [OF t(6) alloc] by metis
    let ?t = "t\<lparr>first_write_node := f, last_write_node := q\<rparr>"
    let ?s2 = "s1\<lparr>heap := (heap s1)(tx := Some (Tx ?t))\<rparr>"
    let ?fp = "fp\<lparr>fp_w := fp_w fp @ [q], fp_v := fp_v fp @ [v]\<rparr>"
    have tx: "tx \<notin> set (fp_r fp)" "tx \<notin> set (fp_w fp) \<union> set (fp_v fp)" "tx \<noteq> q" "tx \<noteq> v"
      using own [of tx] t(2) q by (auto simp: owned_def)
    then have live: "heap s1 tx = Some (Tx t)" using frame1 t(2) by simp
    have qr: "q \<notin> set (fp_r fp)" "v \<notin> set (fp_r fp)"
      using own [of q] own [of v] q by (auto simp: owned_def)
    have "write_set_rel (heap ?s2) f q (fp_w ?fp) (fp_v ?fp) (t_wset T @ [(tgt, ?b)])"
      using rel1 tx by (subst write_set_rel_cong [of _ _ _ "heap s1"]) auto
    moreover have "read_set_rel (heap ?s2) (first_read_node t) (last_read_node t) (fp_r fp) (t_rset T)"
      using t(5) tx qr dist(4) frame1 by (subst read_set_rel_cong [of _ _ "heap s"]) auto
    moreover have "AList.update tgt ?b (t_wset T) = t_wset T @ [(tgt, ?b)]"
      using False by (rule update_append)
    ultimately have rel2: "tx_rel (heap ?s2) tx ?fp (sp_write T tgt ?b)"
      using t by (auto simp: tx_rel_def sp_write_def)
    have frame2: "tx_frame (heap s) (heap ?s2) tx fp ?fp"
      using frame1 q tx by (auto simp: tx_frame_def owned_def holdings_def)
    show thesis
    proof (rule that)
      show "tm_write_word rg tx src tgt s = Some (True, ?s2)"
        using get find null False add live t(1) by (simp add: tm_write_word_def put_def deref_def)
      show "can_alloc n ?s2" using alloc1(1) live by (simp add: can_alloc_heap_upd)
    qed (use rel2 frame2 alloc1 in simp_all)
  qed
qed

lemma tm_write_loop_impl:
  assumes al: "0 < unat (align rg)" and sz: "unat sz + unat (align rg) < 2 ^ 64"
    and "Suc i + k = rounds (unat (align rg)) (unat sz)"
    and "tx_rel (heap s) tx fp T" and "can_alloc (2 * Suc k + n) s"
    and "word_sized (unat (align rg)) (t_wset T)"
  shows "\<exists>s' fp'. tm_write_loop rg tx src tgt (word_of_nat (i * unat (align rg))) sz s = Some (True, s') \<and>
     tx_rel (heap s') tx fp' (sp_write_loop (unat (align rg)) (mem s) T src tgt (Suc k)) \<and>
     mem s' = mem s \<and> can_alloc n s' \<and> tx_frame (heap s) (heap s') tx fp fp'"
  using assms(3-)
proof (induction k arbitrary: i s fp T src tgt)
  case 0
  have test: "\<not> word_of_nat (i * unat (align rg)) + align rg < sz"
    using loop_test(1) [OF al sz refl, of i] 0 by simp
  obtain s1 fp1 where "tm_write_word rg tx src tgt s = Some (True, s1)"
    "tx_rel (heap s1) tx fp1 (sp_write T tgt (load (mem s) src (unat (align rg))))"
    "mem s1 = mem s" "can_alloc n s1" "tx_frame (heap s) (heap s1) tx fp fp1"
    using tm_write_word_impl [OF 0(2) _ 0(4)] 0(3) by (metis add_2_eq_Suc mult_2_right mult.right_neutral One_nat_def)
  then show ?case
    using test by (intro exI [of _ s1] exI [of _ fp1]) (subst tm_write_loop.simps, auto)
next
  case (Suc k)
  have test: "word_of_nat (i * unat (align rg)) + align rg < sz"
    using loop_test(1) [OF al sz refl, of i] Suc.prems(1) by simp
  have num: "word_of_nat (i * unat (align rg)) + align rg = (word_of_nat (Suc i * unat (align rg)) :: csize)"
    using loop_test(2) [OF al sz refl, of i] Suc.prems(1) by simp
  let ?T = "sp_write T tgt (load (mem s) src (unat (align rg)))"
  have "can_alloc (Suc (Suc (2 * Suc k + n))) s" using Suc.prems(3) by simp
  then obtain s1 fp1 where step: "tm_write_word rg tx src tgt s = Some (True, s1)"
    "tx_rel (heap s1) tx fp1 ?T"
    "mem s1 = mem s" "can_alloc (2 * Suc k + n) s1" "tx_frame (heap s) (heap s1) tx fp fp1"
    using tm_write_word_impl [OF Suc.prems(2) _ Suc.prems(4)] by metis
  have "\<exists>s' fp'. tm_write_loop rg tx (src + align rg) (tgt + align rg) (word_of_nat (Suc i * unat (align rg))) sz s1 =
      Some (True, s') \<and>
     tx_rel (heap s') tx fp' (sp_write_loop (unat (align rg)) (mem s1) ?T (src + align rg) (tgt + align rg) (Suc k)) \<and>
     mem s' = mem s1 \<and> can_alloc n s' \<and> tx_frame (heap s1) (heap s') tx fp1 fp'"
    using Suc.prems step by (intro Suc.IH) (simp_all add: sp_write_def word_sized_update)
  then obtain s' fp' where s': "tm_write_loop rg tx (src + align rg) (tgt + align rg) (word_of_nat (Suc i * unat (align rg))) sz s1 =
      Some (True, s')"
     "tx_rel (heap s') tx fp' (sp_write_loop (unat (align rg)) (mem s1) ?T (src + align rg) (tgt + align rg) (Suc k))"
     "mem s' = mem s1" "can_alloc n s'" "tx_frame (heap s1) (heap s') tx fp1 fp'" by blast
  have live: "heap s1 tx \<noteq> None" using step(2) by (auto simp: tx_rel_def)
  have "tm_write_loop rg tx src tgt (word_of_nat (i * unat (align rg))) sz s = Some (True, s')"
    using step(1) test num s'(1)
    by (subst tm_write_loop.simps) (simp del: of_nat_mult of_nat_Suc mult_Suc)
  then show ?case
    using s' step(3) tx_frame_trans [OF step(5) s'(5) live]
    by (intro exI [of _ s'] exI [of _ fp']) simp
qed

text \<open>\<open>tm_write\<close> never touches the shared memory: it records the words in the write set.\<close>

lemma tm_write_impl:
  assumes "0 < unat (align rg)" and "unat sz + unat (align rg) < 2 ^ 64"
    and "tx_rel (heap s) tx fp T" and "can_alloc (2 * rounds (unat (align rg)) (unat sz) + n) s"
    and "word_sized (unat (align rg)) (t_wset T)"
  shows "\<exists>s' fp'. tm_write rg tx src sz tgt s = Some (True, s') \<and>
     tx_rel (heap s') tx fp'
       (sp_write_loop (unat (align rg)) (mem s) T src tgt (rounds (unat (align rg)) (unat sz))) \<and>
     mem s' = mem s \<and> can_alloc n s' \<and> tx_frame (heap s) (heap s') tx fp fp'"
proof -
  obtain k where k: "rounds (unat (align rg)) (unat sz) = Suc k"
    by (cases "rounds (unat (align rg)) (unat sz)") (auto simp: rounds_def)
  show ?thesis
    using tm_write_loop_impl [OF assms(1,2), of 0 k s tx fp T n src tgt] assms(3-) k
    by (simp add: tm_write_def)
qed

end
