(* ===== verification/Tm_Results.thy ===== *)
theory Tm_Results
  imports Tm_Refine
begin

text \<open>
  The properties of the functions of \<open>tm.c\<close> executed by one thread: what beginning, reading,
  writing and ending a transaction does to the lock table, the memory and the heap, on success
  and on abort, and that the words written are the words read back.
\<close>

section \<open>Words written are read back\<close>

lemma offset_Suc: "a + word_of_nat al + word_of_nat (i * al) = a + (word_of_nat (Suc i * al) :: addr)"
  by (simp add: algebra_simps)

lemma load_append: "load m a (n + k) = load m a n @ load m (a + word_of_nat n) k"
  by (rule nth_equalityI) (auto simp: nth_append nth_load algebra_simps)

lemma write_loop_other:
  "(\<And>i. i < k \<Longrightarrow> b \<noteq> tgt + word_of_nat (i * al)) \<Longrightarrow>
     map_of (t_wset (sp_write_loop al m T src tgt k)) b = map_of (t_wset T) b"
proof (induction k arbitrary: T src tgt)
  case (Suc k)
  have "b \<noteq> tgt" using Suc.prems [of 0] by simp
  moreover have "b \<noteq> tgt + word_of_nat al + word_of_nat (i * al)" if "i < k" for i
    unfolding offset_Suc using Suc.prems [of "Suc i"] that by blast
  ultimately show ?case using Suc.IH by (simp add: sp_write_def update_conv')
qed simp

lemma write_loop_at:
  assumes "0 < al" and "k * al \<le> 2 ^ 64" and "i < k"
  shows "map_of (t_wset (sp_write_loop al m T src tgt k)) (tgt + word_of_nat (i * al)) =
    Some (load m (src + word_of_nat (i * al)) al)"
  using assms
proof (induction k arbitrary: T src tgt i)
  case (Suc k)
  show ?case
  proof (cases i)
    case 0
    have "tgt \<noteq> tgt + word_of_nat al + word_of_nat (j * al)" if j: "j < k" for j
    proof
      assume "tgt = tgt + word_of_nat al + word_of_nat (j * al)"
      then have "tgt + word_of_nat 0 = tgt + word_of_nat (Suc j * al)" unfolding offset_Suc by simp
      moreover have "Suc j * al < Suc k * al" using j Suc.prems(1) by simp
      then have "Suc j * al < 2 ^ 64" using Suc.prems(2) by (rule less_le_trans)
      ultimately have "0 = Suc j * al" by (intro word_offset_inj [of tgt]) simp_all
      then show False using Suc.prems(1) by simp
    qed
    then show ?thesis
      using 0 write_loop_other [of k tgt "tgt + word_of_nat al"] by (simp add: sp_write_def update_conv')
  next
    case (Suc j)
    have "map_of (t_wset (sp_write_loop al m (sp_write T tgt (load m src al)) (src + word_of_nat al)
        (tgt + word_of_nat al) k)) (tgt + word_of_nat al + word_of_nat (j * al)) =
      Some (load m (src + word_of_nat al + word_of_nat (j * al)) al)"
      using Suc.prems Suc by (intro Suc.IH) simp_all
    then show ?thesis unfolding offset_Suc using Suc by simp
  qed
qed simp

lemma read_loop_own:
  assumes "\<And>i. i < k \<Longrightarrow> map_of (t_wset T) (src + word_of_nat (i * al)) = Some (v i) \<and> length (v i) = al"
    and "\<not> t_ro T" and "k * al \<le> 2 ^ 64" and "sp_read_loop al lk m T src tgt k = (True, m', T')"
  shows "load m' tgt (k * al) = concat (map v [0..<k]) \<and> T' = T \<and>
    (\<forall>x. (\<forall>j < k * al. x \<noteq> tgt + word_of_nat j) \<longrightarrow> m' x = m x)"
  using assms
proof (induction k arbitrary: m src tgt v)
  case 0
  then show ?case by (simp add: load_def)
next
  case (Suc k)
  let ?m = "store m tgt (v 0)"
  have v0: "map_of (t_wset T) src = Some (v 0)" "length (v 0) = al" using Suc.prems(1) [of 0] by simp_all
  have rest: "sp_read_loop al lk ?m T (src + word_of_nat al) (tgt + word_of_nat al) k = (True, m', T')"
    using Suc.prems(2,4) v0 by (auto simp: sp_value_def sp_note_read_def Let_def split: if_splits)
  have IH: "load m' (tgt + word_of_nat al) (k * al) = concat (map (\<lambda>i. v (Suc i)) [0..<k]) \<and> T' = T \<and>
    (\<forall>x. (\<forall>j < k * al. x \<noteq> tgt + word_of_nat al + word_of_nat j) \<longrightarrow> m' x = ?m x)"
  proof (rule Suc.IH [OF _ Suc.prems(2) _ rest])
    show "k * al \<le> 2 ^ 64" using Suc.prems(3) by simp
    show "map_of (t_wset T) (src + word_of_nat al + word_of_nat (i * al)) = Some (v (Suc i)) \<and>
        length (v (Suc i)) = al" if "i < k" for i
      unfolding offset_Suc using Suc.prems(1) [of "Suc i"] that by simp
  qed
  have apart: "tgt + word_of_nat i \<noteq> tgt + word_of_nat al + word_of_nat j" if "i < al" "j < k * al" for i j
  proof
    assume "tgt + word_of_nat i = tgt + word_of_nat al + word_of_nat j"
    then have "tgt + word_of_nat i = tgt + word_of_nat (al + j)" by (simp add: algebra_simps)
    moreover have "al + j < 2 ^ 64" using that Suc.prems(3) by simp
    ultimately have "i = al + j" using that by (intro word_offset_inj [of tgt]) simp_all
    with that show False by simp
  qed
  have "load m' tgt al = load ?m tgt al"
    by (rule load_cong) (use IH apart in blast)
  also have "\<dots> = v 0"
    using load_store_same [of "v 0" m tgt] v0(2) Suc.prems(3) by simp
  finally have head: "load m' tgt al = v 0" .
  have "[0..<Suc k] = 0 # map Suc [0..<k]" by (simp add: upt_conv_Cons map_Suc_upt del: upt_Suc)
  then have "load m' tgt (Suc k * al) = concat (map v [0..<Suc k])"
    using IH head by (simp add: load_append o_def del: upt_Suc)
  moreover have "m' x = m x" if "\<forall>j < Suc k * al. x \<noteq> tgt + word_of_nat j" for x
  proof -
    have "x \<noteq> tgt + word_of_nat al + word_of_nat j" if "j < k * al" for j
      using \<open>\<forall>j < Suc k * al. x \<noteq> tgt + word_of_nat j\<close> [rule_format, of "al + j"] that
      by (simp add: algebra_simps)
    then have "m' x = ?m x" using IH by blast
    also have "\<dots> = m x" by (rule store_other) (use that v0(2) in simp)
    finally show ?thesis .
  qed
  ultimately show ?case using IH by blast
qed

lemma load_words: "load m a (k * al) = concat (map (\<lambda>i. load m (a + word_of_nat (i * al)) al) [0..<k])"
proof (induction k)
  case (Suc k)
  have "load m a (Suc k * al) = load m a (k * al + al)" by (simp add: add.commute)
  with Suc show ?case by (simp add: load_append)
qed (simp add: load_def)

lemma write_loop_sel [simp]:
  "t_ro (sp_write_loop al m T src tgt k) = t_ro T" "t_rv (sp_write_loop al m T src tgt k) = t_rv T"
  "t_rset (sp_write_loop al m T src tgt k) = t_rset T"
  by (induction al m T src tgt k rule: sp_write_loop.induct) auto

lemma write_loop_sized:
  "word_sized al (t_wset T) \<Longrightarrow> word_sized al (t_wset (sp_write_loop al m T src tgt k))"
  by (induction al m T src tgt k rule: sp_write_loop.induct)
    (simp_all add: sp_write_def word_sized_update)

section \<open>A concrete region and allocator for the witnesses\<close>

definition sample :: cstate where
  "sample = \<lparr>heap = (\<lambda>_. None), mem = (\<lambda>_. 7), answers = [4096, 4160, 4224, 4288, 4352, 4416]\<rparr>"

definition sample_region :: region where
  "sample_region =
     \<lparr>lock = \<lparr>clock = 3, locks = (\<lambda>_. \<lparr>vlock = False, version = 0\<rparr>), segment_lock = False\<rparr>,
      start = 1024, allocs = NULL, region_size = 1024, align = 8\<rparr>"

lemma sample_alloc: "can_alloc 6 sample"
  by (simp add: can_alloc_def sample_def)

lemma sample_sel [simp]:
  "unat (align sample_region) = 8" "clock (lock sample_region) = 3" "held (lock sample_region) a = False"
  "ver (lock sample_region) a = 0"
  by (simp_all add: sample_region_def held_def ver_def)

section \<open>Beginning and ending\<close>

text \<open>\<open>tm_begin\<close> with memory available returns a fresh transaction object in the requested
  mode, with empty sets and the current clock as its read version, and touches nothing else.\<close>

theorem tm_begin_starts:
  assumes "can_alloc (Suc n) s"
  shows "\<exists>tx s'. tm_begin rg ro s = Some (tx, s') \<and> heap s tx = None \<and>
    tx_rel (heap s') tx no_footprint \<lparr>t_ro = ro, t_rv = clock (lock rg), t_rset = [], t_wset = []\<rparr> \<and>
    mem s' = mem s \<and> can_alloc n s' \<and> (\<forall>p. p \<noteq> tx \<longrightarrow> heap s' p = heap s p)"
  using tm_begin_impl [OF assms, of rg ro] unfolding sp_begin_def by metis

theorem tm_begin_starts_witness:
  "\<exists>tx s'. tm_begin sample_region False sample = Some (tx, s') \<and>
     tx_rel (heap s') tx no_footprint \<lparr>t_ro = False, t_rv = 3, t_rset = [], t_wset = []\<rparr>"
  using tm_begin_starts [of 5 sample sample_region False] sample_alloc by (auto simp: numeral_eq_Suc)

lemma tm_end_facts:
  assumes rel: "tx_rel (heap s) tx fp T" and "word_sized (unat (align rg)) (t_wset T)"
    and ro: "\<not> t_ro T" and rv: "t_rv T \<noteq> INT_MAX"
  defines "ok \<equiv> lockable (lock rg) (t_wset T) \<and> (clock (lock rg) = t_rv T \<or> reads_valid (lock rg) T)"
  shows "\<exists>rg' s'. tm_end rg tx s = Some (ok, rg', s') \<and>
    heap s' = without (holdings tx fp) (heap s) \<and>
    mem s' = (if ok then store_words (mem s) (t_wset T) else mem s) \<and>
    (\<forall>a. held (lock rg') a = held (lock rg) a) \<and>
    (\<forall>a. ver (lock rg') a =
       (if ok \<and> find_lock a \<in> set (stripes (t_wset T)) then clock (lock rg) + 1 else ver (lock rg) a)) \<and>
    clock (lock rg') = (if lockable (lock rg) (t_wset T) then clock (lock rg) + 1 else clock (lock rg))"
proof -
  let ?L = "lockable (lock rg) (t_wset T)"
  have free: "held (lock rg) a = False" if ?L "find_lock a \<in> set (stripes (t_wset T))" for a
    using that by (auto simp: lockable_def held_def)
  have "sp_end (lock rg) (mem s) T =
     (if \<not> ?L then Some (False, lock rg, mem s)
      else if \<not> ok then Some (False, (lock rg)\<lparr>clock := clock (lock rg) + 1\<rparr>, mem s)
      else Some (True, sp_publish ((lock_stripes (lock rg) (t_wset T))\<lparr>clock := clock (lock rg) + 1\<rparr>)
                  (t_wset T) (clock (lock rg) + 1), store_words (mem s) (t_wset T)))"
    using ro rv by (auto simp: sp_end_closed ok_def)
  then show ?thesis
    using tm_end_impl [OF assms(1,2)] ro free
    by (cases ?L; cases ok) (auto simp: ok_def held_def ver_def lock_sels)
qed

text \<open>C7: The commit of a read-write transaction in full. It succeeds exactly when the locks of its
  words are free and pairwise different and, unless the clock still equals the read version, every
  word read has a free lock that is not one of its own and whose version is not newer. On success
  the words are in memory and their locks carry the new clock value; on failure memory and versions
  are unchanged. In both cases every lock is as free as before, and all that the transaction had
  allocated is freed.\<close>

theorem tm_end_outcome:
  assumes "tx_rel (heap s) tx fp T" and "word_sized (unat (align rg)) (t_wset T)"
    and "\<not> t_ro T" and "t_rv T \<noteq> INT_MAX"
  shows "\<exists>ok rg' s'. tm_end rg tx s = Some (ok, rg', s') \<and>
    (ok \<longleftrightarrow> lockable (lock rg) (t_wset T) \<and> (clock (lock rg) = t_rv T \<or> reads_valid (lock rg) T)) \<and>
    heap s' = without (holdings tx fp) (heap s) \<and>
    mem s' = (if ok then store_words (mem s) (t_wset T) else mem s) \<and>
    (\<forall>a. held (lock rg') a = held (lock rg) a) \<and>
    (\<forall>a. ver (lock rg') a =
       (if ok \<and> find_lock a \<in> set (stripes (t_wset T)) then clock (lock rg) + 1 else ver (lock rg) a)) \<and>
    clock (lock rg') = (if lockable (lock rg) (t_wset T) then clock (lock rg) + 1 else clock (lock rg))"
  using tm_end_facts [OF assms] by blast

text \<open>A transaction object with one word read and one word written, and its abstract view.\<close>

definition sample_tx :: "cint \<Rightarrow> cstate" where
  "sample_tx v = sample\<lparr>heap := (heap sample)
     (4096 := Some (Tx \<lparr>is_ro = False, rv = v, first_read_node = 4160, last_read_node = 4160,
                        first_write_node = 4224, last_write_node = 4224\<rparr>),
      4160 := Some (RNode \<lparr>rn_address = 1024, rn_next = NULL\<rparr>),
      4224 := Some (WNode \<lparr>wn_address = 1032, wn_value = 4288, wn_next = NULL\<rparr>),
      4288 := Some (Bytes [1, 2, 3, 4, 5, 6, 7, 8])), answers := [4352, 4416, 4480]\<rparr>"

definition sample_txn :: "cint \<Rightarrow> txn" where
  "sample_txn v = \<lparr>t_ro = False, t_rv = v, t_rset = [1024], t_wset = [(1032, [1, 2, 3, 4, 5, 6, 7, 8])]\<rparr>"

definition sample_fp :: footprint where
  "sample_fp = \<lparr>fp_r = [4160], fp_w = [4224], fp_v = [4288]\<rparr>"

lemma sample_rel: "tx_rel (heap (sample_tx v)) 4096 sample_fp (sample_txn v)"
  by (simp add: tx_rel_def sample_tx_def sample_fp_def sample_txn_def read_set_rel_def write_set_rel_def
      rn_link_def wn_link_def rn_addr_def)

lemma sample_sized: "word_sized (unat (align sample_region)) (t_wset (sample_txn v))"
  by (simp add: word_sized_def sample_txn_def)

lemma sample_lockable: "lockable (lock sample_region) (t_wset (sample_txn v))"
  by (simp add: lockable_def sample_txn_def)

theorem tm_end_outcome_witness:
  "\<exists>rg' s'. tm_end sample_region 4096 (sample_tx 3) = Some (True, rg', s') \<and>
     mem s' = store_words (mem (sample_tx 3)) [(1032, [1, 2, 3, 4, 5, 6, 7, 8])] \<and> ver (lock rg') 1032 = 4"
  using tm_end_outcome [OF sample_rel sample_sized, of 3] sample_lockable [of 3]
  by (auto simp: sample_txn_def)

text \<open>C31: A transaction that writes a word whose lock also guards a word it has read commits only
  if no transaction has incremented the clock since it began: its own lock makes the validation of
  the read set fail.\<close>

theorem read_modify_write_aborts:
  assumes "tx_rel (heap s) tx fp T" and "word_sized (unat (align rg)) (t_wset T)"
    and "\<not> t_ro T" and "t_rv T \<noteq> INT_MAX" and "clock (lock rg) \<noteq> t_rv T"
    and "a \<in> set (t_rset T)" and "find_lock a \<in> set (stripes (t_wset T))"
  shows "\<exists>rg' s'. tm_end rg tx s = Some (False, rg', s') \<and> mem s' = mem s"
proof -
  have "\<not> reads_valid (lock rg) T" using assms(6,7) by (auto simp: reads_valid_def)
  then show ?thesis using tm_end_facts [OF assms(1-4)] assms(5) by auto
qed

definition rmw_tx :: cstate where
  "rmw_tx = (sample_tx 2)\<lparr>heap := (heap (sample_tx 2))(4160 := Some (RNode \<lparr>rn_address = 1032, rn_next = NULL\<rparr>))\<rparr>"

theorem read_modify_write_aborts_witness:
  "\<exists>rg' s'. tm_end sample_region 4096 rmw_tx = Some (False, rg', s') \<and> mem s' = mem rmw_tx"
proof (rule read_modify_write_aborts)
  show "tx_rel (heap rmw_tx) 4096 sample_fp ((sample_txn 2)\<lparr>t_rset := [1032]\<rparr>)"
    by (simp add: tx_rel_def rmw_tx_def sample_tx_def sample_fp_def sample_txn_def read_set_rel_def
        write_set_rel_def rn_link_def wn_link_def rn_addr_def)
  show "word_sized (unat (align sample_region)) (t_wset ((sample_txn 2)\<lparr>t_rset := [1032]\<rparr>))"
    using sample_sized [of 2] by simp
qed (simp_all add: sample_txn_def)

text \<open>C33: Ending a read-only transaction always succeeds and frees its object, but not the nodes of
  words it wrote: everything it owns stays allocated.\<close>

theorem read_only_end_leaks:
  assumes "tx_rel (heap s) tx fp T" and "word_sized (unat (align rg)) (t_wset T)" and "t_ro T"
  shows "\<exists>s'. tm_end rg tx s = Some (True, rg, s') \<and> mem s' = mem s \<and> heap s' tx = None \<and>
    (\<forall>p \<in> set (owned fp). heap s' p = heap s p \<and> heap s' p \<noteq> None)"
proof -
  have "tm_end rg tx s = Some (True, rg, s\<lparr>heap := without [tx] (heap s)\<rparr>)"
    using tm_end_impl [OF assms(1,2)] assms(3) by (simp add: sp_end_closed)
  then show ?thesis using tx_rel_owned [OF assms(1)] by (auto simp: without_def)
qed

definition ro_tx :: cstate where
  "ro_tx = (sample_tx 3)\<lparr>heap := (heap (sample_tx 3))
     (4096 := Some (Tx \<lparr>is_ro = True, rv = 3, first_read_node = 4160, last_read_node = 4160,
                        first_write_node = 4224, last_write_node = 4224\<rparr>))\<rparr>"

theorem read_only_end_leaks_witness:
  "\<exists>s'. tm_end sample_region 4096 ro_tx = Some (True, sample_region, s') \<and> heap s' 4224 \<noteq> None"
proof -
  have "tx_rel (heap ro_tx) 4096 sample_fp ((sample_txn 3)\<lparr>t_ro := True\<rparr>)"
    by (simp add: tx_rel_def ro_tx_def sample_tx_def sample_fp_def sample_txn_def read_set_rel_def
        write_set_rel_def rn_link_def wn_link_def rn_addr_def)
  from read_only_end_leaks [OF this, of sample_region] sample_sized [of 3] show ?thesis
    by (auto simp: owned_def sample_fp_def)
qed

section \<open>Reading and writing\<close>

text \<open>C8: \<open>tm_read\<close> implements the read loop of the specification: it copies whole words, each from
  the write set or from memory, until \<open>size\<close> bytes are covered or a word fails to validate. When
  it succeeds the transaction has the read set of the specification; when it fails the transaction
  and all it had allocated are gone. It reaches no undefined behaviour while memory is available
  and \<open>size\<close> plus one word does not wrap around.\<close>

theorem tm_read_refines:
  assumes "0 < unat (align rg)" and "unat sz + unat (align rg) < 2 ^ 64"
    and "tx_rel (heap s) tx fp T" and "can_alloc (rounds (unat (align rg)) (unat sz) + n) s"
    and "word_sized (unat (align rg)) (t_wset T)"
  shows "\<exists>ok m' T' s' fp'.
    sp_read_loop (unat (align rg)) (lock rg) (mem s) T src tgt (rounds (unat (align rg)) (unat sz)) = (ok, m', T') \<and>
    tm_read rg tx src sz tgt s = Some (ok, s') \<and> mem s' = m' \<and> can_alloc n s' \<and>
    (if ok then tx_rel (heap s') tx fp' T' \<and> tx_frame (heap s) (heap s') tx fp fp'
     else heap s' = without (holdings tx fp) (heap s))"
proof -
  obtain ok m' T' where
    "sp_read_loop (unat (align rg)) (lock rg) (mem s) T src tgt (rounds (unat (align rg)) (unat sz)) = (ok, m', T')"
    by (metis prod_cases3)
  with tm_read_impl [OF assms] show ?thesis by fastforce
qed

lemma sample_tx_alloc: "can_alloc 3 (sample_tx v)"
  by (simp add: can_alloc_def sample_tx_def sample_def)

lemma sample_rounds: "rounds (unat (align sample_region)) (unat (8 :: csize)) = 1"
  by (simp add: rounds_def)

lemma sample_unat: "0 < unat (align sample_region)" "unat (8 :: csize) + unat (align sample_region) < 2 ^ 64"
  by simp_all

lemma sample_read_ok: "sp_read_ok (lock sample_region) (sample_txn v) a \<longleftrightarrow> \<not> int_gt 0 v"
  by (simp add: sp_read_ok_def validate_iff sample_txn_def)

theorem tm_read_refines_witness:
  "\<exists>s'. tm_read sample_region 4096 1040 8 2048 (sample_tx 3) = Some (True, s') \<and>
     load (mem s') 2048 8 = load (mem (sample_tx 3)) 1040 8"
proof -
  let ?v = "load (mem (sample_tx 3)) 1040 8"
  have v: "load (store (mem (sample_tx 3)) 2048 ?v) 2048 8 = ?v"
    using load_store_same [of ?v "mem (sample_tx 3)" 2048] by simp
  have "can_alloc (rounds (unat (align sample_region)) (unat (8 :: csize)) + 2) (sample_tx 3)"
    unfolding sample_rounds using sample_tx_alloc [of 3] by (simp add: numeral_3_eq_3)
  from tm_read_refines [OF sample_unat sample_rel this sample_sized, of 1040 2048]
  obtain ok m' T' s' where
    "sp_read_loop 8 (lock sample_region) (mem (sample_tx 3)) (sample_txn 3) 1040 2048 1 = (ok, m', T')"
    "tm_read sample_region 4096 1040 8 2048 (sample_tx 3) = Some (ok, s')" "mem s' = m'"
    unfolding sample_rounds by auto
  moreover have "sp_read_ok (lock sample_region) (sample_txn 3) 1040"
    by (simp add: sample_read_ok int_gt_def)
  moreover have "sp_value 8 m (sample_txn 3) 1040 = load m 1040 8" for m
    by (simp add: sp_value_def sample_txn_def)
  ultimately show ?thesis using v by (auto simp: Let_def)
qed

text \<open>C26: \<open>tm_write\<close> always succeeds while memory is available. It leaves the shared memory alone
  and records each word in the write set, replacing the value of a word already there.\<close>

theorem tm_write_refines:
  assumes "0 < unat (align rg)" and "unat sz + unat (align rg) < 2 ^ 64"
    and "tx_rel (heap s) tx fp T" and "can_alloc (2 * rounds (unat (align rg)) (unat sz) + n) s"
    and "word_sized (unat (align rg)) (t_wset T)"
  shows "\<exists>s' fp' T'. tm_write rg tx src sz tgt s = Some (True, s') \<and> mem s' = mem s \<and>
    T' = sp_write_loop (unat (align rg)) (mem s) T src tgt (rounds (unat (align rg)) (unat sz)) \<and>
    tx_rel (heap s') tx fp' T' \<and> word_sized (unat (align rg)) (t_wset T') \<and>
    can_alloc n s' \<and> tx_frame (heap s) (heap s') tx fp fp'"
  using tm_write_impl [OF assms, of src tgt] write_loop_sized [OF assms(5)] by blast

theorem tm_write_refines_witness:
  "\<exists>s'. tm_write sample_region 4096 2048 8 1040 (sample_tx 3) = Some (True, s') \<and> mem s' = mem (sample_tx 3)"
proof -
  have "can_alloc (2 * rounds (unat (align sample_region)) (unat (8 :: csize)) + 1) (sample_tx 3)"
    unfolding sample_rounds using sample_tx_alloc by simp
  from tm_write_refines [OF sample_unat sample_rel this sample_sized, of 2048 1040] show ?thesis by blast
qed

text \<open>C9: Round trip through the write set. What a read-write transaction has written with
  \<open>tm_write\<close>, a later \<open>tm_read\<close> of the same words that succeeds copies back byte for byte, without
  the memory of the region being involved.\<close>

theorem write_then_read:
  assumes al: "0 < unat (align rg)" and sz: "unat sz + unat (align rg) < 2 ^ 64"
    and rel: "tx_rel (heap s) tx fp T" and ro: "\<not> t_ro T"
    and alloc: "can_alloc (3 * rounds (unat (align rg)) (unat sz)) s"
    and ws: "word_sized (unat (align rg)) (t_wset T)"
    and wr: "tm_write rg tx src sz dst s = Some (ok, s1)"
    and rd: "tm_read rg tx dst sz back s1 = Some (True, s2)"
    and k: "k = rounds (unat (align rg)) (unat sz) * unat (align rg)"
  shows "load (mem s2) back k = load (mem s) src k"
proof -
  let ?al = "unat (align rg)" and ?r = "rounds (unat (align rg)) (unat sz)"
  have "can_alloc (2 * ?r + ?r) s" using alloc by simp
  from tm_write_impl [OF al sz rel this ws, of src dst] wr obtain fp1 where
    w: "tx_rel (heap s1) tx fp1 (sp_write_loop ?al (mem s) T src dst ?r)" "can_alloc ?r s1"
    by auto
  let ?T = "sp_write_loop ?al (mem s) T src dst ?r"
  obtain m' T' where r: "sp_read_loop ?al (lock rg) (mem s1) ?T dst back ?r = (True, m', T')" "mem s2 = m'"
  proof -
    obtain ok m' T' where e: "sp_read_loop ?al (lock rg) (mem s1) ?T dst back ?r = (ok, m', T')"
      by (metis prod_cases3)
    have "can_alloc (?r + 0) s1" using w(2) by simp
    from tm_read_impl [OF al sz w(1) this write_loop_sized [OF ws] e] rd that e show thesis by auto
  qed
  have small: "?r * ?al \<le> 2 ^ 64"
  proof (cases "?r = 1")
    case True
    then show ?thesis using sz by simp
  next
    case False
    then obtain i where "?r = Suc (Suc i)"
      by (cases ?r; cases "?r - 1") (auto simp: rounds_def)
    with rounds_continue [OF al, of i "unat sz"] sz show ?thesis by simp
  qed
  have "load m' back (?r * ?al) = concat (map (\<lambda>i. load (mem s) (src + word_of_nat (i * ?al)) ?al) [0..<?r])"
    using read_loop_own [OF _ _ small r(1), where v = "\<lambda>i. load (mem s) (src + word_of_nat (i * ?al)) ?al"]
      write_loop_at [OF al small, of _ "mem s" T src dst] ro by simp
  then show ?thesis using r(2) by (simp add: load_words k)
qed

theorem write_then_read_witness:
  "\<exists>s1 s2. tm_write sample_region 4096 2048 8 1040 (sample_tx 3) = Some (True, s1) \<and>
     tm_read sample_region 4096 1040 8 3072 s1 = Some (True, s2) \<and>
     load (mem s2) 3072 8 = load (mem (sample_tx 3)) 2048 8"
proof -
  let ?al = "unat (align sample_region)" and ?r = "rounds (unat (align sample_region)) (unat (8 :: csize))"
  let ?T = "sp_write_loop ?al (mem (sample_tx 3)) (sample_txn 3) 2048 1040 ?r"
  have c: "can_alloc (2 * ?r + 1) (sample_tx 3)" and c3: "can_alloc (3 * ?r) (sample_tx 3)"
    unfolding sample_rounds using sample_tx_alloc by simp_all
  from tm_write_impl [OF sample_unat sample_rel c sample_sized, of 2048 1040] obtain s1 fp1 where
    w: "tm_write sample_region 4096 2048 8 1040 (sample_tx 3) = Some (True, s1)" "can_alloc 1 s1"
    "tx_rel (heap s1) 4096 fp1 ?T" by blast
  have "sp_read_ok (lock sample_region) ?T 1040" by (simp add: sp_read_ok_def validate_iff int_gt_def sample_txn_def)
  then obtain m' T' where e: "sp_read_loop ?al (lock sample_region) (mem s1) ?T 1040 3072 ?r = (True, m', T')"
    unfolding sample_rounds by (simp add: Let_def del: sp_write_loop.simps)
  have al: "can_alloc (?r + 0) s1" unfolding sample_rounds using w(2) by simp
  from tm_read_impl [OF sample_unat w(3) al write_loop_sized [OF sample_sized] e]
  obtain s2 where r: "tm_read sample_region 4096 1040 8 3072 s1 = Some (True, s2)" by blast
  have "load (mem s2) 3072 8 = load (mem (sample_tx 3)) 2048 8"
    by (rule write_then_read [OF sample_unat sample_rel _ c3 sample_sized w(1) r])
      (simp_all only: sample_rounds, simp_all add: sample_txn_def)
  with w(1) r show ?thesis by blast
qed

section \<open>Failing allocations\<close>

text \<open>C32: When the allocation of a read node fails, \<open>tm_read\<close> does not abort the transaction but
  reaches undefined behaviour (a write through NULL): the test for the failure looks at the address
  of the local variable. The same holds for \<open>tm_write\<close>.\<close>

theorem out_of_memory_undefined:
  assumes "tx_rel (heap s) tx fp T" and "\<not> t_ro T" and "a \<notin> fst ` set (t_wset T)" and "answers s = []"
  shows "tm_read rg tx a sz tgt s = None \<and> tm_write rg tx src sz a s = None"
proof -
  from assms(1) obtain t :: transaction where t: "tx \<noteq> NULL" "heap s tx = Some (Tx t)" "is_ro t = t_ro T"
    "write_set_rel (heap s) (first_write_node t) (last_write_node t) (fp_w fp) (fp_v fp) (t_wset T)"
    by (rule tx_relE)
  have w: "chain wn_link (heap s) (first_write_node t) (fp_w fp)"
    "wdata (heap s) (fp_w fp) (fp_v fp) (t_wset T)"
    using t(4) by (auto simp: write_set_rel_def)
  have get: "get_tx s tx = Some t" using t by (simp add: get_tx_def deref_def)
  have miss: "write_node_find (first_write_node t) a s = Some NULL"
    using write_node_find_lookup [OF w, of a] ptr_of_NULL [OF w(2,1), of a] assms(3) by simp
  note oom = read_set_add_oom [OF malloc_none [OF assms(4)]] write_set_add_oom [OF malloc_none [OF assms(4)]]
  have "tm_read_word rg tx a tgt s = None"
    using get miss t(3) assms(2) oom(1) by (simp add: tm_read_word_def)
  moreover have "tm_write_word rg tx src a s = None"
    using get miss oom(2) by (simp add: tm_write_word_def)
  ultimately show ?thesis
    unfolding tm_read_def tm_write_def
    by (subst tm_read_loop.simps, subst tm_write_loop.simps) simp
qed

theorem out_of_memory_undefined_witness:
  "tm_read sample_region 4096 1040 8 2048 ((sample_tx 3)\<lparr>answers := []\<rparr>) = None"
proof -
  have "tx_rel (heap ((sample_tx 3)\<lparr>answers := []\<rparr>)) 4096 sample_fp (sample_txn 3)"
    using sample_rel [of 3] by simp
  from out_of_memory_undefined [OF this, of 1040] show ?thesis by (simp add: sample_txn_def)
qed

section \<open>The spinlock\<close>

text \<open>Whatever the other threads do to the lock between its accesses, an acquisition makes at
  most nine of them; alone, it succeeds exactly if the lock is free, and then holds it.\<close>

theorem spinlock_acquire_bounded:
  "fst (snd (versioned_spinlock_acquire env l)) \<le> 9 \<and>
   fst (versioned_spinlock_acquire alone l) = (\<not> vlock l) \<and>
   snd (snd (versioned_spinlock_acquire alone l)) = l\<lparr>vlock := True\<rparr>"
  using versioned_spinlock_acquire_bounded by (simp add: versioned_spinlock_acquire_alone)

text \<open>Words of a power-of-two size whose indices differ by less than \<open>NUM_LOCKS\<close> never share a
  lock: a write set of up to \<open>NUM_LOCKS\<close> consecutive words can be locked.\<close>

theorem consecutive_words_lockable:
  assumes "all_free lk" and "unat a + 2 ^ e * n \<le> 2 ^ 64" and "n \<le> NUM_LOCKS"
    and "map fst ws = map (\<lambda>i. a + word_of_nat (2 ^ e * i)) [0..<n]"
  shows "lockable lk ws"
proof -
  have "find_lock (a + word_of_nat (2 ^ e * i)) \<noteq> find_lock (a + word_of_nat (2 ^ e * j))"
    if "i < n" "j < n" "i < j" for i j
  proof
    have "unat a + 2 ^ e * m < 2 ^ 64" if "m < n" for m
    proof -
      have "2 ^ e * m < 2 ^ e * n" using that by simp
      with assms(2) show ?thesis by linarith
    qed
    moreover assume "find_lock (a + word_of_nat (2 ^ e * i)) = find_lock (a + word_of_nat (2 ^ e * j))"
    moreover have "j - i < NUM_LOCKS" using that assms(3) by linarith
    ultimately show False using find_lock_stride [of a e i j] that by simp
  qed
  then have "inj_on (\<lambda>i. find_lock (a + word_of_nat (2 ^ e * i))) {0..<n}"
    by (metis (no_types, lifting) atLeastLessThan_iff inj_onI nat_neq_iff)
  moreover have "stripes ws = map find_lock (map fst ws)" by simp
  then have "stripes ws = map (\<lambda>i. find_lock (a + word_of_nat (2 ^ e * i))) [0..<n]"
    unfolding assms(4) by simp
  ultimately show ?thesis
    using assms(1) by (simp add: lockable_def all_free_def distinct_map del: map_map)
qed

theorem consecutive_words_lockable_witness:
  "lockable (lock sample_region) [(1024, []), (1032, []), (1040, [])]"
  by (rule consecutive_words_lockable [of _ 1024 3 3])
    (simp_all add: all_free_def upt_rec NUM_LOCKS_def)

end
