(* ===== verification/Segments.thy ===== *)
theory Segments
  imports Tm_Refine
begin

text \<open>
  The list of allocated segments of a region: \<open>tm_create\<close>, \<open>tm_alloc\<close> and \<open>tm_destroy\<close> of
  \<open>335740/tm.c\<close>. \<open>seg_list\<close> is the doubly linked list in the heap. The theorems say that an
  allocation puts a zeroed segment at the head of the list, which alignments the segments and
  the regions can have, and that the destruction gives back exactly what the region owns.
\<close>

section \<open>The doubly linked list\<close>

fun seg_list :: "(addr \<Rightarrow> obj option) \<Rightarrow> addr \<Rightarrow> addr \<Rightarrow> addr list \<Rightarrow> bool" where
  "seg_list h before p [] \<longleftrightarrow> p = NULL"
| "seg_list h before p (q # qs) \<longleftrightarrow> p = q \<and> q \<noteq> NULL \<and>
     (\<exists>after. h q = Some (Seg \<lparr>sn_prev = before, sn_next = after\<rparr>) \<and> seg_list h q after qs)"

lemma seg_list_cong:
  "(\<And>q. q \<in> set ps \<Longrightarrow> h q = h' q) \<Longrightarrow> seg_list h b p ps = seg_list h' b p ps"
  by (induction ps arbitrary: b p) auto

lemma seg_list_chain: "seg_list h b p ps \<Longrightarrow> chain sn_link h p ps"
proof (induction ps arbitrary: b p)
  case (Cons q qs)
  then obtain after where "p = q" "q \<noteq> NULL" "h q = Some (Seg \<lparr>sn_prev = b, sn_next = after\<rparr>)"
    "seg_list h q after qs" by auto
  with Cons.IH show ?case by (simp add: sn_link_def)
qed simp

lemma seg_list_live: "seg_list h b p ps \<Longrightarrow> q \<in> set ps \<Longrightarrow> q \<noteq> NULL \<and> h q \<noteq> None"
  by (induction ps arbitrary: b p) auto

lemma seg_list_distinct: "seg_list h b p ps \<Longrightarrow> distinct ps"
  using seg_list_chain sn.chain_distinct by blast

text \<open>Pushing a node in front, with the old head's \<open>prev\<close> set to it.\<close>

lemma seg_list_push:
  assumes "seg_list h NULL p ps" and "q \<notin> set ps" and "q \<noteq> NULL"
  shows "seg_list ((case ps of [] \<Rightarrow> h
       | r # rs \<Rightarrow> h(r := Some (Seg \<lparr>sn_prev = q, sn_next = (case rs of [] \<Rightarrow> NULL | x # _ \<Rightarrow> x)\<rparr>)))
     (q := Some (Seg \<lparr>sn_prev = NULL, sn_next = p\<rparr>))) NULL q (q # ps)"
proof (cases ps)
  case Nil
  with assms show ?thesis by simp
next
  case (Cons r rs)
  then have dist: "r \<notin> set rs" using seg_list_distinct [OF assms(1)] by simp
  obtain after where a: "p = r" "r \<noteq> NULL" "seg_list h r after rs" using assms(1) Cons by auto
  let ?h = "h(r := Some (Seg \<lparr>sn_prev = q, sn_next = (case rs of [] \<Rightarrow> NULL | x # _ \<Rightarrow> x)\<rparr>),
              q := Some (Seg \<lparr>sn_prev = NULL, sn_next = p\<rparr>))"
  have "seg_list ?h r after rs = seg_list h r after rs"
    by (rule seg_list_cong) (use dist assms(2) Cons in auto)
  moreover have "after = (case rs of [] \<Rightarrow> NULL | x # _ \<Rightarrow> x)" using a(3) by (cases rs) auto
  ultimately show ?thesis using Cons a assms(2,3) by auto
qed

section \<open>Allocation\<close>

lemma heap_writes_keep_mem:
  "put p ob s = Some s' \<Longrightarrow> mem s' = mem s \<and> answers s' = answers s"
  "free p s = Some s' \<Longrightarrow> mem s' = mem s \<and> answers s' = answers s"
  by (auto simp: put_def free_def split: if_splits)

lemma segment_lock_restored:
  "\<not> segment_lock lk \<Longrightarrow> lk\<lparr>segment_lock := True\<rparr>\<lparr>segment_lock := False\<rparr> = lk"
  by (cases lk) simp

lemma posix_memalign_ok:
  assumes "posix_memalign al n s = (0, p, s1)"
  shows "p \<noteq> NULL" and "heap s p = None" and "aligned (unat al) p" and "mem s1 = mem s"
    and "heap s1 = (heap s)(p := Some (Uninit n))"
  using assms by (auto simp: posix_memalign_def split: if_splits list.splits)

lemma posix_memalign_fails:
  "posix_memalign al n s = (e, p, s1) \<Longrightarrow> e \<noteq> 0 \<Longrightarrow> heap s1 = heap s \<and> mem s1 = mem s"
  by (auto simp: posix_memalign_def split: if_splits list.splits)

lemma tm_alloc_facts:
  assumes "seg_list (heap s) NULL (allocs rg) ps" and "\<not> segment_lock (lock rg)"
    and "posix_memalign (if align rg < 8 then 8 else align rg) (unat (16 + sz)) s = (0, sn, s1)"
  shows "\<exists>s'. tm_alloc rg tx sz s = Some (success_alloc, Some (sn + 16), rg\<lparr>allocs := sn\<rparr>, s') \<and>
    seg_list (heap s') NULL sn (sn # ps) \<and>
    mem s' = store (mem s) (sn + 16) (replicate (unat sz) 0) \<and> answers s' = answers s1 \<and>
    (\<forall>p. p \<noteq> sn \<and> p \<notin> set ps \<longrightarrow> heap s' p = heap s p)"
proof -
  note pm = posix_memalign_ok [OF assms(3)]
  have new: "sn \<notin> set ps" using seg_list_live [OF assms(1)] pm(2) by blast
  let ?h = "(case ps of [] \<Rightarrow> heap s
       | r # rs \<Rightarrow> (heap s)(r := Some (Seg \<lparr>sn_prev = sn, sn_next = (case rs of [] \<Rightarrow> NULL | x # _ \<Rightarrow> x)\<rparr>)))
     (sn := Some (Seg \<lparr>sn_prev = NULL, sn_next = allocs rg\<rparr>))"
  have res: "\<exists>s'. tm_alloc rg tx sz s = Some (success_alloc, Some (sn + 16), rg\<lparr>allocs := sn\<rparr>, s') \<and>
      heap s' = ?h \<and> mem s' = store (mem s) (sn + 16) (replicate (unat sz) 0) \<and> answers s' = answers s1"
  proof (cases ps)
    case Nil
    then have "allocs rg = NULL" using assms(1) by simp
    then show ?thesis
      using assms(2,3) pm Nil
      by (simp add: tm_alloc_def put_def deref_def shared_lock_segment_lock_acquire_def
          shared_lock_segment_lock_release_def memset0_def segment_lock_restored Let_def)
  next
    case (Cons r rs)
    then obtain after where a: "allocs rg = r" "r \<noteq> NULL" "seg_list (heap s) r after rs"
      "heap s r = Some (Seg \<lparr>sn_prev = NULL, sn_next = after\<rparr>)" using assms(1) by auto
    have "after = (case rs of [] \<Rightarrow> NULL | x # _ \<Rightarrow> x)" using a(3) by (cases rs) auto
    moreover have "r \<noteq> sn" using new Cons by auto
    ultimately show ?thesis
      using assms(2,3) pm Cons a
      by (simp add: tm_alloc_def put_def get_seg_def deref_def shared_lock_segment_lock_acquire_def
          shared_lock_segment_lock_release_def memset0_def segment_lock_restored Let_def fun_upd_twist)
  qed
  moreover have "seg_list ?h NULL sn (sn # ps)" by (rule seg_list_push [OF assms(1) new pm(1)])
  moreover have "\<forall>p. p \<noteq> sn \<and> p \<notin> set ps \<longrightarrow> ?h p = heap s p" by (cases ps) auto
  ultimately show ?thesis by metis
qed

text \<open>When \<open>posix_memalign\<close> delivers memory, \<open>tm_alloc\<close> succeeds whatever the transaction: the
  new node becomes the head of the doubly linked list in front of the old ones, the segment behind
  its 16 bytes is zeroed, the region changes in nothing else, and the lock is free again.\<close>

theorem tm_alloc_links:
  assumes "seg_list (heap s) NULL (allocs rg) ps" and "\<not> segment_lock (lock rg)"
    and "posix_memalign (if align rg < 8 then 8 else align rg) (unat (16 + sz)) s = (0, sn, s1)"
  shows "\<exists>s'. tm_alloc rg tx sz s = Some (success_alloc, Some (sn + 16), rg\<lparr>allocs := sn\<rparr>, s') \<and>
    seg_list (heap s') NULL sn (sn # ps) \<and>
    mem s' = store (mem s) (sn + 16) (replicate (unat sz) 0) \<and>
    (\<forall>p. p \<noteq> sn \<and> p \<notin> set ps \<longrightarrow> heap s' p = heap s p)"
  using tm_alloc_facts [OF assms] by blast

definition empty_region :: region where
  "empty_region =
     \<lparr>lock = \<lparr>clock = 0, locks = (\<lambda>_. \<lparr>vlock = False, version = 0\<rparr>), segment_lock = False\<rparr>,
      start = 1024, allocs = NULL, region_size = 1024, align = 32\<rparr>"

definition fresh_state :: cstate where
  "fresh_state = \<lparr>heap = (\<lambda>_. None), mem = (\<lambda>_. 7), answers = [4096, 8192]\<rparr>"

lemma power_of_two_simps: "power_of_two 8" "power_of_two 32" "\<not> power_of_two 0"
proof -
  show "power_of_two 8" unfolding power_of_two_def
    by simp (rule image_eqI [of _ _ 3], simp_all)
  show "power_of_two 32" unfolding power_of_two_def
    by simp (rule image_eqI [of _ _ 5], simp_all)
  show "\<not> power_of_two 0" unfolding power_of_two_def by auto
qed

lemma fresh_memalign:
  "posix_memalign 32 n fresh_state =
     (0, 4096, fresh_state\<lparr>heap := (heap fresh_state)(4096 := Some (Uninit n)), answers := [8192]\<rparr>)"
  by (simp add: posix_memalign_def power_of_two_simps fresh_state_def aligned_def)

theorem tm_alloc_links_witness:
  "\<exists>s'. tm_alloc empty_region 0 64 fresh_state =
     Some (success_alloc, Some 4112, empty_region\<lparr>allocs := 4096\<rparr>, s') \<and>
     seg_list (heap s') NULL 4096 [4096]"
  using tm_alloc_links [of fresh_state empty_region "[]" 64 4096 _ 0] fresh_memalign [of 80]
  by (auto simp: empty_region_def)

text \<open>C30: The segments \<open>tm_alloc\<close> hands out are aligned to the region's alignment only if that
  divides 16: with an alignment of 32 bytes or more, every segment starts 16 bytes behind an aligned
  address.\<close>

theorem tm_alloc_alignment:
  assumes "tm_alloc rg tx sz s = Some (success_alloc, Some seg, rg', s')"
    and "word_size (unat (align rg))" and "8 \<le> unat (align rg)"
  shows "aligned (unat (align rg)) seg \<longleftrightarrow> 16 mod unat (align rg) = 0"
proof -
  let ?al = "unat (align rg)"
  have "\<not> align rg < 8" using assms(3) by (simp add: word_less_nat_alt)
  then obtain e sn s1 where pm: "posix_memalign (align rg) (unat (16 + sz)) s = (e, sn, s1)"
    by (metis prod_cases3)
  have e0: "e = 0 \<and> seg = sn + 16"
    using assms(1) pm \<open>\<not> align rg < 8\<close>
    by (auto simp: tm_alloc_def bind_simps split: if_splits)
  then have al: "aligned ?al sn" using posix_memalign_ok(3) pm by blast
  have dvd: "?al dvd 2 ^ 64" using assms(2) by (simp add: word_size_def dvd_eq_mod_eq_0)
  have "(unat (sn + 16)) mod ?al = (unat sn + 16) mod ?al"
  proof -
    have "unat (sn + 16) = (unat sn + 16) mod 2 ^ 64" by (simp add: unat_word_ariths)
    then show ?thesis using dvd by (simp add: mod_mod_cancel)
  qed
  also have "\<dots> = 16 mod ?al"
    using al unfolding aligned_def by (metis add.commute mod_add_cong add_0 mod_mod_trivial)
  finally show ?thesis using e0 by (simp add: aligned_def)
qed

theorem tm_alloc_alignment_witness:
  "\<exists>seg rg' s'. tm_alloc empty_region 0 64 fresh_state = Some (success_alloc, Some seg, rg', s') \<and>
     \<not> aligned 32 seg"
proof -
  have r: "unat (align empty_region) = 32" by (simp add: empty_region_def)
  obtain s' where a: "tm_alloc empty_region 0 64 fresh_state =
      Some (success_alloc, Some 4112, empty_region\<lparr>allocs := 4096\<rparr>, s')"
    using fresh_memalign [of 80]
    by (auto simp: empty_region_def tm_alloc_def put_def deref_def fresh_state_def
        shared_lock_segment_lock_acquire_def shared_lock_segment_lock_release_def Let_def)
  with tm_alloc_alignment [OF a] r show ?thesis by (auto simp: word_size_def)
qed

section \<open>Creating and destroying a region\<close>

lemma malloc_cases:
  assumes "malloc n s = (p, s1)"
  obtains "p = NULL" and "heap s1 = heap s" and "mem s1 = mem s"
  | "p \<noteq> NULL" and "heap s p = None" and "heap s1 = (heap s)(p := Some (Uninit n))" and "mem s1 = mem s"
proof -
  have "(p = NULL \<and> heap s1 = heap s \<and> mem s1 = mem s) \<or>
    (p \<noteq> NULL \<and> heap s p = None \<and> heap s1 = (heap s)(p := Some (Uninit n)) \<and> mem s1 = mem s)"
    using assms unfolding malloc_def
    by (cases "answers s") (simp_all split: if_splits, auto simp del: fun_upd_apply)
  then show thesis using that by blast
qed

lemma init_clock: "clock (shared_lock_init junk) = 0" "\<not> segment_lock (shared_lock_init junk)"
  by (simp_all add: shared_lock_init_def)

text \<open>C29: \<open>tm_create\<close> always returns. On failure it answers \<open>invalid_shared\<close> and leaves the heap and
  the memory as they were. It succeeds only for alignments that are powers of two and multiples of
  8; the new region then has the requested size and alignment, no dynamic segments, a zeroed first
  segment at an aligned address, the clock and all versions at 0 and every lock free.\<close>

theorem tm_create_outcome:
  "\<exists>p r s'. tm_create junk sz al s = Some (p, r, s') \<and>
     (case r of
        None \<Rightarrow> p = NULL \<and> heap s' = heap s \<and> mem s' = mem s
      | Some rg \<Rightarrow> p \<noteq> NULL \<and> power_of_two al \<and> unat al mod 8 = 0 \<and> aligned (unat al) (start rg) \<and>
          region_size rg = sz \<and> align rg = al \<and> seg_list (heap s') NULL (allocs rg) [] \<and>
          clock (lock rg) = 0 \<and> all_free (lock rg) \<and> (\<forall>a. ver (lock rg) a = 0) \<and>
          \<not> segment_lock (lock rg) \<and>
          mem s' = store (mem s) (start rg) (replicate (unat sz) 0) \<and>
          p \<noteq> start rg \<and> heap s p = None \<and> heap s (start rg) = None \<and>
          heap s' = (heap s)(p \<mapsto> Uninit 40072, start rg \<mapsto> Uninit (unat sz)))"
proof -
  obtain p s1 where m: "malloc 40072 s = (p, s1)" by fastforce
  then show ?thesis
  proof (cases rule: malloc_cases)
    case 1
    with m show ?thesis by (simp add: tm_create_def)
  next
    case 2
    obtain e st s2 where pm: "posix_memalign al (unat sz) s1 = (e, st, s2)" by (metis prod_cases3)
    show ?thesis
    proof (cases "e = 0")
      case True
      note ok = posix_memalign_ok [OF pm [unfolded True]]
      have "power_of_two al \<and> unat al mod 8 = 0"
        using pm True by (auto simp: posix_memalign_def split: if_splits)
      moreover have "p \<noteq> st" "heap s st = None" using ok(2) 2 by (auto split: if_splits)
      ultimately show ?thesis
        using m 2 pm True ok
        by (simp add: tm_create_def Let_def memset0_def all_free_def init_clock)
    next
      case False
      note f = posix_memalign_fails [OF pm False]
      have "free p s2 = Some (s2\<lparr>heap := (heap s2)(p := None)\<rparr>)" using 2 f by (simp add: free_def)
      moreover have "(heap s2)(p := None) = heap s" using 2 f by (simp add: fun_upd_idem)
      ultimately show ?thesis using m 2 pm False f by (simp add: tm_create_def)
    qed
  qed
qed

lemma free_segments_frees:
  "seg_list (heap s) b p ps \<Longrightarrow> free_segments p s = Some (s\<lparr>heap := without ps (heap s)\<rparr>)"
proof (induction ps arbitrary: b p s)
  case Nil
  then show ?case by (subst free_segments.simps) simp
next
  case (Cons q qs)
  then obtain after where q: "p = q" "q \<noteq> NULL" "heap s q = Some (Seg \<lparr>sn_prev = b, sn_next = after\<rparr>)"
    "seg_list (heap s) q after qs" by auto
  have "q \<notin> set qs" using seg_list_distinct [OF Cons.prems] by simp
  then have "seg_list ((heap s)(q := None)) q after qs"
    using q(4) by (subst seg_list_cong [of _ _ "heap s"]) auto
  then have "free_segments after (s\<lparr>heap := (heap s)(q := None)\<rparr>) =
      Some (s\<lparr>heap := without qs ((heap s)(q := None))\<rparr>)"
    using Cons.IH [of "s\<lparr>heap := (heap s)(q := None)\<rparr>" q after] by (simp del: fun_upd_apply)
  with q show ?case
    by (subst free_segments.simps) (simp add: get_seg_def deref_def free_def without_Cons)
qed

text \<open>The destruction frees each dynamic segment once, the first segment and the region itself.\<close>

lemma tm_destroy_frees:
  assumes "seg_list (heap s) NULL (allocs rg) ps" and "\<not> segment_lock (lock rg)"
    and "heap s (start rg) \<noteq> None" and "heap s shared \<noteq> None"
    and "start rg \<noteq> NULL" and "shared \<noteq> NULL" and "start rg \<noteq> shared"
    and "start rg \<notin> set ps" and "shared \<notin> set ps"
  shows "tm_destroy shared rg s = Some (s\<lparr>heap := without (ps @ [start rg, shared]) (heap s)\<rparr>)"
proof -
  have w: "without ps (heap s) (start rg) = heap s (start rg)" "without ps (heap s) shared = heap s shared"
    using assms(8,9) by (simp_all add: without_def)
  show ?thesis
    using assms(2-7) w
    by (simp add: tm_destroy_def free_segments_frees [OF assms(1)] shared_lock_cleanup_def free_def
        without_append without_Cons)
qed

lemma tm_destroy_frees_witness:
  "tm_destroy 512 empty_region (fresh_state\<lparr>heap := [1024 \<mapsto> Raw, 512 \<mapsto> Raw]\<rparr>) =
     Some (fresh_state\<lparr>heap := without [1024, 512] [1024 \<mapsto> Raw, 512 \<mapsto> Raw]\<rparr>)"
  using tm_destroy_frees [of "fresh_state\<lparr>heap := [1024 \<mapsto> Raw, 512 \<mapsto> Raw]\<rparr>" empty_region "[]" 512]
  by (simp add: empty_region_def)

end
