(* ===== verification/Concurrent_Segments.thy ===== *)
theory Concurrent_Segments
  imports Segments
begin

text \<open>
  \<open>tm_alloc\<close> of \<open>335740/tm.c\<close> run by many threads on one region: its body cut at the accesses of
  the shared list of segments and of the mutex. Whatever the interleaving, the list stays well
  formed and holds exactly the segments handed out.
\<close>

section \<open>The steps\<close>

text \<open>Before which statement of \<open>tm_alloc\<close> a thread is, with its node and the requested size.\<close>

datatype alloc_place =
    Out
  | SetPrev addr csize | Acquire addr csize | SetNext addr csize | SetBack addr csize
  | SetHead addr csize | Release addr csize | Clear addr csize

record alloc_world =
  a_region :: region
  a_c :: cstate
  a_place :: "nat \<Rightarrow> alloc_place"
  a_returned :: "addr list"

definition a_goto :: "nat \<Rightarrow> alloc_place \<Rightarrow> alloc_world \<Rightarrow> alloc_world" where
  "a_goto i p w = w\<lparr>a_place := (a_place w)(i := p)\<rparr>"

text \<open>
  The next statement of thread \<open>i\<close>, where a call that begins asks for \<open>sz\<close> bytes. A thread that
  finds the mutex locked stays; \<open>a_returned\<close> records the nodes of the segments returned.
\<close>

definition alloc_step :: "nat \<Rightarrow> csize \<Rightarrow> alloc_world \<Rightarrow> alloc_world option" where
  "alloc_step i sz w =
     (case a_place w i of
        Out \<Rightarrow>
          (let al = (if align (a_region w) < 8 then 8 else align (a_region w));
               (err, sn, c) = posix_memalign al (unat (16 + sz)) (a_c w) in
           if err \<noteq> 0 then Some (w\<lparr>a_c := c\<rparr>) else Some (a_goto i (SetPrev sn sz) (w\<lparr>a_c := c\<rparr>)))
      | SetPrev sn sz \<Rightarrow> do {
          c \<leftarrow> put sn (Seg \<lparr>sn_prev = NULL, sn_next = NULL\<rparr>) (a_c w);
          Some (a_goto i (Acquire sn sz) (w\<lparr>a_c := c\<rparr>))
        }
      | Acquire sn sz \<Rightarrow>
          (case shared_lock_segment_lock_acquire (lock (a_region w)) of
             None \<Rightarrow> Some w
           | Some lk \<Rightarrow> Some (a_goto i (SetNext sn sz) (w\<lparr>a_region := (a_region w)\<lparr>lock := lk\<rparr>\<rparr>)))
      | SetNext sn sz \<Rightarrow> do {
          n \<leftarrow> get_seg (a_c w) sn;
          c \<leftarrow> put sn (Seg (n\<lparr>sn_next := allocs (a_region w)\<rparr>)) (a_c w);
          Some (a_goto i (SetBack sn sz) (w\<lparr>a_c := c\<rparr>))
        }
      | SetBack sn sz \<Rightarrow> do {
          n \<leftarrow> get_seg (a_c w) sn;
          c \<leftarrow> (if sn_next n \<noteq> NULL then do {
                   q \<leftarrow> get_seg (a_c w) (sn_next n);
                   put (sn_next n) (Seg (q\<lparr>sn_prev := sn\<rparr>)) (a_c w)
                 }
                 else Some (a_c w));
          Some (a_goto i (SetHead sn sz) (w\<lparr>a_c := c\<rparr>))
        }
      | SetHead sn sz \<Rightarrow> Some (a_goto i (Release sn sz) (w\<lparr>a_region := (a_region w)\<lparr>allocs := sn\<rparr>\<rparr>))
      | Release sn sz \<Rightarrow> do {
          lk \<leftarrow> shared_lock_segment_lock_release (lock (a_region w));
          Some (a_goto i (Clear sn sz) (w\<lparr>a_region := (a_region w)\<lparr>lock := lk\<rparr>\<rparr>))
        }
      | Clear sn sz \<Rightarrow>
          Some (a_goto i Out (w\<lparr>a_c := memset0 (sn + 16) sz (a_c w), a_returned := sn # a_returned w\<rparr>)))"

fun alloc_run :: "(nat \<times> csize) list \<Rightarrow> alloc_world \<Rightarrow> alloc_world option" where
  "alloc_run [] w = Some w"
| "alloc_run ((i, sz) # is) w = Option.bind (alloc_step i sz w) (alloc_run is)"

section \<open>The invariant\<close>

fun node_of :: "alloc_place \<Rightarrow> addr option" where
  "node_of Out = None"
| "node_of (SetPrev p z) = Some p"
| "node_of (Acquire p z) = Some p"
| "node_of (SetNext p z) = Some p"
| "node_of (SetBack p z) = Some p"
| "node_of (SetHead p z) = Some p"
| "node_of (Release p z) = Some p"
| "node_of (Clear p z) = Some p"

fun inside :: "alloc_place \<Rightarrow> bool" where
  "inside (SetNext p z) = True"
| "inside (SetBack p z) = True"
| "inside (SetHead p z) = True"
| "inside (Release p z) = True"
| "inside _ = False"

text \<open>The node a thread has linked, but not returned yet.\<close>

fun linked :: "alloc_place \<Rightarrow> addr set" where
  "linked (SetHead p z) = {p}"
| "linked (Release p z) = {p}"
| "linked (Clear p z) = {p}"
| "linked _ = {}"

definition first :: "addr list \<Rightarrow> addr" where
  "first ps = (case ps of [] \<Rightarrow> NULL | p # _ \<Rightarrow> p)"

text \<open>A node that is allocated, but not in the list.\<close>

definition apart :: "(addr \<Rightarrow> obj option) \<Rightarrow> addr list \<Rightarrow> addr \<Rightarrow> bool" where
  "apart h ps p \<longleftrightarrow> p \<noteq> NULL \<and> p \<notin> set ps \<and> h p \<noteq> None"

definition place_ok :: "(addr \<Rightarrow> obj option) \<Rightarrow> addr list \<Rightarrow> alloc_place \<Rightarrow> bool" where
  "place_ok h ps x \<longleftrightarrow>
     (case x of
        Out \<Rightarrow> True
      | SetPrev p z \<Rightarrow> apart h ps p
      | Acquire p z \<Rightarrow> apart h ps p \<and> h p = Some (Seg \<lparr>sn_prev = NULL, sn_next = NULL\<rparr>)
      | SetNext p z \<Rightarrow> apart h ps p \<and> h p = Some (Seg \<lparr>sn_prev = NULL, sn_next = NULL\<rparr>)
      | SetBack p z \<Rightarrow> apart h ps p \<and> h p = Some (Seg \<lparr>sn_prev = NULL, sn_next = first ps\<rparr>)
      | SetHead p z \<Rightarrow> (\<exists>qs. ps = p # qs)
      | Release p z \<Rightarrow> p \<in> set ps
      | Clear p z \<Rightarrow> p \<in> set ps)"

text \<open>Who is inside holds the mutex, alone; until it has set the head, that is behind the list.\<close>

definition at_head :: "nat \<Rightarrow> (nat \<Rightarrow> alloc_place) \<Rightarrow> bool" where
  "at_head n pl \<longleftrightarrow> (\<exists>i < n. \<exists>p z. pl i = SetHead p z)"

definition mutex_ok :: "nat \<Rightarrow> addr list \<Rightarrow> region \<Rightarrow> (nat \<Rightarrow> alloc_place) \<Rightarrow> bool" where
  "mutex_ok n ps rg pl \<longleftrightarrow>
     (segment_lock (lock rg) \<longleftrightarrow> (\<exists>i < n. inside (pl i))) \<and>
     (\<forall>i < n. \<forall>j < n. inside (pl i) \<longrightarrow> inside (pl j) \<longrightarrow> i = j) \<and>
     allocs rg = first (if at_head n pl then tl ps else ps)"

text \<open>No node has two owners; \<open>ps0\<close> are the segments of before.\<close>

definition owners_ok :: "nat \<Rightarrow> addr list \<Rightarrow> addr list \<Rightarrow> addr list \<Rightarrow> (nat \<Rightarrow> alloc_place) \<Rightarrow> bool" where
  "owners_ok n ps0 ps ret pl \<longleftrightarrow>
     (\<forall>i < n. \<forall>j < n. \<forall>p. node_of (pl i) = Some p \<longrightarrow> node_of (pl j) = Some p \<longrightarrow> i = j) \<and>
     (\<forall>i < n. \<forall>p. node_of (pl i) = Some p \<longrightarrow> p \<notin> set ret \<and> p \<notin> set ps0) \<and>
     distinct ret \<and> set ret \<inter> set ps0 = {} \<and>
     set ps = set ps0 \<union> set ret \<union> (\<Union>i \<in> {..<n}. linked (pl i))"

definition alloc_inv :: "nat \<Rightarrow> addr list \<Rightarrow> addr list \<Rightarrow> alloc_world \<Rightarrow> bool" where
  "alloc_inv n ps0 ps w \<longleftrightarrow>
     seg_list (heap (a_c w)) NULL (first ps) ps \<and>
     (\<forall>i < n. place_ok (heap (a_c w)) ps (a_place w i)) \<and>
     mutex_ok n ps (a_region w) (a_place w) \<and>
     owners_ok n ps0 ps (a_returned w) (a_place w)"

lemmas alloc_access = alloc_step_def put_def get_seg_def deref_def Let_def a_goto_def
  shared_lock_segment_lock_acquire_def shared_lock_segment_lock_release_def

subsection \<open>What a step leaves alone\<close>

lemma place_ok_cong:
  "place_ok h ps x \<Longrightarrow> (\<And>p. node_of x = Some p \<Longrightarrow> p \<notin> set ps \<Longrightarrow> h' p = h p) \<Longrightarrow> place_ok h' ps x"
  by (auto simp: place_ok_def apart_def split: alloc_place.splits)

text \<open>Writing to a node that is not in the list and belongs to thread \<open>i\<close>, or to nobody.\<close>

lemma write_apart:
  assumes "alloc_inv n ps0 ps w" and "p \<notin> set ps" and "\<And>j. j < n \<Longrightarrow> node_of (a_place w j) = Some p \<Longrightarrow> j = i"
  shows "seg_list ((heap (a_c w))(p := r)) NULL (first ps) ps" and
    "j < n \<Longrightarrow> j \<noteq> i \<Longrightarrow> place_ok ((heap (a_c w))(p := r)) ps (a_place w j)"
proof -
  have "seg_list (heap (a_c w)) NULL (first ps) ps" using assms(1) by (simp add: alloc_inv_def)
  then show "seg_list ((heap (a_c w))(p := r)) NULL (first ps) ps"
    using assms(2) by (subst seg_list_cong [of _ _ "heap (a_c w)"]) auto
next
  assume j: "j < n" "j \<noteq> i"
  have "place_ok (heap (a_c w)) ps (a_place w j)" using assms(1) j by (simp add: alloc_inv_def)
  then show "place_ok ((heap (a_c w))(p := r)) ps (a_place w j)"
    by (rule place_ok_cong) (use assms(3) j in auto)
qed

lemma owner_unique:
  assumes "alloc_inv n ps0 ps w" "i < n" "j < n" "node_of (a_place w i) = Some p" "node_of (a_place w j) = Some p"
  shows "j = i"
proof -
  have "\<forall>i < n. \<forall>j < n. \<forall>p. node_of (a_place w i) = Some p \<longrightarrow> node_of (a_place w j) = Some p \<longrightarrow> i = j"
    using assms(1) unfolding alloc_inv_def owners_ok_def by (elim conjE)
  with assms(2-) show ?thesis by blast
qed

lemma inside_unique:
  assumes "alloc_inv n ps0 ps w" "i < n" "j < n" "inside (a_place w i)" "inside (a_place w j)"
  shows "j = i"
proof -
  have "\<forall>i < n. \<forall>j < n. inside (a_place w i) \<longrightarrow> inside (a_place w j) \<longrightarrow> i = j"
    using assms(1) unfolding alloc_inv_def mutex_ok_def by (elim conjE)
  with assms(2-) show ?thesis by blast
qed

lemma owners_same:
  assumes "owners_ok n ps0 ps ret pl" and "node_of x = node_of (pl i)" and "linked x = linked (pl i)"
  shows "owners_ok n ps0 ps ret (pl(i := x))"
proof -
  have "node_of ((pl(i := x)) j) = node_of (pl j)" "linked ((pl(i := x)) j) = linked (pl j)" for j using assms by simp_all
  with assms(1) show ?thesis unfolding owners_ok_def by presburger
qed

lemma linked_all:
  assumes "i < n"
  shows "(\<Union>j \<in> {..<n}. linked (pl j)) = linked (pl i) \<union> (\<Union>j \<in> {..<n} - {i}. linked (pl j))"
    and "(\<Union>j \<in> {..<n}. linked ((pl(i := x)) j)) = linked x \<union> (\<Union>j \<in> {..<n} - {i}. linked (pl j))"
  using assms by (fastforce split: if_splits)+

lemma mutex_moved:
  assumes "mutex_ok n ps rg pl" and "inside x = inside (pl i)" and "lock rg' = lock rg"
    and "allocs rg' = first (if at_head n (pl(i := x)) then tl ps' else ps')"
  shows "mutex_ok n ps' rg' (pl(i := x))"
proof -
  have "inside ((pl(i := x)) j) = inside (pl j)" for j using assms(2) by simp
  with assms(1,3,4) show ?thesis unfolding mutex_ok_def by presburger
qed

lemma mutex_allocs: "mutex_ok n ps rg pl \<Longrightarrow> allocs rg = first (if at_head n pl then tl ps else ps)"
  by (simp add: mutex_ok_def)

lemma at_head_moved:
  "(\<And>p z. x \<noteq> SetHead p z) \<Longrightarrow> (\<And>p z. pl i \<noteq> SetHead p z) \<Longrightarrow> at_head n (pl(i := x)) = at_head n pl"
  unfolding at_head_def by (metis fun_upd_apply)

lemma mutex_same:
  assumes "mutex_ok n ps rg pl" and "inside x = inside (pl i)"
    and "\<And>p z. x \<noteq> SetHead p z" and "\<And>p z. pl i \<noteq> SetHead p z"
  shows "mutex_ok n ps rg (pl(i := x))"
  using mutex_moved [OF assms(1,2) refl] at_head_moved [of x pl i n, OF assms(3,4)] mutex_allocs [OF assms(1)] by presburger

lemma at_head_inside: "at_head n pl \<Longrightarrow> \<exists>i < n. inside (pl i)"
  by (fastforce simp: at_head_def)

text \<open>Who is inside, but not setting the head, finds the head set.\<close>

lemma not_at_head:
  assumes "alloc_inv n ps0 ps w" "i < n" "inside (a_place w i)" "\<And>p z. a_place w i \<noteq> SetHead p z"
  shows "\<not> at_head n (a_place w)" and "allocs (a_region w) = first ps"
proof -
  show no: "\<not> at_head n (a_place w)"
  proof
    assume "at_head n (a_place w)"
    then obtain j q y where j: "j < n" "a_place w j = SetHead q y" unfolding at_head_def by blast
    then have "j = i" using inside_unique [OF assms(1,2) j(1) assms(3)] by simp
    with j assms(4) show False by simp
  qed
  have "mutex_ok n ps (a_region w) (a_place w)" using assms(1) by (simp add: alloc_inv_def)
  then show "allocs (a_region w) = first ps" using mutex_allocs no by presburger
qed

text \<open>A step of thread \<open>i\<close> that writes at most its own node and neither locks nor links.\<close>

lemma own_step:
  assumes inv: "alloc_inv n ps0 ps w" and i: "i < n" and p: "node_of (a_place w i) = Some p" "p \<notin> set ps"
    and x: "place_ok ((heap (a_c w))(p := r)) ps x" "node_of x = Some p" "linked x = {}" "inside x = inside (a_place w i)"
    and h: "\<And>p z. x \<noteq> SetHead p z" "linked (a_place w i) = {}" and c: "heap c = (heap (a_c w))(p := r)"
  shows "alloc_inv n ps0 ps (a_goto i x (w\<lparr>a_c := c\<rparr>))"
proof -
  note fr = write_apart [OF inv p(2) owner_unique [OF inv i _ p(1)], where r = r]
  have "place_ok (heap c) ps (((a_place w)(i := x)) j)" if "j < n" for j
    using x(1) fr(2) [of j] c that by simp
  moreover have "a_place w i \<noteq> SetHead q z" for q z using h(2) by auto
  then have "mutex_ok n ps (a_region w) ((a_place w)(i := x))"
    using inv x(4) h(1) by (intro mutex_same [of _ _ "a_region w"]) (auto simp: alloc_inv_def)
  moreover have "owners_ok n ps0 ps (a_returned w) ((a_place w)(i := x))"
    using inv x h(2) p by (intro owners_same) (auto simp: alloc_inv_def)
  ultimately show ?thesis using fr(1) c by (simp add: alloc_inv_def a_goto_def)
qed

lemma alloc_invD:
  assumes "alloc_inv n ps0 ps w"
  shows "seg_list (heap (a_c w)) NULL (first ps) ps" and "i < n \<Longrightarrow> place_ok (heap (a_c w)) ps (a_place w i)"
    and "mutex_ok n ps (a_region w) (a_place w)" and "owners_ok n ps0 ps (a_returned w) (a_place w)"
    and "set (a_returned w) \<subseteq> set ps" and "set ps0 \<subseteq> set ps" and "i < n \<Longrightarrow> linked (a_place w i) \<subseteq> set ps"
  using assms by (auto simp: alloc_inv_def owners_ok_def)

lemma alloc_list_live: "alloc_inv n ps0 ps w \<Longrightarrow> p \<in> set ps \<Longrightarrow> p \<noteq> NULL \<and> heap (a_c w) p \<noteq> None"
  using seg_list_live alloc_invD(1) by blast

lemma node_live:
  assumes "alloc_inv n ps0 ps w" "i < n" "node_of (a_place w i) = Some p"
  shows "p \<noteq> NULL \<and> heap (a_c w) p \<noteq> None"
proof (cases "p \<in> set ps")
  case True
  then show ?thesis by (rule alloc_list_live [OF assms(1)])
next
  case False
  have "place_ok (heap (a_c w)) ps (a_place w i)" by (rule alloc_invD(2) [OF assms(1,2)])
  then show ?thesis using assms(3) False by (auto simp: place_ok_def apart_def split: alloc_place.splits)
qed

subsection \<open>Every step\<close>

lemma same_heap_inv: "alloc_inv n ps0 ps w \<Longrightarrow> heap c = heap (a_c w) \<Longrightarrow> alloc_inv n ps0 ps (w\<lparr>a_c := c\<rparr>)"
  by (simp add: alloc_inv_def)

lemma begin_step:
  assumes inv: "alloc_inv n ps0 ps w" and i: "i < n" "a_place w i = Out"
  shows "\<exists>w'. alloc_step i sz w = Some w' \<and> alloc_inv n ps0 ps w'"
proof -
  let ?al = "if align (a_region w) < 8 then 8 else align (a_region w)"
  obtain e p c where pm: "posix_memalign ?al (unat (16 + sz)) (a_c w) = (e, p, c)" by (metis prod_cases3)
  show ?thesis
  proof (cases "e = 0")
    case False
    have "heap c = heap (a_c w)" using posix_memalign_fails [OF pm False] by simp
    then have "alloc_inv n ps0 ps (w\<lparr>a_c := c\<rparr>)" by (rule same_heap_inv [OF inv])
    then show ?thesis using i pm False by (simp add: alloc_step_def Let_def)
  next
    case True
    note ok = posix_memalign_ok [OF pm [unfolded True]]
    have new: "p \<notin> set ps" using alloc_list_live [OF inv] ok(2) by blast
    have free: "node_of (a_place w j) \<noteq> Some p" if "j < n" for j using node_live [OF inv that] ok(2) by blast
    have c: "heap c = (heap (a_c w))(p := Some (Uninit (unat (16 + sz))))" by (rule ok(5))
    note fr = write_apart [OF inv new, of i, where r = "Some (Uninit (unat (16 + sz)))"]
    have "place_ok (heap c) ps (((a_place w)(i := SetPrev p sz)) j)" if "j < n" for j
      using fr(2) [of j] c that free ok(1) new by (simp add: place_ok_def apart_def)
    moreover have "mutex_ok n ps (a_region w) ((a_place w)(i := SetPrev p sz))"
      using i by (intro mutex_same [OF alloc_invD(3) [OF inv]]) simp_all
    moreover have "owners_ok n ps0 ps (a_returned w) ((a_place w)(i := SetPrev p sz))"
    proof -
      have "p \<notin> set (a_returned w)" "p \<notin> set ps0" using new alloc_invD(5,6) [OF inv] by auto
      moreover have "linked (((a_place w)(i := SetPrev p sz)) j) = linked (a_place w j)" for j using i by simp
      moreover have "\<forall>j < n. \<forall>q. node_of (a_place w j) = Some q \<longrightarrow> p \<noteq> q" using free by auto
      ultimately show ?thesis using alloc_invD(4) [OF inv] i by (auto simp: owners_ok_def)
    qed
    ultimately have "alloc_inv n ps0 ps (a_goto i (SetPrev p sz) (w\<lparr>a_c := c\<rparr>))"
      using fr(1) free c by (simp add: alloc_inv_def a_goto_def)
    then show ?thesis using i pm True by (simp add: alloc_step_def Let_def)
  qed
qed

lemma set_prev_step:
  assumes inv: "alloc_inv n ps0 ps w" and i: "i < n" "a_place w i = SetPrev p z"
  shows "\<exists>w'. alloc_step i sz w = Some w' \<and> alloc_inv n ps0 ps w'"
proof -
  have ap: "apart (heap (a_c w)) ps p" using alloc_invD(2) [OF inv i(1)] i by (simp add: place_ok_def)
  let ?r = "Some (Seg \<lparr>sn_prev = NULL, sn_next = NULL\<rparr>)"
  have "alloc_inv n ps0 ps (a_goto i (Acquire p z) (w\<lparr>a_c := a_c w\<lparr>heap := (heap (a_c w))(p := ?r)\<rparr>\<rparr>))"
    by (rule own_step [OF inv i(1), of p ?r]) (use i ap in \<open>auto simp: place_ok_def apart_def\<close>)
  then show ?thesis using i ap by (auto simp: alloc_access apart_def)
qed

lemma acquire_step:
  assumes inv: "alloc_inv n ps0 ps w" and i: "i < n" "a_place w i = Acquire p z"
  shows "\<exists>w'. alloc_step i sz w = Some w' \<and> alloc_inv n ps0 ps w'"
proof (cases "segment_lock (lock (a_region w))")
  case True
  then show ?thesis using inv i by (simp add: alloc_access)
next
  case False
  have m: "mutex_ok n ps (a_region w) (a_place w)" by (rule alloc_invD(3) [OF inv])
  have out: "\<not> inside (a_place w j)" if "j < n" for j using m False that by (auto simp: mutex_ok_def)
  let ?pl = "(a_place w)(i := SetNext p z)" and ?rg = "a_region w\<lparr>lock := lock (a_region w)\<lparr>segment_lock := True\<rparr>\<rparr>"
  have no: "\<not> at_head n (a_place w)" using at_head_inside out by blast
  then have "\<not> at_head n ?pl" using at_head_moved [of "SetNext p z" "a_place w" i n] i by simp
  then have "mutex_ok n ps ?rg ?pl"
    using mutex_allocs [OF m] no out i by (auto simp: mutex_ok_def)
  moreover have "owners_ok n ps0 ps (a_returned w) ?pl"
    by (rule owners_same [OF alloc_invD(4) [OF inv]]) (simp_all add: i)
  moreover have "place_ok (heap (a_c w)) ps (?pl j)" if "j < n" for j
    using alloc_invD(2) [OF inv that] alloc_invD(2) [OF inv i(1)] i by (auto simp: place_ok_def)
  ultimately have "alloc_inv n ps0 ps (a_goto i (SetNext p z) (w\<lparr>a_region := ?rg\<rparr>))"
    using alloc_invD(1) [OF inv] by (simp add: alloc_inv_def a_goto_def)
  then show ?thesis using i False by (simp add: alloc_step_def shared_lock_segment_lock_acquire_def)
qed

lemma set_next_step:
  assumes inv: "alloc_inv n ps0 ps w" and i: "i < n" "a_place w i = SetNext p z"
  shows "\<exists>w'. alloc_step i sz w = Some w' \<and> alloc_inv n ps0 ps w'"
proof -
  have ap: "apart (heap (a_c w)) ps p" "heap (a_c w) p = Some (Seg \<lparr>sn_prev = NULL, sn_next = NULL\<rparr>)"
    using alloc_invD(2) [OF inv i(1)] i by (simp_all add: place_ok_def)
  have al: "allocs (a_region w) = first ps" by (rule not_at_head(2) [OF inv i(1)]) (simp_all add: i)
  let ?r = "Some (Seg \<lparr>sn_prev = NULL, sn_next = first ps\<rparr>)"
  have "alloc_inv n ps0 ps (a_goto i (SetBack p z) (w\<lparr>a_c := a_c w\<lparr>heap := (heap (a_c w))(p := ?r)\<rparr>\<rparr>))"
    by (rule own_step [OF inv i(1), of p ?r]) (use i ap in \<open>auto simp: place_ok_def apart_def\<close>)
  then show ?thesis using i ap al by (auto simp: alloc_access apart_def)
qed

text \<open>Linking the old head back to the new node makes the list the longer one.\<close>

lemma set_back_step:
  assumes inv: "alloc_inv n ps0 ps w" and i: "i < n" "a_place w i = SetBack p z"
  shows "\<exists>w'. alloc_step i sz w = Some w' \<and> alloc_inv n ps0 (p # ps) w'"
proof -
  let ?h = "heap (a_c w)" and ?pl = "(a_place w)(i := SetHead p z)"
  have ap: "p \<noteq> NULL" "p \<notin> set ps" "?h p = Some (Seg \<lparr>sn_prev = NULL, sn_next = first ps\<rparr>)"
    using alloc_invD(2) [OF inv i(1)] i by (simp_all add: place_ok_def apart_def)
  have sl: "seg_list ?h NULL (first ps) ps" by (rule alloc_invD(1) [OF inv])
  define h where "h = (case ps of [] \<Rightarrow> ?h
    | r # rs \<Rightarrow> ?h(r := Some (Seg \<lparr>sn_prev = p, sn_next = (case rs of [] \<Rightarrow> NULL | x # _ \<Rightarrow> x)\<rparr>)))"
  have hp: "h p = ?h p" using ap(2) by (cases ps) (auto simp: h_def)
  have frame: "h q = ?h q" if "q \<notin> set ps" for q using that by (cases ps) (auto simp: h_def)
  have step: "alloc_step i sz w = Some (a_goto i (SetHead p z) (w\<lparr>a_c := a_c w\<lparr>heap := h\<rparr>\<rparr>))"
  proof (cases ps)
    case Nil
    then show ?thesis using i ap by (simp add: alloc_access first_def h_def)
  next
    case (Cons r rs)
    then obtain after where a: "r \<noteq> NULL" "?h r = Some (Seg \<lparr>sn_prev = NULL, sn_next = after\<rparr>)" "seg_list ?h r after rs"
      using sl by (auto simp: first_def)
    have "after = (case rs of [] \<Rightarrow> NULL | x # _ \<Rightarrow> x)" using a(3) by (cases rs) auto
    then show ?thesis using i ap Cons a by (simp add: alloc_access first_def h_def)
  qed
  have "seg_list h NULL p (p # ps)"
  proof -
    have "h(p := Some (Seg \<lparr>sn_prev = NULL, sn_next = first ps\<rparr>)) = h" using hp ap(3) by (simp add: fun_upd_idem)
    then show ?thesis using seg_list_push [OF sl ap(2,1)] by (simp add: h_def)
  qed
  moreover have "place_ok h (p # ps) (?pl j)" if j: "j < n" for j
  proof (cases "j = i")
    case False
    have "\<not> inside (a_place w j)" using inside_unique [OF inv i(1) j] False i by auto
    moreover have "node_of (a_place w j) \<noteq> Some p" using owner_unique [OF inv i(1) j] False i by auto
    ultimately show ?thesis using alloc_invD(2) [OF inv j] False frame
      by (auto simp: place_ok_def apart_def split: alloc_place.splits)
  qed (simp add: place_ok_def)
  moreover have "mutex_ok n (p # ps) (a_region w) ?pl"
  proof (rule mutex_moved [OF alloc_invD(3) [OF inv]])
    have "at_head n ?pl" using i(1) unfolding at_head_def by auto
    moreover have "allocs (a_region w) = first ps" by (rule not_at_head(2) [OF inv i(1)]) (simp_all add: i)
    ultimately show "allocs (a_region w) = first (if at_head n ?pl then tl (p # ps) else p # ps)" by simp
  qed (simp_all add: i)
  moreover have "owners_ok n ps0 (p # ps) (a_returned w) ?pl"
  proof -
    have "node_of (?pl j) = node_of (a_place w j)" for j using i by simp
    moreover have "(\<Union>j \<in> {..<n}. linked (?pl j)) = insert p (\<Union>j \<in> {..<n}. linked (a_place w j))"
      using linked_all [OF i(1), of "a_place w"] i(2) by simp
    ultimately show ?thesis using alloc_invD(4) [OF inv] by (simp add: owners_ok_def)
  qed
  ultimately have "alloc_inv n ps0 (p # ps) (a_goto i (SetHead p z) (w\<lparr>a_c := a_c w\<lparr>heap := h\<rparr>\<rparr>))"
    by (simp add: alloc_inv_def a_goto_def first_def)
  with step show ?thesis by blast
qed

lemma set_head_step:
  assumes inv: "alloc_inv n ps0 ps w" and i: "i < n" "a_place w i = SetHead p z"
  shows "\<exists>w'. alloc_step i sz w = Some w' \<and> alloc_inv n ps0 ps w'"
proof -
  let ?pl = "(a_place w)(i := Release p z)" and ?rg = "a_region w\<lparr>allocs := p\<rparr>"
  obtain qs where ps: "ps = p # qs" using alloc_invD(2) [OF inv i(1)] i by (auto simp: place_ok_def)
  have "\<not> at_head n ?pl"
  proof
    assume "at_head n ?pl"
    then obtain j q y where j: "j < n" "?pl j = SetHead q y" unfolding at_head_def by blast
    then have "j \<noteq> i" "a_place w j = SetHead q y" by (auto split: if_splits)
    then show False using inside_unique [OF inv i(1) j(1)] i by simp
  qed
  then have "mutex_ok n ps ?rg ?pl"
    using ps by (intro mutex_moved [OF alloc_invD(3) [OF inv]]) (simp_all add: i first_def)
  moreover have "owners_ok n ps0 ps (a_returned w) ?pl"
    by (rule owners_same [OF alloc_invD(4) [OF inv]]) (simp_all add: i)
  moreover have "place_ok (heap (a_c w)) ps (?pl j)" if "j < n" for j
    using alloc_invD(2) [OF inv that] ps by (simp add: place_ok_def)
  ultimately have "alloc_inv n ps0 ps (a_goto i (Release p z) (w\<lparr>a_region := ?rg\<rparr>))"
    using alloc_invD(1) [OF inv] by (simp add: alloc_inv_def a_goto_def)
  then show ?thesis using i by (simp add: alloc_step_def)
qed

lemma release_step:
  assumes inv: "alloc_inv n ps0 ps w" and i: "i < n" "a_place w i = Release p z"
  shows "\<exists>w'. alloc_step i sz w = Some w' \<and> alloc_inv n ps0 ps w'"
proof -
  let ?pl = "(a_place w)(i := Clear p z)" and ?rg = "a_region w\<lparr>lock := lock (a_region w)\<lparr>segment_lock := False\<rparr>\<rparr>"
  have m: "mutex_ok n ps (a_region w) (a_place w)" by (rule alloc_invD(3) [OF inv])
  have out: "\<not> inside (?pl j)" if "j < n" for j using inside_unique [OF inv i(1) that] i by auto
  have locked: "segment_lock (lock (a_region w))" using m i unfolding mutex_ok_def by (metis inside.simps(4))
  have "\<not> at_head n ?pl" using at_head_inside out by blast
  moreover have "allocs (a_region w) = first ps" by (rule not_at_head(2) [OF inv i(1)]) (simp_all add: i)
  moreover have "\<not> (\<exists>j < n. inside (?pl j))" using out by blast
  ultimately have "mutex_ok n ps ?rg ?pl" unfolding mutex_ok_def by (simp del: fun_upd_apply)
  moreover have "owners_ok n ps0 ps (a_returned w) ?pl"
    by (rule owners_same [OF alloc_invD(4) [OF inv]]) (simp_all add: i)
  moreover have "place_ok (heap (a_c w)) ps (?pl j)" if "j < n" for j
    using alloc_invD(2) [OF inv that] alloc_invD(2) [OF inv i(1)] i by (auto simp: place_ok_def)
  ultimately have "alloc_inv n ps0 ps (a_goto i (Clear p z) (w\<lparr>a_region := ?rg\<rparr>))"
    using alloc_invD(1) [OF inv] by (simp add: alloc_inv_def a_goto_def)
  then show ?thesis using i locked by (simp add: alloc_step_def shared_lock_segment_lock_release_def)
qed

lemma clear_step:
  assumes inv: "alloc_inv n ps0 ps w" and i: "i < n" "a_place w i = Clear p z"
  shows "\<exists>w'. alloc_step i sz w = Some w' \<and> alloc_inv n ps0 ps w'"
proof -
  let ?pl = "(a_place w)(i := Out)"
  have "mutex_ok n ps (a_region w) ?pl" by (rule mutex_same [OF alloc_invD(3) [OF inv]]) (simp_all add: i)
  moreover have "owners_ok n ps0 ps (p # a_returned w) ?pl"
  proof -
    have o: "owners_ok n ps0 ps (a_returned w) (a_place w)" by (rule alloc_invD(4) [OF inv])
    have mine: "p \<notin> set (a_returned w)" "p \<notin> set ps0" using o i by (auto simp: owners_ok_def)
    have "node_of (a_place w j) \<noteq> Some p" if "j < n" "j \<noteq> i" for j using owner_unique [OF inv i(1) that(1)] that i by auto
    moreover have "(\<Union>j \<in> {..<n}. linked (a_place w j)) = insert p (\<Union>j \<in> {..<n}. linked (?pl j))"
      using linked_all [OF i(1), of "a_place w"] i(2) by simp
    ultimately show ?thesis using o mine by (auto simp: owners_ok_def)
  qed
  moreover have "place_ok (heap (a_c w)) ps (?pl j)" if "j < n" for j
    using alloc_invD(2) [OF inv that] by (simp add: place_ok_def)
  ultimately have "alloc_inv n ps0 ps (a_goto i Out (w\<lparr>a_c := memset0 (p + 16) z (a_c w), a_returned := p # a_returned w\<rparr>))"
    using alloc_invD(1) [OF inv] by (simp add: alloc_inv_def a_goto_def memset0_def)
  then show ?thesis using i by (simp add: alloc_step_def)
qed

section \<open>Every interleaving\<close>

lemma alloc_step_inv:
  assumes "alloc_inv n ps0 ps w" "i < n"
  shows "\<exists>w' ps'. alloc_step i sz w = Some w' \<and> alloc_inv n ps0 ps' w'"
proof (cases "a_place w i")
  case Out
  from begin_step [OF assms this, of sz] show ?thesis by blast
next
  case (SetPrev p z)
  from set_prev_step [OF assms this, of sz] show ?thesis by blast
next
  case (Acquire p z)
  from acquire_step [OF assms this, of sz] show ?thesis by blast
next
  case (SetNext p z)
  from set_next_step [OF assms this, of sz] show ?thesis by blast
next
  case (SetBack p z)
  from set_back_step [OF assms this, of sz] show ?thesis by blast
next
  case (SetHead p z)
  from set_head_step [OF assms this, of sz] show ?thesis by blast
next
  case (Release p z)
  from release_step [OF assms this, of sz] show ?thesis by blast
next
  case (Clear p z)
  from clear_step [OF assms this, of sz] show ?thesis by blast
qed

text \<open>An object that is not a node of \<open>tm_alloc\<close>, such as the region, stays as it is.\<close>

definition stranger :: "addr \<Rightarrow> alloc_world \<Rightarrow> bool" where
  "stranger q w \<longleftrightarrow> heap (a_c w) q \<noteq> None \<and> q \<notin> set (a_returned w) \<and> (\<forall>i. node_of (a_place w i) \<noteq> Some q)"

lemma alloc_step_stranger:
  assumes "alloc_step i sz w = Some w'" and q: "stranger q w"
  shows "stranger q w' \<and> start (a_region w') = start (a_region w)"
proof -
  have mine: "node_of (a_place w i) \<noteq> Some q" using q by (simp add: stranger_def)
  show ?thesis
  proof (cases "a_place w i")
    case Out
    let ?al = "if align (a_region w) < 8 then 8 else align (a_region w)"
    obtain e p c where pm: "posix_memalign ?al (unat (16 + sz)) (a_c w) = (e, p, c)" by (metis prod_cases3)
    show ?thesis
    proof (cases "e = 0")
      case True
      note ok = posix_memalign_ok [OF pm [unfolded True]]
      have "p \<noteq> q" using ok(2) q by (auto simp: stranger_def)
      then show ?thesis using assms(1) pm True Out ok q by (auto simp: alloc_step_def stranger_def a_goto_def split: if_splits)
    next
      case False
      then show ?thesis using assms(1) pm posix_memalign_fails [OF pm False] Out q
        by (auto simp: alloc_step_def stranger_def)
    qed
  next
    case (SetBack p z)
    then have "p \<noteq> q" using mine by simp
    then show ?thesis using assms SetBack
      by (auto simp: alloc_step_def put_def stranger_def a_goto_def bind_simps split: if_splits)
  next
    case (Clear p z)
    then have "p \<noteq> q" using mine by simp
    then show ?thesis using assms Clear by (auto simp: alloc_step_def stranger_def a_goto_def memset0_def split: if_splits)
  qed (use assms mine in \<open>auto simp: alloc_access stranger_def bind_simps split: if_splits option.splits\<close>)
qed

lemma alloc_run_inv:
  assumes "alloc_inv n ps0 ps w" "\<forall>(i, sz) \<in> set is. i < n"
  shows "\<exists>w' ps'. alloc_run is w = Some w' \<and> alloc_inv n ps0 ps' w'"
  using assms
proof (induction "is" arbitrary: ps w)
  case (Cons a as)
  obtain i sz where a: "a = (i, sz)" "i < n" using Cons.prems(2) by (cases a) auto
  from alloc_step_inv [OF Cons.prems(1) a(2)] obtain w1 ps1 where "alloc_step i sz w = Some w1" "alloc_inv n ps0 ps1 w1" by blast
  with Cons.IH [of ps1 w1] Cons.prems(2) a show ?case by auto
qed auto

lemma alloc_run_stranger:
  "alloc_run is w = Some w' \<Longrightarrow> stranger q w \<Longrightarrow> stranger q w' \<and> start (a_region w') = start (a_region w)"
proof (induction "is" arbitrary: w)
  case (Cons a as)
  obtain i sz where a: "a = (i, sz)" by (cases a)
  with Cons.prems obtain w1 where "alloc_step i sz w = Some w1" "alloc_run as w1 = Some w'" by (auto simp: bind_simps)
  with alloc_step_stranger Cons show ?case by metis
qed simp

text \<open>Nobody is in a call, and the region is well formed.\<close>

definition alloc_quiet :: "addr list \<Rightarrow> alloc_world \<Rightarrow> bool" where
  "alloc_quiet ps w \<longleftrightarrow> a_place w = (\<lambda>_. Out) \<and> a_returned w = [] \<and> \<not> segment_lock (lock (a_region w)) \<and>
     seg_list (heap (a_c w)) NULL (allocs (a_region w)) ps"

lemma seg_list_first: "seg_list h b p ps \<Longrightarrow> p = first ps"
  by (cases ps) (auto simp: first_def)

lemma quiet_inv: "alloc_quiet ps w \<Longrightarrow> alloc_inv n ps ps w"
  using seg_list_first [of "heap (a_c w)" NULL "allocs (a_region w)" ps]
  by (auto simp: alloc_quiet_def alloc_inv_def place_ok_def mutex_ok_def owners_ok_def at_head_def)

lemma inv_quiet:
  assumes "alloc_inv n ps0 ps w" "\<forall>i < n. a_place w i = Out"
  shows "seg_list (heap (a_c w)) NULL (allocs (a_region w)) ps" "\<not> segment_lock (lock (a_region w))"
    "set ps = set ps0 \<union> set (a_returned w)" "distinct (a_returned w)" "set (a_returned w) \<inter> set ps0 = {}"
proof -
  have m: "mutex_ok n ps (a_region w) (a_place w)" by (rule alloc_invD(3) [OF assms(1)])
  have "\<not> at_head n (a_place w)" using assms(2) by (auto simp: at_head_def)
  then have "allocs (a_region w) = first ps" using mutex_allocs [OF m] by presburger
  then show "seg_list (heap (a_c w)) NULL (allocs (a_region w)) ps" using alloc_invD(1) [OF assms(1)] by simp
  show "\<not> segment_lock (lock (a_region w))" using m assms(2) by (auto simp: mutex_ok_def)
  have "(\<Union>i \<in> {..<n}. linked (a_place w i)) = {}" using assms(2) by auto
  then show "set ps = set ps0 \<union> set (a_returned w)" "distinct (a_returned w)" "set (a_returned w) \<inter> set ps0 = {}"
    using alloc_invD(4) [OF assms(1)] by (auto simp: owners_ok_def)
qed

text \<open>Two threads, of which the second comes while the first holds the mutex.\<close>

definition alloc_start :: alloc_world where
  "alloc_start = \<lparr>a_region = empty_region, a_c = fresh_state\<lparr>heap := [1024 \<mapsto> Raw, 512 \<mapsto> Raw]\<rparr>,
     a_place = (\<lambda>_. Out), a_returned = []\<rparr>"

definition alloc_schedule :: "(nat \<times> csize) list" where
  "alloc_schedule = [(0, 64), (1, 64), (0, 0), (0, 0), (1, 0), (1, 0), (0, 0), (0, 0), (0, 0), (0, 0), (1, 0), (1, 0), (0, 0),
     (1, 0), (1, 0), (1, 0), (1, 0)]"

lemma interleaved_run:
  "\<exists>w'. alloc_run alloc_schedule alloc_start = Some w' \<and> a_returned w' = [8192, 4096] \<and> (\<forall>i < 2. a_place w' i = Out)"
  by (simp add: alloc_schedule_def alloc_start_def empty_region_def fresh_state_def alloc_access posix_memalign_def
      power_of_two_simps aligned_def memset0_def less_2_cases_iff)

text \<open>C6: However the calls of \<open>tm_alloc\<close> by any number of threads interleave, no statement of theirs
is undefined; once all have returned, the list of the region is well formed and holds the segments
of before and those handed out, each call having got one of its own; and \<open>tm_destroy\<close> then frees
each of them once, the first segment and the region, and nothing else.\<close>

theorem interleaved_allocations:
  assumes "alloc_quiet ps0 w" and "\<forall>(i, sz) \<in> set is. i < n"
    and "stranger (start (a_region w)) w" and "stranger shared w" and "start (a_region w) \<notin> set ps0" and "shared \<notin> set ps0"
    and "start (a_region w) \<noteq> NULL" and "shared \<noteq> NULL" and "start (a_region w) \<noteq> shared"
  shows "\<exists>w'. alloc_run is w = Some w' \<and>
    ((\<forall>i < n. a_place w' i = Out) \<longrightarrow>
     (\<exists>ps. seg_list (heap (a_c w')) NULL (allocs (a_region w')) ps \<and> distinct ps \<and>
       set ps = set ps0 \<union> set (a_returned w') \<and> distinct (a_returned w') \<and> set (a_returned w') \<inter> set ps0 = {} \<and>
       tm_destroy shared (a_region w') (a_c w') =
         Some (a_c w'\<lparr>heap := without (ps @ [start (a_region w), shared]) (heap (a_c w'))\<rparr>)))"
proof -
  obtain w' ps where r: "alloc_run is w = Some w'" "alloc_inv n ps0 ps w'"
    using alloc_run_inv [OF quiet_inv [OF assms(1)] assms(2)] by blast
  note st = alloc_run_stranger [OF r(1) assms(3)] alloc_run_stranger [OF r(1) assms(4)]
  have "\<exists>ps. seg_list (heap (a_c w')) NULL (allocs (a_region w')) ps \<and> distinct ps \<and>
      set ps = set ps0 \<union> set (a_returned w') \<and> distinct (a_returned w') \<and> set (a_returned w') \<inter> set ps0 = {} \<and>
      tm_destroy shared (a_region w') (a_c w') =
        Some (a_c w'\<lparr>heap := without (ps @ [start (a_region w), shared]) (heap (a_c w'))\<rparr>)" if "\<forall>i < n. a_place w' i = Out"
  proof (intro exI conjI)
    note q = inv_quiet [OF r(2) that]
    show "seg_list (heap (a_c w')) NULL (allocs (a_region w')) ps" "set ps = set ps0 \<union> set (a_returned w')"
      "distinct (a_returned w')" "set (a_returned w') \<inter> set ps0 = {}" "distinct ps"
      using q seg_list_distinct by auto
    show "tm_destroy shared (a_region w') (a_c w') =
        Some (a_c w'\<lparr>heap := without (ps @ [start (a_region w), shared]) (heap (a_c w'))\<rparr>)"
      using tm_destroy_frees [OF q(1,2), of shared] st q(3) assms(5-9) by (auto simp: stranger_def)
  qed
  with r(1) show ?thesis by blast
qed

lemma interleaved_allocations_witness:
  "\<exists>w' ps. alloc_run alloc_schedule alloc_start = Some w' \<and> a_returned w' = [8192, 4096] \<and> set ps = {4096, 8192} \<and>
     tm_destroy 512 (a_region w') (a_c w') = Some (a_c w'\<lparr>heap := without (ps @ [1024, 512]) (heap (a_c w'))\<rparr>)"
proof -
  have q: "alloc_quiet [] alloc_start" "stranger 1024 alloc_start" "stranger 512 alloc_start" "start (a_region alloc_start) = 1024"
    by (simp_all add: alloc_quiet_def stranger_def alloc_start_def empty_region_def)
  have b: "\<forall>(i, sz) \<in> set alloc_schedule. i < 2" by (simp add: alloc_schedule_def)
  obtain w' where w': "alloc_run alloc_schedule alloc_start = Some w'" "a_returned w' = [8192, 4096]" "\<forall>i < 2. a_place w' i = Out"
    using interleaved_run by blast
  show ?thesis
    using interleaved_allocations [OF q(1) b, of 512] q w' by auto
qed

end
