(* ===== verification/Concurrent.thy ===== *)
theory Concurrent
  imports Tm_Spec
begin

text \<open>
  The transactions of \<open>335740/tm.c\<close> run by many threads. A step of a thread is one atomic
  access of the C code to the state the threads share: the load or the increment of the global
  clock, one exchange, load or store of a lock bit, the load or store of a version, the
  \<open>memcpy\<close> of one word of the region (taken as indivisible). What a thread does between two
  accesses touches only its own transaction, which is the abstract one \<open>Tm_Refine\<close> shows the
  heap to represent. Which operation a thread calls next is free, so that the runs of all
  client programs are covered; \<open>exec\<close> computes a step, \<open>reachable\<close> closes it.

  Three things are history, read by no step: the number of clock increments, the commits by
  their write version, and for each word read whether it was loaded while a transaction that
  the reader has to see (its version is at most the read version) was still writing it back.
\<close>

section \<open>State\<close>

record obs =
  o_addr :: addr
  o_val :: "byte list"
  o_clean :: bool

record commit =
  c_reads :: "obs list"
  c_writes :: wset

text \<open>
  Where a thread is: outside a transaction, between two calls, before the lock and the version
  check of \<open>tm_read\<close>, and the phases of \<open>tm_end\<close> with what each loop has left to do.
\<close>

datatype pc =
    Idle
  | Active
  | RLock addr "obs option"
  | RVer addr "obs option"
  | LkX wset wset nat
  | LkS wset wset nat
  | Unl wset
  | Tick
  | VLock "addr list"
  | VVer "addr list"
  | StMem wset
  | StVer wset
  | StRel wset

record thread =
  th_pc :: pc
  th_ro :: bool
  th_rv :: cint
  th_rset :: "addr list"
  th_wset :: wset
  th_wv :: cint
  th_obs :: "obs list"

record shared =
  s_lock :: shared_lock_t
  s_mem :: "addr \<Rightarrow> byte"
  s_ticks :: nat
  s_log :: "nat \<Rightarrow> commit option"

record system =
  glob :: shared
  threads :: "nat \<Rightarrow> thread"
  count :: nat

datatype request = Begin bool | Read addr | Write addr "byte list" | End | Go

section \<open>Steps\<close>

definition at :: "pc \<Rightarrow> thread \<Rightarrow> shared \<Rightarrow> (thread \<times> shared) option" where
  "at p th G = Some (th\<lparr>th_pc := p\<rparr>, G)"

definition do_begin :: "bool \<Rightarrow> thread \<Rightarrow> shared \<Rightarrow> (thread \<times> shared) option" where
  "do_begin ro th G =
     at Active (th\<lparr>th_ro := ro, th_rv := shared_lock_global_clock_get (s_lock G),
                   th_rset := [], th_wset := [], th_obs := []\<rparr>) G"

text \<open>The copying half of a round of \<open>tm_read\<close>; \<open>cl\<close> is the history bit.\<close>

definition do_load :: "nat \<Rightarrow> (addr \<Rightarrow> bool) \<Rightarrow> addr \<Rightarrow> thread \<Rightarrow> shared \<Rightarrow> (thread \<times> shared) option" where
  "do_load al cl a th G =
     (let ob = \<lparr>o_addr = a, o_val = load (s_mem G) a al, o_clean = cl a\<rparr> in
      if th_ro th then at (RLock a (Some ob)) th G
      else case map_of (th_wset th) a of
        None \<Rightarrow> at (RLock a (Some ob)) (th\<lparr>th_rset := th_rset th @ [a]\<rparr>) G
      | Some v \<Rightarrow> at (RLock a None) th G)"

text \<open>The validation of the word: the lock bit, then the version; a failure ends the transaction.\<close>

definition do_check_lock :: "addr \<Rightarrow> obs option \<Rightarrow> thread \<Rightarrow> shared \<Rightarrow> (thread \<times> shared) option" where
  "do_check_lock a ob th G = at (if held (s_lock G) a then Idle else RVer a ob) th G"

definition do_check_ver :: "addr \<Rightarrow> obs option \<Rightarrow> thread \<Rightarrow> shared \<Rightarrow> (thread \<times> shared) option" where
  "do_check_ver a ob th G =
     (if int_gt (ver (s_lock G) a) (th_rv th) then at Idle th G
      else at Active (th\<lparr>th_obs := th_obs th @ (case ob of None \<Rightarrow> [] | Some ob \<Rightarrow> [ob])\<rparr>) G)"

definition do_write :: "addr \<Rightarrow> byte list \<Rightarrow> thread \<Rightarrow> shared \<Rightarrow> (thread \<times> shared) option" where
  "do_write a v th G = at Active (th\<lparr>th_wset := AList.update a v (th_wset th)\<rparr>) G"

definition do_end :: "thread \<Rightarrow> shared \<Rightarrow> (thread \<times> shared) option" where
  "do_end th G = (if th_ro th then at Idle th G else at (LkX [] (th_wset th) 0) th G)"

text \<open>
  \<open>lock_write_set\<close> with \<open>versioned_spinlock_acquire\<close> inside: the exchange, and the bounded
  spin on the lock bit.
\<close>

definition do_exchange :: "wset \<Rightarrow> wset \<Rightarrow> nat \<Rightarrow> thread \<Rightarrow> shared \<Rightarrow> (thread \<times> shared) option" where
  "do_exchange got todo bound th G =
     (case todo of
        [] \<Rightarrow> at Tick th G
      | w # ws \<Rightarrow>
          if held (s_lock G) (fst w) then at (LkS got todo bound) th G
          else at (LkX (got @ [w]) ws 0) th
                 (G\<lparr>s_lock := on_lock (\<lambda>l. l\<lparr>vlock := True\<rparr>) (s_lock G) (fst w)\<rparr>))"

definition do_spin :: "wset \<Rightarrow> wset \<Rightarrow> nat \<Rightarrow> thread \<Rightarrow> shared \<Rightarrow> (thread \<times> shared) option" where
  "do_spin got todo bound th G =
     (case todo of
        [] \<Rightarrow> None
      | w # ws \<Rightarrow>
          if bound > 3 then at (Unl got) th G
          else if held (s_lock G) (fst w) then at (LkS got todo (bound + 1)) th G
          else at (LkX got todo (bound + 1)) th G)"

text \<open>\<open>unlock_write_set\<close> on the way to an abort.\<close>

definition do_unlock :: "wset \<Rightarrow> thread \<Rightarrow> shared \<Rightarrow> (thread \<times> shared) option" where
  "do_unlock todo th G =
     (case todo of
        [] \<Rightarrow> at Idle th G
      | w # ws \<Rightarrow> at (Unl ws) th
          (G\<lparr>s_lock := shared_lock_versioned_spinlock_release (s_lock G) (fst w)\<rparr>))"

text \<open>From here on the transaction commits; only the history changes.\<close>

definition decide :: "cint \<Rightarrow> thread \<Rightarrow> shared \<Rightarrow> shared" where
  "decide wv th G =
     G\<lparr>s_log := (s_log G)(unat wv := Some \<lparr>c_reads = th_obs th, c_writes = th_wset th\<rparr>)\<rparr>"

definition do_tick :: "thread \<Rightarrow> shared \<Rightarrow> (thread \<times> shared) option" where
  "do_tick th G =
     (let (wv, lk) = shared_lock_global_clock_increment_and_get (s_lock G);
          G = G\<lparr>s_lock := lk, s_ticks := s_ticks G + 1\<rparr>; th = th\<lparr>th_wv := wv\<rparr> in
      case int_succ (th_rv th) of
        None \<Rightarrow> None
      | Some rv1 \<Rightarrow>
          if wv \<noteq> rv1 then at (VLock (th_rset th)) th G
          else at (StMem (th_wset th)) th (decide wv th G))"

text \<open>\<open>validate_read_set\<close>: per word the lock bit, then the version.\<close>

definition do_validate_lock :: "addr list \<Rightarrow> thread \<Rightarrow> shared \<Rightarrow> (thread \<times> shared) option" where
  "do_validate_lock todo th G =
     (case todo of
        [] \<Rightarrow> at (StMem (th_wset th)) th (decide (th_wv th) th G)
      | a # as \<Rightarrow> at (if held (s_lock G) a then Unl (th_wset th) else VVer todo) th G)"

definition do_validate_ver :: "addr list \<Rightarrow> thread \<Rightarrow> shared \<Rightarrow> (thread \<times> shared) option" where
  "do_validate_ver todo th G =
     (case todo of
        [] \<Rightarrow> None
      | a # as \<Rightarrow> at (if int_gt (ver (s_lock G) a) (th_rv th) then Unl (th_wset th) else VLock as) th G)"

text \<open>\<open>store_write_set\<close>: per word the copy, the version, the release.\<close>

definition do_store :: "wset \<Rightarrow> thread \<Rightarrow> shared \<Rightarrow> (thread \<times> shared) option" where
  "do_store todo th G =
     (case todo of
        [] \<Rightarrow> at Idle th G
      | w # ws \<Rightarrow> at (StVer todo) th (G\<lparr>s_mem := store (s_mem G) (fst w) (snd w)\<rparr>))"

definition do_update :: "wset \<Rightarrow> thread \<Rightarrow> shared \<Rightarrow> (thread \<times> shared) option" where
  "do_update todo th G =
     (case todo of
        [] \<Rightarrow> None
      | w # ws \<Rightarrow> at (StRel todo) th
          (G\<lparr>s_lock := shared_lock_versioned_spinlock_update (s_lock G) (fst w) (th_wv th)\<rparr>))"

definition do_release :: "wset \<Rightarrow> thread \<Rightarrow> shared \<Rightarrow> (thread \<times> shared) option" where
  "do_release todo th G =
     (case todo of
        [] \<Rightarrow> None
      | w # ws \<Rightarrow> at (StMem ws) th
          (G\<lparr>s_lock := shared_lock_versioned_spinlock_release (s_lock G) (fst w)\<rparr>))"

text \<open>
  One step of one thread. \<open>tm.h\<close> obliges the client to pass aligned addresses and sizes that are
  multiples of the alignment, which \<open>tm.c\<close> does not check: the requests are those of a client that
  does so, word by word, and the guards of \<open>Read\<close> and \<open>Write\<close> are this obligation, not code.
\<close>

fun exec_thread ::
  "nat \<Rightarrow> (addr \<Rightarrow> bool) \<Rightarrow> thread \<Rightarrow> shared \<Rightarrow> request \<Rightarrow> (thread \<times> shared) option" where
  "exec_thread al cl th G (Begin ro) = (if th_pc th = Idle then do_begin ro th G else None)"
| "exec_thread al cl th G (Read a) =
     (if th_pc th = Active \<and> aligned al a then do_load al cl a th G else None)"
| "exec_thread al cl th G (Write a v) =
     (if th_pc th = Active \<and> aligned al a \<and> length v = al then do_write a v th G else None)"
| "exec_thread al cl th G End = (if th_pc th = Active then do_end th G else None)"
| "exec_thread al cl th G Go =
     (case th_pc th of
        Idle \<Rightarrow> None
      | Active \<Rightarrow> None
      | RLock a ob \<Rightarrow> do_check_lock a ob th G
      | RVer a ob \<Rightarrow> do_check_ver a ob th G
      | LkX got todo b \<Rightarrow> do_exchange got todo b th G
      | LkS got todo b \<Rightarrow> do_spin got todo b th G
      | Unl todo \<Rightarrow> do_unlock todo th G
      | Tick \<Rightarrow> do_tick th G
      | VLock todo \<Rightarrow> do_validate_lock todo th G
      | VVer todo \<Rightarrow> do_validate_ver todo th G
      | StMem todo \<Rightarrow> do_store todo th G
      | StVer todo \<Rightarrow> do_update todo th G
      | StRel todo \<Rightarrow> do_release todo th G)"

text \<open>The stripes a thread holds; whether it is between its clock increment and its last
  release on the way to a commit; whether it is writing back; the words not yet copied.\<close>

fun holds_at :: "wset \<Rightarrow> pc \<Rightarrow> wset" where
  "holds_at ws (LkX got todo b) = got"
| "holds_at ws (LkS got todo b) = got"
| "holds_at ws (Unl todo) = todo"
| "holds_at ws Tick = ws"
| "holds_at ws (VLock as) = ws"
| "holds_at ws (VVer as) = ws"
| "holds_at ws (StMem todo) = todo"
| "holds_at ws (StVer todo) = todo"
| "holds_at ws (StRel todo) = todo"
| "holds_at ws _ = []"

definition holds :: "thread \<Rightarrow> nat list" where
  "holds th = stripes (holds_at (th_wset th) (th_pc th))"

definition storing :: "thread \<Rightarrow> bool" where
  "storing th \<longleftrightarrow> (case th_pc th of StMem _ \<Rightarrow> True | StVer _ \<Rightarrow> True | StRel _ \<Rightarrow> True | _ \<Rightarrow> False)"

definition committing :: "thread \<Rightarrow> bool" where
  "committing th \<longleftrightarrow> (case th_pc th of VLock _ \<Rightarrow> True | VVer _ \<Rightarrow> True | _ \<Rightarrow> storing th)"

definition pend :: "thread \<Rightarrow> wset" where
  "pend th = (case th_pc th of StMem ws \<Rightarrow> ws | StVer ws \<Rightarrow> tl ws | StRel ws \<Rightarrow> tl ws | _ \<Rightarrow> [])"

text \<open>No transaction with a write version up to \<open>n\<close> is still to release the lock of \<open>a\<close>.\<close>

definition settled :: "system \<Rightarrow> nat \<Rightarrow> addr \<Rightarrow> bool" where
  "settled S n a \<longleftrightarrow> (\<forall>u < count S. committing (threads S u) \<and> unat (th_wv (threads S u)) \<le> n \<longrightarrow>
     find_lock a \<notin> set (holds (threads S u)))"

definition exec :: "nat \<Rightarrow> system \<Rightarrow> nat \<Rightarrow> request \<Rightarrow> system option" where
  "exec al S t r =
     (if t < count S
      then case exec_thread al (settled S (unat (th_rv (threads S t)))) (threads S t) (glob S) r of
             None \<Rightarrow> None
           | Some (th, G) \<Rightarrow> Some (S\<lparr>glob := G, threads := (threads S)(t := th)\<rparr>)
      else None)"

fun run :: "nat \<Rightarrow> system \<Rightarrow> (nat \<times> request) list \<Rightarrow> system option" where
  "run al S [] = Some S"
| "run al S ((t, r) # rs) = (case exec al S t r of None \<Rightarrow> None | Some S' \<Rightarrow> run al S' rs)"

text \<open>The region as \<open>tm_create\<close> leaves it, with \<open>n\<close> threads.\<close>

definition initial :: "shared_lock_t \<Rightarrow> (addr \<Rightarrow> byte) \<Rightarrow> nat \<Rightarrow> system" where
  "initial junk m n =
     \<lparr>glob = \<lparr>s_lock = shared_lock_init junk, s_mem = m, s_ticks = 0, s_log = (\<lambda>_. None)\<rparr>,
      threads = (\<lambda>_. \<lparr>th_pc = Idle, th_ro = False, th_rv = 0, th_rset = [], th_wset = [],
                      th_wv = 0, th_obs = []\<rparr>),
      count = n\<rparr>"

inductive reachable :: "nat \<Rightarrow> shared_lock_t \<Rightarrow> (addr \<Rightarrow> byte) \<Rightarrow> nat \<Rightarrow> system \<Rightarrow> bool"
  for al junk m n where
  init: "reachable al junk m n (initial junk m n)"
| step: "reachable al junk m n S \<Longrightarrow> exec al S t r = Some S' \<Longrightarrow> reachable al junk m n S'"

lemma run_reachable: "reachable al junk m n S \<Longrightarrow> run al S rs = Some S' \<Longrightarrow> reachable al junk m n S'"
proof (induction al S rs rule: run.induct)
  case (2 al S t r rs)
  then show ?case by (auto split: option.splits intro: reachable.step)
qed simp

text \<open>
  The contents of the region after the first \<open>n\<close> write versions: the serial execution, in the
  order of the clock, of the commits in the log.
\<close>

fun snap :: "(nat \<Rightarrow> commit option) \<Rightarrow> (addr \<Rightarrow> byte list) \<Rightarrow> nat \<Rightarrow> addr \<Rightarrow> byte list" where
  "snap L m0 0 a = m0 a"
| "snap L m0 (Suc n) a =
     (case L (Suc n) of
        None \<Rightarrow> snap L m0 n a
      | Some c \<Rightarrow> (case map_of (c_writes c) a of None \<Rightarrow> snap L m0 n a | Some v \<Rightarrow> v))"

end
