(* ===== verification/Concurrent_Steps.thy ===== *)
theory Concurrent_Steps
  imports Concurrent
begin

text \<open>
  What the steps of \<open>Concurrent\<close> do to the state the invariants talk about. \<open>shape\<close> is what a
  thread knows about its own loops; \<open>effect\<close> sorts the steps by their effect on the locks held,
  the phase of the commit, the versions, the memory and the log; each later invariant is
  preserved by eleven effects instead of by twenty-six steps.
\<close>

section \<open>The shape of a thread\<close>

definition wset_ok :: "nat \<Rightarrow> wset \<Rightarrow> bool" where
  "wset_ok al ws \<longleftrightarrow> distinct (map fst ws) \<and> (\<forall>w \<in> set ws. aligned al (fst w) \<and> length (snd w) = al)"

definition reading :: "nat \<Rightarrow> thread \<Rightarrow> addr \<Rightarrow> obs option \<Rightarrow> bool" where
  "reading al th a ob \<longleftrightarrow> aligned al a \<and>
     (\<forall>ob'. ob = Some ob' \<longrightarrow> o_addr ob' = a \<and> (th_ro th \<or> a \<in> set (th_rset th)))"

fun shape_at :: "nat \<Rightarrow> thread \<Rightarrow> pc \<Rightarrow> bool" where
  "shape_at al th Idle \<longleftrightarrow> True"
| "shape_at al th Active \<longleftrightarrow> True"
| "shape_at al th (RLock a ob) \<longleftrightarrow> reading al th a ob"
| "shape_at al th (RVer a ob) \<longleftrightarrow> reading al th a ob"
| "shape_at al th (LkX got todo b) \<longleftrightarrow> \<not> th_ro th \<and> th_wset th = got @ todo"
| "shape_at al th (LkS got todo b) \<longleftrightarrow> \<not> th_ro th \<and> th_wset th = got @ todo \<and> todo \<noteq> []"
| "shape_at al th (Unl todo) \<longleftrightarrow> \<not> th_ro th"
| "shape_at al th Tick \<longleftrightarrow> \<not> th_ro th"
| "shape_at al th (VLock as) \<longleftrightarrow> \<not> th_ro th \<and> (\<exists>vs. th_rset th = vs @ as)"
| "shape_at al th (VVer as) \<longleftrightarrow> \<not> th_ro th \<and> as \<noteq> [] \<and> (\<exists>vs. th_rset th = vs @ as)"
| "shape_at al th (StMem ws) \<longleftrightarrow> \<not> th_ro th \<and> (\<exists>ds. th_wset th = ds @ ws)"
| "shape_at al th (StVer ws) \<longleftrightarrow> \<not> th_ro th \<and> ws \<noteq> [] \<and> (\<exists>ds. th_wset th = ds @ ws)"
| "shape_at al th (StRel ws) \<longleftrightarrow> \<not> th_ro th \<and> ws \<noteq> [] \<and> (\<exists>ds. th_wset th = ds @ ws)"

definition shape :: "nat \<Rightarrow> thread \<Rightarrow> bool" where
  "shape al th \<longleftrightarrow> shape_at al th (th_pc th) \<and>
     (th_pc th \<noteq> Idle \<longrightarrow> wset_ok al (th_wset th) \<and>
       (\<forall>ob \<in> set (th_obs th). aligned al (o_addr ob) \<and> (th_ro th \<or> o_addr ob \<in> set (th_rset th))))"

lemma wset_ok_Nil [simp]: "wset_ok al []"
  by (simp add: wset_ok_def)

lemma wset_ok_update:
  "wset_ok al ws \<Longrightarrow> aligned al a \<Longrightarrow> length v = al \<Longrightarrow> wset_ok al (AList.update a v ws)"
proof -
  assume ws: "wset_ok al ws" and a: "aligned al a" "length v = al"
  have "set (AList.update a v ws) \<subseteq> insert (a, v) (set ws)"
    by (induction ws) auto
  then show ?thesis
    using ws a distinct_update [of ws a v] by (auto simp: wset_ok_def)
qed

lemmas step_defs =
  do_begin_def do_load_def do_check_lock_def do_check_ver_def do_write_def do_end_def
  do_exchange_def do_spin_def do_unlock_def do_tick_def do_validate_lock_def do_validate_ver_def
  do_store_def do_update_def do_release_def at_def

lemma shape_step:
  assumes "exec_thread al cl th G r = Some (th', G')" and "shape al th"
  shows "shape al th'"
proof (cases r)
  case (Begin ro)
  with assms show ?thesis by (auto simp: shape_def step_defs split: if_splits)
next
  case (Read a)
  with assms show ?thesis
    by (auto simp: shape_def step_defs reading_def Let_def split: if_splits option.splits)
next
  case (Write a v)
  with assms show ?thesis
    by (auto simp: shape_def step_defs wset_ok_update split: if_splits)
next
  case End
  with assms show ?thesis by (auto simp: shape_def step_defs split: if_splits)
next
  case Go
  then show ?thesis
    using assms
    by (cases "th_pc th")
      (auto simp: shape_def step_defs reading_def Let_def
         shared_lock_global_clock_increment_and_get_def Cons_eq_append_conv
         split: if_splits option.splits list.splits)
qed

section \<open>Effects\<close>

abbreviation take_stripe :: "addr \<Rightarrow> shared \<Rightarrow> shared" where
  "take_stripe a G \<equiv> G\<lparr>s_lock := on_lock (\<lambda>l. l\<lparr>vlock := True\<rparr>) (s_lock G) a\<rparr>"

abbreviation drop_stripe :: "addr \<Rightarrow> shared \<Rightarrow> shared" where
  "drop_stripe a G \<equiv> G\<lparr>s_lock := shared_lock_versioned_spinlock_release (s_lock G) a\<rparr>"

abbreviation set_version :: "addr \<Rightarrow> cint \<Rightarrow> shared \<Rightarrow> shared" where
  "set_version a v G \<equiv> G\<lparr>s_lock := shared_lock_versioned_spinlock_update (s_lock G) a v\<rparr>"

abbreviation tick_clock :: "shared \<Rightarrow> shared" where
  "tick_clock G \<equiv> G\<lparr>s_lock := (s_lock G)\<lparr>clock := clock (s_lock G) + 1\<rparr>, s_ticks := Suc (s_ticks G)\<rparr>"

definition same_tx :: "thread \<Rightarrow> thread \<Rightarrow> bool" where
  "same_tx th th' \<longleftrightarrow> th_wv th' = th_wv th \<and> th_rv th' = th_rv th \<and> th_obs th' = th_obs th \<and>
     th_wset th' = th_wset th \<and> th_rset th' = th_rset th"

inductive effect :: "thread \<Rightarrow> shared \<Rightarrow> thread \<Rightarrow> shared \<Rightarrow> bool" where
  quiet: "holds th' = holds th \<Longrightarrow> committing th' = committing th \<Longrightarrow> storing th' = storing th \<Longrightarrow>
    pend th' = pend th \<Longrightarrow> (committing th \<Longrightarrow> same_tx th th') \<Longrightarrow> \<not> storing th \<Longrightarrow> effect th G th' G"
| acquire: "\<not> held (s_lock G) a \<Longrightarrow> holds th' = holds th @ [find_lock a] \<Longrightarrow> \<not> committing th \<Longrightarrow>
    \<not> committing th' \<Longrightarrow> effect th G th' (take_stripe a G)"
| giveback: "holds th = find_lock a # holds th' \<Longrightarrow> \<not> committing th \<Longrightarrow> \<not> committing th' \<Longrightarrow>
    effect th G th' (drop_stripe a G)"
| giveup: "committing th \<Longrightarrow> \<not> storing th \<Longrightarrow> \<not> committing th' \<Longrightarrow> holds th' = holds th \<Longrightarrow>
    effect th G th' G"
| tick: "\<not> committing th \<Longrightarrow> committing th' \<Longrightarrow> \<not> storing th' \<Longrightarrow> holds th' = holds th \<Longrightarrow>
    th_wv th' = clock (s_lock G) + 1 \<Longrightarrow> th_rv th' = th_rv th \<Longrightarrow> th_pc th = Tick \<Longrightarrow> effect th G th' (tick_clock G)"
| fast: "\<not> committing th \<Longrightarrow> storing th' \<Longrightarrow> holds th' = holds th \<Longrightarrow>
    th_wv th' = clock (s_lock G) + 1 \<Longrightarrow> th_rv th' = th_rv th \<Longrightarrow> clock (s_lock G) = th_rv th \<Longrightarrow>
    th_pc th = Tick \<Longrightarrow> th_obs th' = th_obs th \<Longrightarrow> th_rset th' = th_rset th \<Longrightarrow>
    pend th' = th_wset th' \<Longrightarrow> holds th' = stripes (th_wset th') \<Longrightarrow> th_pc th' = StMem (th_wset th') \<Longrightarrow>
    effect th G th' (decide (th_wv th') th' (tick_clock G))"
| decided: "committing th \<Longrightarrow> \<not> storing th \<Longrightarrow> storing th' \<Longrightarrow> holds th' = holds th \<Longrightarrow> same_tx th th' \<Longrightarrow>
    th_pc th = VLock [] \<Longrightarrow> pend th' = th_wset th' \<Longrightarrow> holds th' = stripes (th_wset th') \<Longrightarrow>
    th_pc th' = StMem (th_wset th') \<Longrightarrow>
    effect th G th' (decide (th_wv th') th' G)"
| copy: "storing th \<Longrightarrow> storing th' \<Longrightarrow> holds th' = holds th \<Longrightarrow> same_tx th th' \<Longrightarrow>
    pend th = (a, v) # pend th' \<Longrightarrow> find_lock a \<in> set (holds th) \<Longrightarrow>
    th_pc th = StMem ws \<Longrightarrow> th_pc th' = StVer ws \<Longrightarrow>
    effect th G th' (G\<lparr>s_mem := store (s_mem G) a v\<rparr>)"
| stamp: "storing th \<Longrightarrow> storing th' \<Longrightarrow> holds th' = holds th \<Longrightarrow> same_tx th th' \<Longrightarrow>
    pend th' = pend th \<Longrightarrow> find_lock a \<in> set (holds th) \<Longrightarrow>
    th_pc th = StVer ((a, v) # ws) \<Longrightarrow> th_pc th' = StRel ((a, v) # ws) \<Longrightarrow>
    effect th G th' (set_version a (th_wv th) G)"
| unlock: "storing th \<Longrightarrow> storing th' \<Longrightarrow> holds th = find_lock a # holds th' \<Longrightarrow> same_tx th th' \<Longrightarrow>
    pend th' = pend th \<Longrightarrow> th_pc th = StRel ((a, v) # ws) \<Longrightarrow> th_pc th' = StMem ws \<Longrightarrow>
    effect th G th' (drop_stripe a G)"
| finish: "storing th \<Longrightarrow> \<not> committing th' \<Longrightarrow> holds th = [] \<Longrightarrow> holds th' = [] \<Longrightarrow> pend th = [] \<Longrightarrow>
    effect th G th' G"

lemma storing_committing: "storing th \<Longrightarrow> committing th"
  by (auto simp: storing_def committing_def split: pc.splits)

lemmas view_defs = holds_def storing_def committing_def pend_def same_tx_def

lemma pc_views:
  "th_pc th = Idle \<Longrightarrow> holds th = [] \<and> \<not> committing th \<and> \<not> storing th \<and> pend th = []"
  "th_pc th = Active \<Longrightarrow> holds th = [] \<and> \<not> committing th \<and> \<not> storing th \<and> pend th = []"
  by (simp_all add: view_defs)

lemma exec_effect:
  assumes "exec_thread al cl th G r = Some (th', G')" and "shape al th"
  shows "effect th G th' G'"
proof (cases r)
  case (Begin ro)
  with assms show ?thesis
    by (auto simp: step_defs view_defs split: if_splits intro!: effect.quiet)
next
  case (Read a)
  with assms show ?thesis
    by (auto simp: step_defs Let_def view_defs split: if_splits option.splits intro!: effect.quiet)
next
  case (Write a v)
  with assms show ?thesis
    by (auto simp: step_defs view_defs split: if_splits intro!: effect.quiet)
next
  case End
  with assms show ?thesis
    by (auto simp: step_defs view_defs split: if_splits intro!: effect.quiet)
next
  case Go
  note go = assms(1) [unfolded Go exec_thread.simps]
  show ?thesis
  proof (cases "th_pc th")
    case (LkX got todo b)
    show ?thesis
    proof (cases todo)
      case Nil
      with go LkX assms(2) show ?thesis
        by (auto simp: step_defs view_defs shape_def intro!: effect.quiet)
    next
      case (Cons w ws)
      show ?thesis
      proof (cases "held (s_lock G) (fst w)")
        case True
        with go LkX Cons show ?thesis by (auto simp: step_defs view_defs intro!: effect.quiet)
      next
        case False
        with go LkX Cons show ?thesis by (auto simp: step_defs view_defs intro!: effect.acquire)
      qed
    qed
  next
    case (Unl todo)
    show ?thesis
    proof (cases todo)
      case Nil
      with go Unl show ?thesis by (auto simp: step_defs view_defs intro!: effect.quiet)
    next
      case (Cons w ws)
      with go Unl show ?thesis by (auto simp: step_defs view_defs intro!: effect.giveback)
    qed
  next
    case Tick
    let ?wv = "clock (s_lock G) + 1"
    have ne: "th_rv th \<noteq> INT_MAX" using go Tick by (auto simp: step_defs int_succ_def Let_def split: if_splits)
    show ?thesis
    proof (cases "clock (s_lock G) = th_rv th")
      case True
      then have "th' = th\<lparr>th_wv := ?wv, th_pc := StMem (th_wset th)\<rparr>"
        and G': "G' = decide (th_wv th') th' (tick_clock G)"
        using go Tick ne
        by (auto simp: step_defs shared_lock_global_clock_increment_and_get_def Let_def int_succ_def decide_def)
      then show ?thesis using True Tick unfolding G' by (intro effect.fast) (simp_all add: view_defs)
    next
      case False
      then have "th' = th\<lparr>th_wv := ?wv, th_pc := VLock (th_rset th)\<rparr>" and G': "G' = tick_clock G"
        using go Tick ne
        by (auto simp: step_defs shared_lock_global_clock_increment_and_get_def Let_def int_succ_def)
      then show ?thesis using Tick unfolding G' by (intro effect.tick) (simp_all add: view_defs)
    qed
  next
    case (VLock todo)
    show ?thesis
    proof (cases todo)
      case Nil
      then have "th' = th\<lparr>th_pc := StMem (th_wset th)\<rparr>" and G': "G' = decide (th_wv th') th' G"
        using go VLock by (auto simp: step_defs decide_def)
      then show ?thesis using VLock Nil unfolding G' by (intro effect.decided) (simp_all add: view_defs)
    next
      case (Cons a as)
      show ?thesis
      proof (cases "held (s_lock G) a")
        case True
        with go VLock Cons show ?thesis by (auto simp: step_defs view_defs intro!: effect.giveup)
      next
        case False
        with go VLock Cons show ?thesis by (auto simp: step_defs view_defs intro!: effect.quiet)
      qed
    qed
  next
    case (VVer todo)
    show ?thesis
    proof (cases todo)
      case Nil
      with go VVer show ?thesis by (simp add: step_defs)
    next
      case (Cons a as)
      show ?thesis
      proof (cases "int_gt (ver (s_lock G) a) (th_rv th)")
        case True
        with go VVer Cons show ?thesis by (auto simp: step_defs view_defs intro!: effect.giveup)
      next
        case False
        with go VVer Cons show ?thesis by (auto simp: step_defs view_defs intro!: effect.quiet)
      qed
    qed
  next
    case (StMem todo)
    show ?thesis
    proof (cases todo)
      case Nil
      with go StMem show ?thesis by (auto simp: step_defs view_defs intro!: effect.finish)
    next
      case (Cons w ws)
      obtain a v where "w = (a, v)" by fastforce
      with go StMem Cons show ?thesis by (auto simp: step_defs view_defs intro!: effect.copy)
    qed
  next
    case (StVer todo)
    show ?thesis
    proof (cases todo)
      case Nil
      with go StVer show ?thesis by (simp add: step_defs)
    next
      case (Cons w ws)
      obtain a v where "w = (a, v)" by fastforce
      with go StVer Cons show ?thesis by (auto simp: step_defs view_defs intro!: effect.stamp)
    qed
  next
    case (StRel todo)
    show ?thesis
    proof (cases todo)
      case Nil
      with go StRel show ?thesis by (simp add: step_defs)
    next
      case (Cons w ws)
      obtain a v where "w = (a, v)" by fastforce
      with go StRel Cons show ?thesis by (auto simp: step_defs view_defs intro!: effect.unlock)
    qed
  qed (use go in \<open>auto simp: step_defs view_defs split: if_splits list.splits option.splits
         intro!: effect.quiet\<close>)
qed

end
