(* ===== verification/Concurrent_Inv.thy ===== *)
theory Concurrent_Inv
  imports Concurrent_Steps
begin

text \<open>
  The invariants of the concurrent machine that concern the locks, the versions and the log,
  over the shared state and the threads as a function. Each is preserved by every effect.
\<close>

type_synonym pool = "nat \<Rightarrow> thread"

section \<open>Mutual exclusion\<close>

definition locks_ok :: "shared \<Rightarrow> pool \<Rightarrow> bool" where
  "locks_ok G ths \<longleftrightarrow>
     (\<forall>u. distinct (holds (ths u))) \<and>
     (\<forall>u v. u \<noteq> v \<longrightarrow> set (holds (ths u)) \<inter> set (holds (ths v)) = {}) \<and>
     (\<forall>i < NUM_LOCKS. vlock (locks (s_lock G) i) \<longleftrightarrow> (\<exists>u. i \<in> set (holds (ths u))))"

lemma holds_less: "i \<in> set (holds th) \<Longrightarrow> i < NUM_LOCKS"
  by (auto simp: holds_def)

lemma locks_okD:
  assumes "locks_ok G ths"
  shows "distinct (holds (ths u))"
    and "i \<in> set (holds (ths u)) \<Longrightarrow> i \<in> set (holds (ths v)) \<Longrightarrow> u = v"
    and "i < NUM_LOCKS \<Longrightarrow> vlock (locks (s_lock G) i) \<longleftrightarrow> (\<exists>u. i \<in> set (holds (ths u)))"
  using assms unfolding locks_ok_def by blast+

text \<open>Quantifiers over a pool with one thread replaced.\<close>

lemma pool_ex: "(\<exists>u. P ((ths(t := x)) u)) \<longleftrightarrow> P x \<or> (\<exists>u. u \<noteq> t \<and> P (ths u))"
  by auto

lemma pool_ex_split: "(\<exists>u. P u) \<longleftrightarrow> P t \<or> (\<exists>u. u \<noteq> t \<and> P u)"
  by metis

lemma locks_okI:
  assumes "locks_ok G ths" and "distinct (holds th')"
    and "\<And>i. i \<in> set (holds th') \<Longrightarrow> i \<notin> set (holds (ths t)) \<Longrightarrow> \<not> vlock (locks (s_lock G) i)"
    and "\<And>i. i < NUM_LOCKS \<Longrightarrow> vlock (locks (s_lock G') i) =
      (i \<in> set (holds th') \<or> (vlock (locks (s_lock G) i) \<and> i \<notin> set (holds (ths t))))"
  shows "locks_ok G' (ths(t := th'))"
proof -
  note l = locks_okD [OF assms(1)]
  have sep: "i \<notin> set (holds (ths u))" if "u \<noteq> t" "i \<in> set (holds th')" for u i
    using that l(2) [of i u t] l(3) [OF holds_less [OF that(2)]] assms(3) [of i] by blast
  have "vlock (locks (s_lock G') i) \<longleftrightarrow> i \<in> set (holds th') \<or> (\<exists>u. u \<noteq> t \<and> i \<in> set (holds (ths u)))"
    if "i < NUM_LOCKS" for i
    unfolding assms(4) [OF that] l(3) [OF that] using l(2) by metis
  then have "vlock (locks (s_lock G') i) \<longleftrightarrow> (\<exists>u. i \<in> set (holds ((ths(t := th')) u)))"
    if "i < NUM_LOCKS" for i using that
    unfolding pool_ex [of "\<lambda>th. i \<in> set (holds th)"] .
  then show ?thesis
    unfolding locks_ok_def using assms(2) l(1) l(2) sep by (simp add: fun_upd_def disjoint_iff) metis
qed

lemma locks_ok_step:
  assumes ok: "locks_ok G ths" and "effect (ths t) G th' G'"
  shows "locks_ok G' (ths(t := th'))"
proof -
  note l = locks_okD [OF ok]
  have d: "distinct (holds (ths t))" by (rule l)
  have mine: "i \<in> set (holds (ths t)) \<Longrightarrow> vlock (locks (s_lock G) i)" for i
    using l(3) holds_less by blast
  show ?thesis
    using assms(2)
    by (cases rule: effect.cases; intro locks_okI [OF ok];
        use d mine in \<open>auto simp: decide_def held_def shared_lock_versioned_spinlock_update_def
          versioned_spinlock_update_def shared_lock_versioned_spinlock_release_def
          versioned_spinlock_release_def split: if_splits\<close>)
qed

section \<open>Versions\<close>

definition stamped :: "thread \<Rightarrow> nat \<Rightarrow> bool" where
  "stamped th i \<longleftrightarrow> (case th_pc th of StRel (w # ws) \<Rightarrow> find_lock (fst w) = i | _ \<Rightarrow> False)"

abbreviation vers :: "shared \<Rightarrow> nat \<Rightarrow> nat" where
  "vers G i \<equiv> unat (version (locks (s_lock G) i))"

abbreviation wv :: "thread \<Rightarrow> nat" where
  "wv th \<equiv> unat (th_wv th)"

abbreviation rdv :: "thread \<Rightarrow> nat" where
  "rdv th \<equiv> unat (th_rv th)"

definition clock_ok :: "shared \<Rightarrow> pool \<Rightarrow> bool" where
  "clock_ok G ths \<longleftrightarrow> clock (s_lock G) = word_of_nat (s_ticks G) \<and>
     (\<forall>u. th_pc (ths u) \<noteq> Idle \<longrightarrow> rdv (ths u) \<le> s_ticks G) \<and>
     (\<forall>u. committing (ths u) \<longrightarrow> rdv (ths u) < wv (ths u) \<and> wv (ths u) \<le> s_ticks G) \<and>
     (\<forall>u v. committing (ths u) \<longrightarrow> committing (ths v) \<longrightarrow> wv (ths u) = wv (ths v) \<longrightarrow> u = v)"

definition versions_ok :: "shared \<Rightarrow> pool \<Rightarrow> bool" where
  "versions_ok G ths \<longleftrightarrow> (\<forall>i < NUM_LOCKS. vers G i \<le> s_ticks G) \<and>
     (\<forall>u i. committing (ths u) \<longrightarrow> i \<in> set (holds (ths u)) \<longrightarrow>
        vers G i \<le> wv (ths u) \<and> (vers G i = wv (ths u) \<longleftrightarrow> stamped (ths u) i))"

lemma unat_clock: "m < 2 ^ 31 \<Longrightarrow> unat (word_of_nat m :: cint) = m"
  by (simp add: unat_of_nat take_bit_nat_eq_self)

lemma clock_succ: "Suc m < 2 ^ 31 \<Longrightarrow> unat ((word_of_nat m :: cint) + 1) = Suc m"
  using unat_clock [of "Suc m"] by (simp add: add.commute)

lemma exec_rv:
  assumes "exec_thread al cl th G r = Some (th', G')" and "th_pc th' \<noteq> Idle"
  shows "th_rv th' = clock (s_lock G) \<or> (th_pc th \<noteq> Idle \<and> th_rv th' = th_rv th)"
  using assms
  by (cases r; cases "th_pc th")
    (auto simp: step_defs Let_def shared_lock_global_clock_get_def
      shared_lock_global_clock_increment_and_get_def
      split: if_splits option.splits list.splits)

lemma effect_ticks: "effect th G th' G' \<Longrightarrow> s_ticks G \<le> s_ticks G'"
  by (cases rule: effect.cases) (auto simp: decide_def)

lemma clock_okD:
  assumes "clock_ok G ths"
  shows "clock (s_lock G) = word_of_nat (s_ticks G)"
    and "th_pc (ths u) \<noteq> Idle \<Longrightarrow> rdv (ths u) \<le> s_ticks G"
    and "committing (ths u) \<Longrightarrow> rdv (ths u) < wv (ths u)"
    and "committing (ths u) \<Longrightarrow> wv (ths u) \<le> s_ticks G"
    and "committing (ths u) \<Longrightarrow> committing (ths v) \<Longrightarrow> wv (ths u) = wv (ths v) \<Longrightarrow> u = v"
  using assms unfolding clock_ok_def by blast+

lemma clock_okI:
  assumes ok: "clock_ok G ths" and "s_ticks G \<le> s_ticks G'"
    and "clock (s_lock G') = word_of_nat (s_ticks G')"
    and "th_pc th' \<noteq> Idle \<Longrightarrow> rdv th' \<le> s_ticks G'"
    and "committing th' \<Longrightarrow> (committing (ths t) \<and> wv th' = wv (ths t) \<and> rdv th' = rdv (ths t)) \<or>
           (rdv th' < wv th' \<and> wv th' = Suc (s_ticks G) \<and> s_ticks G' = Suc (s_ticks G))"
  shows "clock_ok G' (ths(t := th'))"
proof -
  note c = clock_okD [OF ok]
  have "committing th' \<Longrightarrow> rdv th' < wv th' \<and> wv th' \<le> s_ticks G'"
    using assms(5) c(3,4) [of t] assms(2) by fastforce
  moreover have "u \<noteq> t \<Longrightarrow> committing th' \<Longrightarrow> committing (ths u) \<Longrightarrow> wv th' \<noteq> wv (ths u)" for u
    using assms(5) c(4) [of u] c(5) [of u t] by fastforce
  ultimately show ?thesis
    unfolding clock_ok_def using assms(2-4) c by (simp add: fun_upd_def) (metis order_trans)
qed

lemma clock_ok_step:
  assumes ok: "clock_ok G ths" and eff: "effect (ths t) G th' G'" and ex: "exec_thread al cl (ths t) G r = Some (th', G')"
    and small: "s_ticks G' < 2 ^ 31"
  shows "clock_ok G' (ths(t := th'))"
proof (rule clock_okI [OF ok effect_ticks [OF eff]])
  note c = clock_okD [OF ok]
  have le: "s_ticks G \<le> s_ticks G'" by (rule effect_ticks [OF eff])
  show "clock (s_lock G') = word_of_nat (s_ticks G')"
    using eff c(1) by (cases rule: effect.cases) (auto simp: decide_def add.commute)
  show "rdv th' \<le> s_ticks G'" if "th_pc th' \<noteq> Idle"
    using exec_rv [OF ex that] c(1) c(2) [of t] le small unat_clock [of "s_ticks G"] by auto
  show "(committing (ths t) \<and> wv th' = wv (ths t) \<and> rdv th' = rdv (ths t)) \<or>
           (rdv th' < wv th' \<and> wv th' = Suc (s_ticks G) \<and> s_ticks G' = Suc (s_ticks G))" if "committing th'"
    using eff that small c(1) c(2) [of t] clock_succ [of "s_ticks G"]
    by (cases rule: effect.cases) (auto simp: decide_def same_tx_def storing_committing)
qed

section \<open>Versions and the log\<close>

lemma versions_okD:
  assumes "versions_ok G ths"
  shows "i < NUM_LOCKS \<Longrightarrow> vers G i \<le> s_ticks G"
    and "committing (ths u) \<Longrightarrow> i \<in> set (holds (ths u)) \<Longrightarrow> vers G i \<le> wv (ths u)"
    and "committing (ths u) \<Longrightarrow> i \<in> set (holds (ths u)) \<Longrightarrow> vers G i = wv (ths u) \<longleftrightarrow> stamped (ths u) i"
  using assms unfolding versions_ok_def by blast+

lemma stamped_storing: "stamped th i \<Longrightarrow> storing th"
  by (auto simp: stamped_def storing_def split: pc.splits)

text \<open>Only the stamping of a lock changes a version; it raises it, and the holder alone does it.\<close>

lemma effect_version:
  "effect th G th' G' \<Longrightarrow> (\<forall>i. version (locks (s_lock G') i) = version (locks (s_lock G) i)) \<or>
     (\<exists>a v ws. storing th \<and> find_lock a \<in> set (holds th) \<and> holds th' = holds th \<and> same_tx th th' \<and>
        storing th' \<and> th_pc th' = StRel ((a, v) # ws) \<and> G' = set_version a (th_wv th) G)"
  by (erule effect.cases)
    (auto simp: decide_def shared_lock_versioned_spinlock_release_def versioned_spinlock_release_def)

lemma effect_vers:
  assumes "effect th G th' G'"
  obtains "\<And>i. vers G' i = vers G i"
  | a where "storing th" "find_lock a \<in> set (holds th)" "holds th' = holds th" "th_wv th' = th_wv th"
      "storing th'" "\<And>i. vers G' i = (if i = find_lock a then wv th else vers G i)"
      "\<And>i. stamped th' i \<longleftrightarrow> i = find_lock a" "s_ticks G' = s_ticks G"
  using effect_version [OF assms]
proof (elim disjE exE conjE)
  assume "\<forall>i. version (locks (s_lock G') i) = version (locks (s_lock G) i)"
  then show thesis by (intro that(1)) simp
next
  fix a v ws
  assume "storing th" "find_lock a \<in> set (holds th)" "holds th' = holds th" "same_tx th th'"
    "storing th'" "th_pc th' = StRel ((a, v) # ws)" "G' = set_version a (th_wv th) G"
  then show thesis
    by (intro that(2) [of a])
      (auto simp: same_tx_def stamped_def shared_lock_versioned_spinlock_update_def versioned_spinlock_update_def)
qed

lemma not_stamped: "th_pc th = StMem ws \<Longrightarrow> \<not> stamped th i" "\<not> storing th \<Longrightarrow> \<not> stamped th i"
  by (auto simp: stamped_def storing_def split: pc.splits)

lemma stamped_pc:
  "th_pc th = StMem ws \<Longrightarrow> \<not> stamped th i" "th_pc th = StVer ws \<Longrightarrow> \<not> stamped th i"
  "th_pc th = StRel ((a, v) # ws) \<Longrightarrow> stamped th i \<longleftrightarrow> i = find_lock a"
  by (auto simp: stamped_def)

lemma versions_okI:
  assumes ok: "versions_ok G ths" and eff: "effect (ths t) G th' G'" and lo: "locks_ok G ths"
    and ck: "clock_ok G ths"
    and mine: "\<And>i. committing th' \<Longrightarrow> i \<in> set (holds th') \<Longrightarrow>
        vers G' i \<le> wv th' \<and> (vers G' i = wv th' \<longleftrightarrow> stamped th' i)"
  shows "versions_ok G' (ths(t := th'))"
proof -
  note v = versions_okD [OF ok] and l = locks_okD [OF lo] and c = clock_okD [OF ck]
  have bound: "vers G' i \<le> s_ticks G'" if "i < NUM_LOCKS" for i
    using eff
  proof (cases rule: effect_vers)
    case 1
    with v(1) [OF that] effect_ticks [OF eff] show ?thesis by simp
  next
    case (2 a)
    with v(1) [OF that] c(4) [of t] show ?thesis by (simp add: storing_committing)
  qed
  have other: "vers G' i = vers G i" if "u \<noteq> t" "i \<in> set (holds (ths u))" for u i
    using eff
  proof (cases rule: effect_vers)
    case 1
    then show ?thesis by simp
  next
    case (2 a)
    with that l(2) [of i u t] show ?thesis by auto
  qed
  show ?thesis
    unfolding versions_ok_def using bound mine v(2,3) other by (simp add: fun_upd_def)
qed

lemma versions_ok_step:
  assumes ok: "versions_ok G ths" and eff: "effect (ths t) G th' G'" and lo: "locks_ok G ths"
    and ck: "clock_ok G ths" and small: "s_ticks G' < 2 ^ 31"
  shows "versions_ok G' (ths(t := th'))"
proof (rule versions_okI [OF ok eff lo ck])
  note v = versions_okD [OF ok] and c = clock_okD [OF ck]
  fix i assume th': "committing th'" "i \<in> set (holds th')"
  from eff show "vers G' i \<le> wv th' \<and> (vers G' i = wv th' \<longleftrightarrow> stamped th' i)"
  proof (cases rule: effect.cases)
    case quiet
    then show ?thesis using v(2,3) [of t i] th' not_stamped(2) by (auto simp: same_tx_def)
  next
    case tick
    then show ?thesis
      using v(1) [OF holds_less [OF th'(2)]] c(1) small clock_succ [of "s_ticks G"] not_stamped(2) by simp
  next
    case fast
    then show ?thesis
      using v(1) [OF holds_less [OF th'(2)]] c(1) small clock_succ [of "s_ticks G"] stamped_pc(1) by (simp add: decide_def)
  next
    case decided
    have "i \<in> set (holds (ths t))" using th'(2) unfolding \<open>holds th' = holds (ths t)\<close> .
    moreover have "vers G' i = vers G i" "wv th' = wv (ths t)"
      using decided(1,6) by (auto simp: decide_def same_tx_def)
    moreover have "\<not> stamped (ths t) i" "\<not> stamped th' i"
      using decided(3,10) not_stamped(2) stamped_pc(1) by auto
    ultimately show ?thesis using v(2,3) [OF \<open>committing (ths t)\<close>, of i] by simp
  next
    case (copy a val ws)
    then show ?thesis
      using v(2,3) [of t i] th' stamped_pc(1) [of "ths t"] stamped_pc(2) by (auto simp: same_tx_def storing_committing)
  next
    case (stamp a val ws)
    then show ?thesis
      using v(2,3) [of t i] th' stamped_pc(2) [of "ths t"] stamped_pc(3) [of th']
      by (auto simp: same_tx_def storing_committing shared_lock_versioned_spinlock_update_def
          versioned_spinlock_update_def)
  next
    case (unlock a val ws)
    have "i \<noteq> find_lock a" using locks_okD(1) [OF lo, of t] unlock th' by auto
    with unlock show ?thesis
      using v(2,3) [of t i] th' stamped_pc(3) [of "ths t"] stamped_pc(1) [of th']
      by (auto simp: same_tx_def storing_committing shared_lock_versioned_spinlock_release_def
          versioned_spinlock_release_def)
  qed (use th' storing_committing in \<open>simp_all\<close>)
qed

text \<open>
  A commit in the log is either stamped on the locks of the words it writes or still being
  written back by the thread that holds them.
\<close>

definition log_ok :: "shared \<Rightarrow> pool \<Rightarrow> bool" where
  "log_ok G ths \<longleftrightarrow>
     (\<forall>k c. s_log G k = Some c \<longrightarrow> 0 < k \<and> k \<le> s_ticks G) \<and>
     (\<forall>u. committing (ths u) \<longrightarrow> \<not> storing (ths u) \<longrightarrow> s_log G (wv (ths u)) = None) \<and>
     (\<forall>u. storing (ths u) \<longrightarrow> s_log G (wv (ths u)) =
        Some \<lparr>c_reads = th_obs (ths u), c_writes = th_wset (ths u)\<rparr>) \<and>
     (\<forall>k c a. s_log G k = Some c \<longrightarrow> a \<in> fst ` set (c_writes c) \<longrightarrow>
        k \<le> vers G (find_lock a) \<or>
        (\<exists>u. storing (ths u) \<and> wv (ths u) = k \<and> find_lock a \<in> set (holds (ths u))))"

lemma log_okD:
  assumes "log_ok G ths"
  shows "s_log G k = Some c \<Longrightarrow> 0 < k" and "s_log G k = Some c \<Longrightarrow> k \<le> s_ticks G"
    and "committing (ths u) \<Longrightarrow> \<not> storing (ths u) \<Longrightarrow> s_log G (wv (ths u)) = None"
    and "storing (ths u) \<Longrightarrow> s_log G (wv (ths u)) =
        Some \<lparr>c_reads = th_obs (ths u), c_writes = th_wset (ths u)\<rparr>"
    and "s_log G k = Some c \<Longrightarrow> a \<in> fst ` set (c_writes c) \<Longrightarrow>
        k \<le> vers G (find_lock a) \<or>
        (\<exists>u. storing (ths u) \<and> wv (ths u) = k \<and> find_lock a \<in> set (holds (ths u)))"
  using assms unfolding log_ok_def by blast+

abbreviation entry_of :: "thread \<Rightarrow> commit" where
  "entry_of th \<equiv> \<lparr>c_reads = th_obs th, c_writes = th_wset th\<rparr>"

lemma effect_log:
  assumes "effect th G th' G'"
  obtains "s_log G' = s_log G"
  | "\<not> storing th" "storing th'" "s_log G' = (s_log G)(wv th' := Some (entry_of th'))"
    "holds th' = stripes (th_wset th')" "pend th' = th_wset th'" "holds th' = holds th"
    "s_mem G' = s_mem G" "\<And>i. vers G' i = vers G i"
  using assms
proof -
  have "s_log G' = s_log G \<or>
    (\<not> storing th \<and> storing th' \<and> s_log G' = (s_log G)(wv th' := Some (entry_of th')) \<and>
     holds th' = stripes (th_wset th') \<and> pend th' = th_wset th' \<and> holds th' = holds th \<and>
     s_mem G' = s_mem G \<and> (\<forall>i. vers G' i = vers G i))"
    using assms by (cases rule: effect.cases) (auto simp: decide_def dest: storing_committing)
  then show thesis using that by blast
qed

lemma vers_mono:
  assumes "effect (ths t) G th' G'" and "versions_ok G ths"
  shows "vers G i \<le> vers G' i"
  using assms(1)
proof (cases rule: effect_vers)
  case 1
  then show ?thesis by simp
next
  case (2 a)
  then show ?thesis using versions_okD(2) [OF assms(2), of t] by (simp add: storing_committing)
qed

lemma effect_storing:
  assumes "effect (ths t) G th' G'" and "storing (ths t)" and "versions_ok G ths"
    and "i \<in> set (holds (ths t))"
  shows "(storing th' \<and> wv th' = wv (ths t) \<and> i \<in> set (holds th')) \<or> wv (ths t) \<le> vers G' i"
  using assms(1)
proof (cases rule: effect.cases)
  case (unlock a v ws)
  then show ?thesis
    using assms(2,4) versions_okD(3) [OF assms(3), of t i] stamped_pc(3) [of "ths t" a v ws i]
    by (auto simp: same_tx_def storing_committing shared_lock_versioned_spinlock_release_def
        versioned_spinlock_release_def)
qed (use assms(2,4) storing_committing in \<open>auto simp: same_tx_def\<close>)

lemma effect_phase:
  assumes "effect th G th' G'" and "storing th'" and "storing th"
  shows "same_tx th th' \<and> s_log G' = s_log G"
  using assms by (cases rule: effect.cases) (auto dest: storing_committing)

lemma effect_validating:
  assumes "effect th G th' G'" and "committing th'" and "\<not> storing th'"
  shows "s_log G' = s_log G \<and> ((committing th \<and> \<not> storing th \<and> wv th' = wv th) \<or>
     (\<not> committing th \<and> th_wv th' = clock (s_lock G) + 1 \<and> s_ticks G' = Suc (s_ticks G)))"
  using assms by (cases rule: effect.cases) (auto simp: same_tx_def)

lemma log_ok_step:
  assumes ok: "log_ok G ths" and eff: "effect (ths t) G th' G'"
    and vo: "versions_ok G ths" and ck: "clock_ok G ths" and ck': "clock_ok G' (ths(t := th'))"
    and small: "s_ticks G' < 2 ^ 31"
  shows "log_ok G' (ths(t := th'))"
proof -
  let ?ths = "ths(t := th')"
  note g = log_okD [OF ok] and c = clock_okD [OF ck] and c' = clock_okD [OF ck']
  have self: "storing th' \<Longrightarrow> rdv th' < wv th' \<and> wv th' \<le> s_ticks G'"
    using c'(3,4) [of t] by (simp add: storing_committing)
  have other: "u \<noteq> t \<Longrightarrow> committing (ths u) \<Longrightarrow> committing th' \<Longrightarrow> wv (ths u) \<noteq> wv th'" for u
    using c'(5) [of u t] by (metis fun_upd_same fun_upd_other)
  have bounds: "0 < k \<and> k \<le> s_ticks G'" if "s_log G' k = Some cm" for k cm
    using eff
  proof (cases rule: effect_log)
    case 1
    with that g(1,2) [of k cm] effect_ticks [OF eff] show ?thesis by simp
  next
    case 2
    with that g(1,2) [of k cm] effect_ticks [OF eff] self show ?thesis by (auto split: if_splits)
  qed
  have fresh: "s_log G' (wv (?ths u)) = None" if "committing (?ths u)" "\<not> storing (?ths u)" for u
  proof (cases "u = t")
    case True
    with that effect_validating [OF eff] have e: "s_log G' = s_log G"
      "(committing (ths t) \<and> \<not> storing (ths t) \<and> wv th' = wv (ths t)) \<or>
       (th_wv th' = clock (s_lock G) + 1 \<and> s_ticks G' = Suc (s_ticks G))" by auto
    have "s_log G (Suc (s_ticks G)) = None"
      using g(2) [of "Suc (s_ticks G)"] by (cases "s_log G (Suc (s_ticks G))") auto
    with True e g(3) [of t] c(1) clock_succ [of "s_ticks G"] small show ?thesis by auto
  next
    case False
    with eff that show ?thesis
      using other [of u] g(3) [of u] storing_committing [of th']
      by (cases rule: effect_log) auto
  qed
  have done': "s_log G' (wv (?ths u)) = Some (entry_of (?ths u))" if "storing (?ths u)" for u
  proof (cases "u = t")
    case True
    show ?thesis
    proof (cases "storing (ths t)")
      case st: True
      with True that effect_phase [OF eff] g(4) [of t] show ?thesis by (simp add: same_tx_def)
    next
      case False
      have "s_log G' (wv th') = Some (entry_of th')"
        using eff False True that by (cases rule: effect.cases) (simp_all add: decide_def storing_committing)
      with True show ?thesis by simp
    qed
  next
    case False
    with eff that show ?thesis
      using other [of u] g(4) [of u] storing_committing [of th'] storing_committing [of "ths u"]
      by (cases rule: effect_log) auto
  qed
  have old: "k \<le> vers G' (find_lock a) \<or>
        (\<exists>u. storing (?ths u) \<and> wv (?ths u) = k \<and> find_lock a \<in> set (holds (?ths u)))"
    if k: "s_log G k = Some cm" "a \<in> fst ` set (c_writes cm)" for k cm a
    using g(5) [OF k]
  proof (elim disjE exE conjE)
    assume "k \<le> vers G (find_lock a)"
    with vers_mono [OF eff vo, of "find_lock a"] show ?thesis by linarith
  next
    fix u assume u: "storing (ths u)" "wv (ths u) = k" "find_lock a \<in> set (holds (ths u))"
    show ?thesis
    proof (cases "u = t")
      case True
      with effect_storing [OF eff _ vo, of "find_lock a"] u show ?thesis by (metis fun_upd_same)
    next
      case False
      with u show ?thesis by (metis fun_upd_other)
    qed
  qed
  have "k \<le> vers G' (find_lock a) \<or>
        (\<exists>u. storing (?ths u) \<and> wv (?ths u) = k \<and> find_lock a \<in> set (holds (?ths u)))"
    if k: "s_log G' k = Some cm" "a \<in> fst ` set (c_writes cm)" for k cm a
    using eff
  proof (cases rule: effect_log)
    case 1
    with k old show ?thesis by simp
  next
    case 2
    show ?thesis
    proof (cases "k = wv th'")
      case True
      with 2 k have "find_lock a \<in> set (holds th')" by auto
      with 2(2) True show ?thesis by (metis fun_upd_same)
    next
      case False
      with 2 k old show ?thesis by simp
    qed
  qed
  with bounds fresh done' show ?thesis unfolding log_ok_def by blast
qed

end
