(* ===== verification/Concurrent_Memory.thy ===== *)
theory Concurrent_Memory
  imports Concurrent_Inv
begin

text \<open>
  The region's memory against the log: \<open>snap L m0 n\<close> is what the commits with write versions up
  to \<open>n\<close> leave behind when they are executed one after the other. The lemmas say when a later
  step cannot change a snapshot any more (\<open>settled\<close>), and that the memory is always the newest
  snapshot except for the words a committing thread has still to copy.
\<close>

section \<open>Snapshots\<close>

definition writes :: "(nat \<Rightarrow> commit option) \<Rightarrow> nat \<Rightarrow> addr \<Rightarrow> bool" where
  "writes L k a \<longleftrightarrow> (case L k of None \<Rightarrow> False | Some c \<Rightarrow> a \<in> fst ` set (c_writes c))"

lemma writes_iff: "writes L k a \<longleftrightarrow> (\<exists>c. L k = Some c \<and> a \<in> fst ` set (c_writes c))"
  by (auto simp: writes_def split: option.splits)

lemma snap_Suc_other: "\<not> writes L (Suc n) a \<Longrightarrow> snap L m0 (Suc n) a = snap L m0 n a"
  by (auto simp: writes_def map_of_eq_None_iff [symmetric] split: option.splits)

lemma snap_same:
  "m \<le> n \<Longrightarrow> (\<And>k. m < k \<Longrightarrow> k \<le> n \<Longrightarrow> \<not> writes L k a) \<Longrightarrow> snap L m0 n a = snap L m0 m a"
proof (induction n)
  case (Suc n)
  show ?case
  proof (cases "m = Suc n")
    case False
    then have "m \<le> n" using Suc.prems(1) by simp
    then show ?thesis
      using Suc.IH Suc.prems(2) snap_Suc_other [of L n a m0] by fastforce
  qed simp
qed simp

lemma snap_diff:
  assumes "m \<le> n"
  shows "snap L m0 n a = snap L m0 m a \<or> (\<exists>k. m < k \<and> k \<le> n \<and> writes L k a)"
  using snap_same [OF assms] by metis

lemma snap_last:
  assumes "L k = Some c" and "map_of (c_writes c) a = Some v" and "0 < k" and "k \<le> n"
    and "\<And>j. k < j \<Longrightarrow> j \<le> n \<Longrightarrow> \<not> writes L j a"
  shows "snap L m0 n a = v"
proof -
  obtain j where "k = Suc j" using assms(3) by (cases k) auto
  then have "snap L m0 k a = v" using assms(1,2) by simp
  with snap_same [OF assms(4,5)] show ?thesis by simp
qed

lemma snap_upd:
  "L k = None \<Longrightarrow> (k \<le> n \<Longrightarrow> map_of (c_writes c) a = None) \<Longrightarrow>
     snap (L(k := Some c)) m0 n a = snap L m0 n a"
proof (induction n)
  case (Suc n)
  have IH: "snap (L(k := Some c)) m0 n a = snap L m0 n a"
    by (rule Suc.IH) (use Suc.prems in auto)
  show ?case
  proof (cases "k = Suc n")
    case True
    with Suc.prems IH show ?thesis by (simp del: fun_upd_apply add: fun_upd_same)
  next
    case False
    with IH show ?thesis
      by (simp del: fun_upd_apply add: fun_upd_other split: option.split)
  qed
qed simp

lemma writes_upd: "L k = None \<Longrightarrow> writes L j a \<Longrightarrow> writes (L(k := x)) j a"
  by (auto simp: writes_def split: option.splits)

section \<open>Settled words\<close>

definition settled_all :: "pool \<Rightarrow> nat \<Rightarrow> addr \<Rightarrow> bool" where
  "settled_all ths n a \<longleftrightarrow>
     (\<forall>u. committing (ths u) \<longrightarrow> wv (ths u) \<le> n \<longrightarrow> find_lock a \<notin> set (holds (ths u)))"

definition coherent :: "shared \<Rightarrow> pool \<Rightarrow> bool" where
  "coherent G ths \<longleftrightarrow> locks_ok G ths \<and> clock_ok G ths \<and> versions_ok G ths \<and> log_ok G ths"

lemma coherentD:
  assumes "coherent G ths"
  shows "locks_ok G ths" and "clock_ok G ths" and "versions_ok G ths" and "log_ok G ths"
  using assms by (simp_all add: coherent_def)

lemma coherent_step:
  assumes "coherent G ths" and "exec_thread al cl (ths t) G r = Some (th', G')"
    and "shape al (ths t)" and "s_ticks G' < 2 ^ 31"
  shows "coherent G' (ths(t := th'))"
proof -
  note c = coherentD [OF assms(1)] and eff = exec_effect [OF assms(2,3)]
  have ck: "clock_ok G' (ths(t := th'))" by (rule clock_ok_step [OF c(2) eff assms(2,4)])
  show ?thesis
    unfolding coherent_def
    using locks_ok_step [OF c(1) eff] ck versions_ok_step [OF c(3) eff c(1,2) assms(4)]
      log_ok_step [OF c(4) eff c(3,2) ck assms(4)] by blast
qed

lemma effect_committing:
  assumes "effect th G th' G'" and "committing th'" and "clock (s_lock G) = word_of_nat (s_ticks G)"
    and "s_ticks G' < 2 ^ 31"
  shows "(committing th \<and> wv th' = wv th \<and> set (holds th') \<subseteq> set (holds th)) \<or> wv th' = Suc (s_ticks G)"
  using assms clock_succ [of "s_ticks G"]
  by (cases rule: effect.cases) (auto simp: same_tx_def decide_def dest: storing_committing)

lemma settled_step:
  assumes "settled_all ths n a" and "n \<le> s_ticks G" and "effect (ths t) G th' G'"
    and "coherent G ths" and "s_ticks G' < 2 ^ 31"
  shows "settled_all (ths(t := th')) n a"
  unfolding settled_all_def
proof (intro allI impI)
  fix u assume u: "committing ((ths(t := th')) u)" "wv ((ths(t := th')) u) \<le> n"
  show "find_lock a \<notin> set (holds ((ths(t := th')) u))"
  proof (cases "u = t")
    case True
    then have "committing th'" "wv th' \<le> n" using u by simp_all
    with effect_committing [OF assms(3) _ _ assms(5)] clock_okD(1) [OF coherentD(2) [OF assms(4)]]
    have "committing (ths t)" "wv (ths t) \<le> n" "set (holds th') \<subseteq> set (holds (ths t))"
      using assms(2) by fastforce+
    with True assms(1) show ?thesis unfolding settled_all_def by auto
  next
    case False
    with u assms(1) show ?thesis by (simp add: settled_all_def)
  qed
qed

text \<open>The entry a deciding thread adds to the log.\<close>

lemma decide_fresh:
  assumes "coherent G ths" and "effect (ths t) G th' G'" and "s_ticks G' < 2 ^ 31"
    and "\<not> storing (ths t)" and "storing th'"
  shows "s_log G (wv th') = None"
proof -
  note c = coherentD [OF assms(1)]
  have "s_log G (Suc (s_ticks G)) = None"
    using log_okD(2) [OF c(4), of "Suc (s_ticks G)"] by (cases "s_log G (Suc (s_ticks G))") auto
  with assms(2,4,5,3) show ?thesis
    using log_okD(3) [OF c(4), of t] clock_okD(1) [OF c(2)] clock_succ [of "s_ticks G"]
    by (cases rule: effect.cases) (auto simp: same_tx_def decide_def dest: storing_committing)
qed

lemma writes_step:
  assumes "coherent G ths" and "effect (ths t) G th' G'" and "s_ticks G' < 2 ^ 31"
    and "writes (s_log G) k a"
  shows "writes (s_log G') k a"
  using assms(2)
proof (cases rule: effect_log)
  case 1
  with assms(4) show ?thesis by simp
next
  case 2
  with writes_upd [OF decide_fresh [OF assms(1-3)] assms(4)] show ?thesis by simp
qed

lemma not_written: "find_lock a \<notin> set (stripes ws) \<Longrightarrow> map_of ws a = None"
  by (force simp: map_of_eq_None_iff)

lemma snap_step:
  assumes "coherent G ths" and eff: "effect (ths t) G th' G'" and "s_ticks G' < 2 ^ 31"
    and "settled_all ths n a" and "n \<le> s_ticks G"
  shows "snap (s_log G') m0 n a = snap (s_log G) m0 n a"
  using eff
proof (cases rule: effect_log)
  case 1
  then show ?thesis by simp
next
  case 2
  have "settled_all (ths(t := th')) n a"
    using settled_step [OF assms(4,5) eff assms(1,3)] .
  then have "wv th' \<le> n \<Longrightarrow> find_lock a \<notin> set (stripes (th_wset th'))"
    using 2 storing_committing [OF 2(2)] unfolding settled_all_def by (metis fun_upd_same)
  then have "wv th' \<le> n \<Longrightarrow> map_of (th_wset th') a = None"
    using not_written by blast
  then show ?thesis
    unfolding 2(3) using decide_fresh [OF assms(1) eff assms(3) 2(1,2)] by (intro snap_upd) simp_all
qed

section \<open>The memory\<close>

definition mem_ok :: "nat \<Rightarrow> (addr \<Rightarrow> byte list) \<Rightarrow> shared \<Rightarrow> pool \<Rightarrow> bool" where
  "mem_ok al m0 G ths \<longleftrightarrow>
     (\<forall>u a. storing (ths u) \<longrightarrow> a \<in> fst ` set (pend (ths u)) \<longrightarrow> aligned al a \<longrightarrow>
        load (s_mem G) a al = snap (s_log G) m0 (wv (ths u) - 1) a) \<and>
     (\<forall>a. (\<forall>u. storing (ths u) \<longrightarrow> a \<notin> fst ` set (pend (ths u))) \<longrightarrow> aligned al a \<longrightarrow>
        load (s_mem G) a al = snap (s_log G) m0 (s_ticks G) a)"

lemma mem_okD:
  assumes "mem_ok al m0 G ths" and "aligned al a"
  shows "storing (ths u) \<Longrightarrow> a \<in> fst ` set (pend (ths u)) \<Longrightarrow>
        load (s_mem G) a al = snap (s_log G) m0 (wv (ths u) - 1) a"
    and "(\<And>u. storing (ths u) \<Longrightarrow> a \<notin> fst ` set (pend (ths u))) \<Longrightarrow>
        load (s_mem G) a al = snap (s_log G) m0 (s_ticks G) a"
  using assms unfolding mem_ok_def by blast+

lemma pend_holds: "a \<in> fst ` set (pend th) \<Longrightarrow> find_lock a \<in> set (holds th)"
proof -
  assume "a \<in> fst ` set (pend th)"
  moreover have "x \<in> set (tl ws) \<Longrightarrow> x \<in> set ws" for x and ws :: wset
    by (cases ws) auto
  then have "set (pend th) \<subseteq> set (holds_at (th_wset th) (th_pc th))"
    by (cases "th_pc th") (auto simp: pend_def)
  ultimately show ?thesis by (force simp: holds_def)
qed

lemma pend_tail:
  assumes "distinct (holds th)" and "pend th = (a, v) # ws" and "b \<in> fst ` set ws"
  shows "b \<noteq> a"
proof -
  have "distinct (stripes (pend th))"
    using assms(1) by (cases "th_pc th") (auto simp: pend_def holds_def map_tl distinct_tl)
  with assms(2,3) show ?thesis by auto
qed

text \<open>Above the write version of the holder nothing in the log writes the word.\<close>

lemma held_not_written:
  assumes "coherent G ths" and "committing (ths u)" and "find_lock a \<in> set (holds (ths u))"
    and "wv (ths u) < k"
  shows "\<not> writes (s_log G) k a"
proof
  note c = coherentD [OF assms(1)]
  assume "writes (s_log G) k a"
  then obtain e where e: "s_log G k = Some e" "a \<in> fst ` set (c_writes e)" by (auto simp: writes_iff)
  from log_okD(5) [OF c(4) e] show False
  proof (elim disjE exE conjE)
    assume "k \<le> vers G (find_lock a)"
    with versions_okD(2) [OF c(3) assms(2,3)] assms(4) show False by simp
  next
    fix w assume "storing (ths w)" "wv (ths w) = k" "find_lock a \<in> set (holds (ths w))"
    with locks_okD(2) [OF c(1) assms(3), of w] assms(4) show False by auto
  qed
qed

lemma snap_ticks: "log_ok G ths \<Longrightarrow> s_ticks G \<le> n \<Longrightarrow> snap (s_log G) m0 n a = snap (s_log G) m0 (s_ticks G) a"
  using log_okD(2) [of G ths] by (intro snap_same) (fastforce simp: writes_iff)+

lemma effect_memory:
  assumes "effect th G th' G'"
  obtains (same) "s_mem G' = s_mem G" "s_log G' = s_log G" "pend th' = pend th"
      "storing th' \<Longrightarrow> storing th \<and> wv th' = wv th" "storing th \<Longrightarrow> storing th' \<or> pend th = []"
  | (decided) "\<not> storing th" "storing th'" "s_log G' = (s_log G)(wv th' := Some (entry_of th'))"
    "pend th' = th_wset th'" "s_mem G' = s_mem G" "holds th' = stripes (th_wset th')" "holds th' = holds th"
    "\<not> stamped th' i"
  | (copied) a v where "storing th" "storing th'" "wv th' = wv th" "s_mem G' = store (s_mem G) a v"
    "s_log G' = s_log G" "pend th = (a, v) # pend th'" "s_ticks G' = s_ticks G"
    "th_wset th' = th_wset th"
proof -
  have "(s_mem G' = s_mem G \<and> s_log G' = s_log G \<and> pend th' = pend th \<and>
      (storing th' \<longrightarrow> storing th \<and> wv th' = wv th) \<and> (storing th \<longrightarrow> storing th' \<or> pend th = [])) \<or>
    (\<not> storing th \<and> storing th' \<and> s_log G' = (s_log G)(wv th' := Some (entry_of th')) \<and>
      pend th' = th_wset th' \<and> s_mem G' = s_mem G \<and> holds th' = stripes (th_wset th') \<and>
      holds th' = holds th \<and> \<not> stamped th' i) \<or>
    (\<exists>a v. storing th \<and> storing th' \<and> wv th' = wv th \<and> s_mem G' = store (s_mem G) a v \<and>
      s_log G' = s_log G \<and> pend th = (a, v) # pend th' \<and> s_ticks G' = s_ticks G \<and> th_wset th' = th_wset th)"
    using assms
  proof (cases rule: effect.cases)
    case quiet
    then show ?thesis by (cases "committing th") (auto simp: same_tx_def dest: storing_committing)
  next
    case fast
    then show ?thesis using stamped_pc(1) [of th'] storing_committing [of th] by (auto simp: decide_def)
  next
    case decided
    then show ?thesis using stamped_pc(1) [of th'] by (simp add: decide_def)
  qed (auto simp: same_tx_def pend_def storing_def committing_def split: pc.splits)
  then show thesis using that by blast
qed

lemma mem_ok_step:
  assumes mo: "mem_ok al m0 G ths" and co: "coherent G ths" and co': "coherent G' (ths(t := th'))"
    and eff: "effect (ths t) G th' G'" and small: "s_ticks G' < 2 ^ 31" and ws: "word_size al"
    and sh: "shape al (ths t)"
  shows "mem_ok al m0 G' (ths(t := th'))"
proof -
  note c = coherentD [OF co] and c' = coherentD [OF co'] and m = mem_okD [OF mo]
  let ?ths = "ths(t := th')"
  have le: "s_ticks G \<le> s_ticks G'" by (rule effect_ticks [OF eff])
  have sep: "find_lock a \<notin> set (holds (ths u))" if "u \<noteq> t" "find_lock a \<in> set (holds (ths t))" for u a
    using locks_okD(2) [OF c(1)] that by blast
  from eff show ?thesis
  proof (cases rule: effect_memory [where i = 0])
    case same
    have newest: "load (s_mem G) a al = snap (s_log G) m0 (s_ticks G') a"
      if "\<And>u. storing (ths u) \<Longrightarrow> a \<notin> fst ` set (pend (ths u))" "aligned al a" for a
      using m(2) [OF that(2,1)] snap_ticks [OF c(4) le] by simp
    have st: "storing (ths u) \<Longrightarrow> a \<notin> fst ` set (pend (ths u))"
      if "\<And>u. storing (?ths u) \<Longrightarrow> a \<notin> fst ` set (pend (?ths u))" for u a
      using that [of u] same(3,5) by (cases "u = t") auto
    have "load (s_mem G) a al = snap (s_log G) m0 (wv (?ths u) - 1) a"
      if "storing (?ths u)" "a \<in> fst ` set (pend (?ths u))" "aligned al a" for u a
      using that m(1) [OF that(3), of u] same(3,4) by (cases "u = t") auto
    then show ?thesis
      unfolding mem_ok_def same(1,2) using newest st by blast
  next
    case decided
    have com: "committing (?ths t)" using decided(2) by (simp add: storing_committing)
    have fresh: "s_log G (wv th') = None" by (rule decide_fresh [OF co eff small decided(1,2)])
    have upd: "snap (s_log G') m0 n a = snap (s_log G) m0 n a"
      if "wv th' \<le> n \<Longrightarrow> map_of (th_wset th') a = None" for n a
      unfolding decided(3) using fresh that by (intro snap_upd) simp_all
    have wle: "wv th' \<le> s_ticks G'" "0 < wv th'"
      using clock_okD(3,4) [OF c'(2), of t] com by simp_all
    have mine: "load (s_mem G) a al = snap (s_log G') m0 (wv th' - 1) a"
      if "a \<in> fst ` set (th_wset th')" "aligned al a" for a
    proof -
      have h: "find_lock a \<in> set (holds (ths t))" using decided(6,7) that(1) by (metis (no_types, lifting) image_iff imageI set_map image_image)
      have "a \<notin> fst ` set (pend (ths u))" if "storing (ths u)" for u
        using pend_holds [of a "ths u"] sep [of u a] h decided(1) that by (cases "u = t") auto
      then have "load (s_mem G) a al = snap (s_log G) m0 (s_ticks G') a"
        using m(2) [OF that(2)] snap_ticks [OF c(4) le] by simp
      also have "\<dots> = snap (s_log G) m0 (wv th' - 1) a"
      proof (rule snap_same)
        fix k assume k: "wv th' - 1 < k" "k \<le> s_ticks G'"
        show "\<not> writes (s_log G) k a"
        proof (cases "k = wv th'")
          case True
          with fresh show ?thesis by (simp add: writes_def)
        next
          case False
          with k have "wv (?ths t) < k" by simp
          then have "\<not> writes (s_log G') k a"
            using h decided(7) by (intro held_not_written [OF co' com]) simp_all
          then show ?thesis using writes_step [OF co eff small] by blast
        qed
      qed (use wle in simp)
      also have "\<dots> = snap (s_log G') m0 (wv th' - 1) a"
        using wle by (intro upd [symmetric]) simp
      finally show ?thesis .
    qed
    have one: "load (s_mem G) a al = snap (s_log G') m0 (wv (?ths u) - 1) a"
      if u: "storing (?ths u)" "a \<in> fst ` set (pend (?ths u))" and al: "aligned al a" for u a
    proof (cases "u = t")
      case True
      with mine u al decided(4) show ?thesis by simp
    next
      case False
      with u have "find_lock a \<in> set (holds (ths u))" using pend_holds by simp
      then have "find_lock a \<notin> set (stripes (th_wset th'))"
        using sep [of u a] False decided(6,7) by auto
      then have "map_of (th_wset th') a = None" by (rule not_written)
      with m(1) [OF al, of u] u False upd show ?thesis by simp
    qed
    have two: "load (s_mem G) a al = snap (s_log G') m0 (s_ticks G') a"
      if "\<And>u. storing (?ths u) \<Longrightarrow> a \<notin> fst ` set (pend (?ths u))" and "aligned al a" for a
    proof -
      have "a \<notin> fst ` set (th_wset th')" using that(1) [of t] decided(2,4) by simp
      then have n: "map_of (th_wset th') a = None" by (simp add: map_of_eq_None_iff)
      have "storing (ths u) \<Longrightarrow> a \<notin> fst ` set (pend (ths u))" for u
        using that(1) [of u] decided(1) by (cases "u = t") auto
      then show ?thesis
        using m(2) [OF that(2)] snap_ticks [OF c(4) le] upd n by simp
    qed
    show ?thesis unfolding mem_ok_def decided(5) using one two by blast
  next
    case (copied b v)
    have h: "find_lock b \<in> set (holds (ths t))" using pend_holds [of b "ths t"] copied(6) by simp
    have inw: "(b, v) \<in> set (th_wset (ths t))" and wok: "wset_ok al (th_wset (ths t))"
      using sh copied(1,6)
      by (auto simp: shape_def storing_def pend_def split: pc.splits dest: list.set_sel(2) intro: list.set_sel) 
    then have b: "aligned al b" "length v = al" "map_of (th_wset (ths t)) b = Some v"
      by (auto simp: wset_ok_def)
    have com: "committing (ths t)" using copied(1) by (rule storing_committing)
    have other: "load (s_mem G') a al = load (s_mem G) a al" if "aligned al a" "a \<noteq> b" for a
      unfolding copied(4) using load_store_other [OF ws b(1) that(1) _ b(2)] that(2) by auto
    have one: "load (s_mem G') a al = snap (s_log G) m0 (wv (?ths u) - 1) a"
      if u: "storing (?ths u)" "a \<in> fst ` set (pend (?ths u))" and al: "aligned al a" for u a
    proof -
      have ne: "a \<noteq> b" and p: "a \<in> fst ` set (pend (ths u))"
      proof -
        show "a \<noteq> b"
          using u copied(6) h sep [of u a] pend_holds [of a "ths u"]
            pend_tail [OF locks_okD(1) [OF c(1)], of t b v "pend th'" a] by (cases "u = t") auto
        show "a \<in> fst ` set (pend (ths u))" using u copied(6) by (cases "u = t") auto
      qed
      have "storing (ths u)" "wv (?ths u) = wv (ths u)" using u copied(1,3) by (cases "u = t"; simp)+
      with m(1) [OF al _ p] other [OF al ne] show ?thesis by simp
    qed
    have two: "load (s_mem G') a al = snap (s_log G) m0 (s_ticks G) a"
      if a: "\<And>u. storing (?ths u) \<Longrightarrow> a \<notin> fst ` set (pend (?ths u))" and al: "aligned al a" for a
    proof (cases "a = b")
      case True
      have "snap (s_log G) m0 (s_ticks G) b = v"
      proof (rule snap_last)
        show "s_log G (wv (ths t)) = Some (entry_of (ths t))" by (rule log_okD(4) [OF c(4) copied(1)])
        show "wv (ths t) \<le> s_ticks G" "0 < wv (ths t)"
          using clock_okD(3,4) [OF c(2) com] by simp_all
        show "\<And>j. wv (ths t) < j \<Longrightarrow> \<not> writes (s_log G) j b"
          by (rule held_not_written [OF co com h])
      qed (use b(3) in simp)
      moreover have "load (s_mem G') b al = v"
        unfolding copied(4) by (rule load_store_word [OF ws b(2)])
      ultimately show ?thesis using True by simp
    next
      case False
      have "storing (ths u) \<Longrightarrow> a \<notin> fst ` set (pend (ths u))" for u
        using a [of u] copied(1,2,6) False by (cases "u = t") auto
      with m(2) [OF al] other [OF al False] show ?thesis by simp
    qed
    show ?thesis unfolding mem_ok_def copied(5,7) using one two by blast
  qed
qed

end
