(* ===== verification/Concurrent_Opacity.thy ===== *)
theory Concurrent_Opacity
  imports Concurrent_Memory
begin

text \<open>
  What transactions read. A word whose load did not overlap a commit the reader has to see
  (\<open>o_clean\<close>) and that passed the validation has the value of the snapshot at the read version;
  when the transaction commits at write version \<open>n\<close> it still has the value of the snapshot at
  \<open>n - 1\<close>. The invariant of all reachable states collects this with the invariants before.
\<close>

section \<open>The reader invariant\<close>

definition obs_ok :: "(addr \<Rightarrow> byte list) \<Rightarrow> shared \<Rightarrow> pool \<Rightarrow> nat \<Rightarrow> obs \<Rightarrow> bool" where
  "obs_ok m0 G ths n ob \<longleftrightarrow> (o_clean ob \<longrightarrow>
     settled_all ths n (o_addr ob) \<and> o_val ob = snap (s_log G) m0 n (o_addr ob))"

text \<open>Reads whose validation is under way: a wrong value will be caught.\<close>

definition loaded_ok :: "(addr \<Rightarrow> byte list) \<Rightarrow> shared \<Rightarrow> pool \<Rightarrow> nat \<Rightarrow> obs \<Rightarrow> bool" where
  "loaded_ok m0 G ths n ob \<longleftrightarrow> (o_clean ob \<longrightarrow>
     settled_all ths n (o_addr ob) \<and>
     (o_val ob = snap (s_log G) m0 n (o_addr ob) \<or> (\<exists>k > n. writes (s_log G) k (o_addr ob))))"

definition unlocked_ok :: "(addr \<Rightarrow> byte list) \<Rightarrow> shared \<Rightarrow> pool \<Rightarrow> nat \<Rightarrow> obs \<Rightarrow> bool" where
  "unlocked_ok m0 G ths n ob \<longleftrightarrow> (o_clean ob \<longrightarrow>
     settled_all ths n (o_addr ob) \<and>
     (o_val ob = snap (s_log G) m0 n (o_addr ob) \<or> n < vers G (find_lock (o_addr ob))))"

text \<open>A word of the read set whose revalidation succeeded.\<close>

definition stable :: "(addr \<Rightarrow> byte list) \<Rightarrow> shared \<Rightarrow> pool \<Rightarrow> thread \<Rightarrow> addr \<Rightarrow> bool" where
  "stable m0 G ths th a \<longleftrightarrow> settled_all ths (wv th - 1) a \<and>
     snap (s_log G) m0 (rdv th) a = snap (s_log G) m0 (wv th - 1) a"

definition half_stable :: "(addr \<Rightarrow> byte list) \<Rightarrow> shared \<Rightarrow> pool \<Rightarrow> thread \<Rightarrow> addr \<Rightarrow> bool" where
  "half_stable m0 G ths th a \<longleftrightarrow> settled_all ths (wv th - 1) a \<and>
     (snap (s_log G) m0 (rdv th) a = snap (s_log G) m0 (wv th - 1) a \<or> rdv th < vers G (find_lock a))"

text \<open>The part of the read set before the words still to validate.\<close>

definition validated :: "thread \<Rightarrow> addr list \<Rightarrow> addr list" where
  "validated th as = take (length (th_rset th) - length as) (th_rset th)"

definition phase_ok :: "(addr \<Rightarrow> byte list) \<Rightarrow> shared \<Rightarrow> pool \<Rightarrow> thread \<Rightarrow> bool" where
  "phase_ok m0 G ths th \<longleftrightarrow>
     (case th_pc th of
        RLock a (Some ob) \<Rightarrow> loaded_ok m0 G ths (rdv th) ob
      | RVer a (Some ob) \<Rightarrow> unlocked_ok m0 G ths (rdv th) ob
      | VLock as \<Rightarrow> (\<forall>a \<in> set (validated th as). stable m0 G ths th a)
      | VVer as \<Rightarrow> (\<forall>a \<in> set (validated th as). stable m0 G ths th a) \<and> half_stable m0 G ths th (hd as)
      | _ \<Rightarrow> True)"

definition reader_ok :: "(addr \<Rightarrow> byte list) \<Rightarrow> shared \<Rightarrow> pool \<Rightarrow> thread \<Rightarrow> bool" where
  "reader_ok m0 G ths th \<longleftrightarrow>
     (th_pc th \<noteq> Idle \<longrightarrow> (\<forall>ob \<in> set (th_obs th). obs_ok m0 G ths (rdv th) ob)) \<and> phase_ok m0 G ths th"

definition commits_ok :: "(addr \<Rightarrow> byte list) \<Rightarrow> shared \<Rightarrow> pool \<Rightarrow> bool" where
  "commits_ok m0 G ths \<longleftrightarrow>
     (\<forall>k c. s_log G k = Some c \<longrightarrow> (\<forall>ob \<in> set (c_reads c). obs_ok m0 G ths (k - 1) ob))"

section \<open>Steps of other threads\<close>

lemma obs_ok_step:
  assumes "coherent G ths" and "effect (ths t) G th' G'" and "s_ticks G' < 2 ^ 31" and "n \<le> s_ticks G"
  shows "obs_ok m0 G ths n ob \<Longrightarrow> obs_ok m0 G' (ths(t := th')) n ob"
    and "loaded_ok m0 G ths n ob \<Longrightarrow> loaded_ok m0 G' (ths(t := th')) n ob"
    and "unlocked_ok m0 G ths n ob \<Longrightarrow> unlocked_ok m0 G' (ths(t := th')) n ob"
proof -
  let ?a = "o_addr ob"
  note st = settled_step [OF _ assms(4,2,1,3), of ?a] and sn = snap_step [OF assms(1-3) _ assms(4), of ?a m0]
  note vm = vers_mono [OF assms(2) coherentD(3) [OF assms(1)], of "find_lock ?a"]
  note wr = writes_step [OF assms(1-3), of _ ?a]
  show "obs_ok m0 G ths n ob \<Longrightarrow> obs_ok m0 G' (ths(t := th')) n ob"
    unfolding obs_ok_def by (simp add: st sn)
  show "loaded_ok m0 G ths n ob \<Longrightarrow> loaded_ok m0 G' (ths(t := th')) n ob"
    unfolding loaded_ok_def using wr by (auto simp: st sn)
  show "unlocked_ok m0 G ths n ob \<Longrightarrow> unlocked_ok m0 G' (ths(t := th')) n ob"
    unfolding unlocked_ok_def using vm by (auto simp: st sn)
qed

lemma stable_step:
  assumes "coherent G ths" and "effect (ths t) G th' G'" and "s_ticks G' < 2 ^ 31"
    and "rdv th < wv th" and "wv th - 1 \<le> s_ticks G"
  shows "stable m0 G ths th a \<Longrightarrow> stable m0 G' (ths(t := th')) th a"
    and "half_stable m0 G ths th a \<Longrightarrow> half_stable m0 G' (ths(t := th')) th a"
proof -
  have r: "rdv th \<le> s_ticks G" using assms(4,5) by simp
  have rs: "settled_all ths (wv th - 1) a \<Longrightarrow> settled_all ths (rdv th) a"
    using assms(4) unfolding settled_all_def by fastforce
  note st = settled_step [OF _ assms(5,2,1,3), of a] and sn = snap_step [OF assms(1-3) _ assms(5), of a m0]
    and sr = snap_step [OF assms(1-3) rs r, of m0]
  note vm = vers_mono [OF assms(2) coherentD(3) [OF assms(1)], of "find_lock a"]
  show "stable m0 G ths th a \<Longrightarrow> stable m0 G' (ths(t := th')) th a"
    unfolding stable_def by (simp add: st sn sr del: One_nat_def)
  show "half_stable m0 G ths th a \<Longrightarrow> half_stable m0 G' (ths(t := th')) th a"
    unfolding half_stable_def using vm by (auto simp: st sn sr simp del: One_nat_def)
qed

lemma committing_pc: "th_pc th = VLock as \<Longrightarrow> committing th" "th_pc th = VVer as \<Longrightarrow> committing th"
  by (simp_all add: committing_def)

lemma reader_ok_other:
  assumes "coherent G ths" and "effect (ths t) G th' G'" and "s_ticks G' < 2 ^ 31"
    and ok: "reader_ok m0 G ths (ths u)"
  shows "reader_ok m0 G' (ths(t := th')) (ths u)"
proof -
  note c = clock_okD [OF coherentD(2) [OF assms(1)]]
  note ob = obs_ok_step [OF assms(1-3)] and st = stable_step [OF assms(1-3)]
  have "phase_ok m0 G' (ths(t := th')) (ths u)"
  proof (cases "th_pc (ths u)")
    case (RLock a ob')
    then have "rdv (ths u) \<le> s_ticks G" using c(2) by simp
    with RLock ok ob(2) show ?thesis
      by (cases ob') (simp_all add: reader_ok_def phase_ok_def)
  next
    case (RVer a ob')
    then have "rdv (ths u) \<le> s_ticks G" using c(2) by simp
    with RVer ok ob(3) show ?thesis
      by (cases ob') (simp_all add: reader_ok_def phase_ok_def)
  next
    case (VLock as)
    then have "rdv (ths u) < wv (ths u)" "wv (ths u) - 1 \<le> s_ticks G"
      using c(3,4) committing_pc(1) by fastforce+
    with VLock ok st(1) show ?thesis by (simp add: reader_ok_def phase_ok_def)
  next
    case (VVer as)
    then have "rdv (ths u) < wv (ths u)" "wv (ths u) - 1 \<le> s_ticks G"
      using c(3,4) committing_pc(2) by fastforce+
    with VVer ok st show ?thesis by (simp add: reader_ok_def phase_ok_def)
  qed (simp_all add: phase_ok_def)
  with ok ob(1) c(2) show ?thesis by (auto simp: reader_ok_def)
qed

section \<open>Steps of the reader\<close>

text \<open>A load that does not overlap a commit it has to see.\<close>

lemma load_ok:
  assumes co: "coherent G ths" and mo: "mem_ok al m0 G ths" and al: "aligned al a"
    and n: "n \<le> s_ticks G" and cl: "settled_all ths n a"
  shows "loaded_ok m0 G ths n \<lparr>o_addr = a, o_val = load (s_mem G) a al, o_clean = b\<rparr>"
proof -
  have "\<exists>k \<ge> n. load (s_mem G) a al = snap (s_log G) m0 k a"
  proof (cases "\<exists>u. storing (ths u) \<and> a \<in> fst ` set (pend (ths u))")
    case True
    then obtain u where u: "storing (ths u)" "a \<in> fst ` set (pend (ths u))" by blast
    have "n < wv (ths u)"
      using cl pend_holds [OF u(2)] storing_committing [OF u(1)] unfolding settled_all_def by force
    moreover have "load (s_mem G) a al = snap (s_log G) m0 (wv (ths u) - 1) a"
      by (rule mem_okD(1) [OF mo al u])
    ultimately show ?thesis by (intro exI [of _ "wv (ths u) - 1"]) simp
  next
    case False
    then have "load (s_mem G) a al = snap (s_log G) m0 (s_ticks G) a"
      using mem_okD(2) [OF mo al] by blast
    with n show ?thesis by blast
  qed
  then obtain k where k: "n \<le> k" "load (s_mem G) a al = snap (s_log G) m0 k a" by blast
  with snap_diff [OF k(1), of "s_log G" m0 a] cl show ?thesis
    unfolding loaded_ok_def by auto
qed

lemma free_not_held: "locks_ok G ths \<Longrightarrow> \<not> held (s_lock G) a \<Longrightarrow> find_lock a \<notin> set (holds (ths u))"
  using locks_okD(3) by (auto simp: held_def)

text \<open>A free lock carries the version of every commit that wrote its words.\<close>

lemma free_version:
  assumes "coherent G ths" and "\<not> held (s_lock G) a" and "writes (s_log G) k a"
  shows "k \<le> vers G (find_lock a)"
proof -
  obtain e where "s_log G k = Some e" "a \<in> fst ` set (c_writes e)"
    using assms(3) by (auto simp: writes_iff)
  with log_okD(5) [OF coherentD(4) [OF assms(1)]] free_not_held [OF coherentD(1) [OF assms(1)] assms(2)]
  show ?thesis by blast
qed

lemma unlocked_ok_free:
  assumes "coherent G ths" and "\<not> held (s_lock G) (o_addr ob)" and "loaded_ok m0 G ths n ob"
  shows "unlocked_ok m0 G ths n ob"
  using assms(3) free_version [OF assms(1,2)] unfolding loaded_ok_def unlocked_ok_def
  by (metis less_le_trans)

lemma half_stable_free:
  assumes "coherent G ths" and "\<not> held (s_lock G) a" and "rdv th < wv th"
  shows "half_stable m0 G ths th a"
proof -
  have "settled_all ths (wv th - 1) a"
    using free_not_held [OF coherentD(1) [OF assms(1)] assms(2)] by (simp add: settled_all_def)
  moreover have "rdv th \<le> wv th - 1" using assms(3) by simp
  from snap_diff [OF this, of "s_log G" m0 a]
  have "snap (s_log G) m0 (rdv th) a = snap (s_log G) m0 (wv th - 1) a \<or> rdv th < vers G (find_lock a)"
    using free_version [OF assms(1,2)] by fastforce
  ultimately show ?thesis by (simp add: half_stable_def)
qed

lemma not_newer:
  assumes "coherent G ths" and "s_ticks G < 2 ^ 31" and "unat v \<le> s_ticks G"
    and "\<not> int_gt (ver (s_lock G) a) v"
  shows "\<not> unat v < vers G (find_lock a)"
  using assms versions_okD(1) [OF coherentD(3) [OF assms(1)], of "find_lock a"]
    int_gt_small [of "ver (s_lock G) a" v] by (simp add: ver_def)

lemma exec_obs:
  assumes "exec_thread al cl th G r = Some (th', G')" and "th_pc th' \<noteq> Idle"
  shows "th_obs th' = [] \<or> (th_pc th \<noteq> Idle \<and> th_rv th' = th_rv th \<and> (th_obs th' = th_obs th \<or>
     (\<exists>a ob. th_pc th = RVer a (Some ob) \<and> th_obs th' = th_obs th @ [ob] \<and> G' = G \<and>
        \<not> int_gt (ver (s_lock G) a) (th_rv th))))"
  using assms
  by (cases r; cases "th_pc th")
    (auto simp: step_defs Let_def shared_lock_global_clock_increment_and_get_def
      split: if_splits option.splits list.splits)

lemma exec_reading:
  assumes "exec_thread al cl th G r = Some (th', G')"
  shows "th_pc th' = RLock a (Some ob) \<Longrightarrow> th_pc th = Active \<and> th_rv th' = th_rv th \<and> G' = G \<and> aligned al a \<and>
      ob = \<lparr>o_addr = a, o_val = load (s_mem G) a al, o_clean = cl a\<rparr>"
    and "th_pc th' = RVer a (Some ob) \<Longrightarrow> th_pc th = RLock a (Some ob) \<and> th_rv th' = th_rv th \<and> G' = G \<and>
      \<not> held (s_lock G) a"
  using assms
  by (cases r; cases "th_pc th";
      auto simp: step_defs Let_def shared_lock_global_clock_increment_and_get_def
      split: if_splits option.splits list.splits)+

lemma exec_validating:
  assumes "exec_thread al cl th G r = Some (th', G')"
  shows "th_pc th' = VLock as \<Longrightarrow> (th_pc th = Tick \<and> as = th_rset th') \<or>
      (\<exists>a. th_pc th = VVer (a # as) \<and> same_tx th th' \<and> G' = G \<and> \<not> int_gt (ver (s_lock G) a) (th_rv th))"
    and "th_pc th' = VVer as \<Longrightarrow> th_pc th = VLock as \<and> same_tx th th' \<and> G' = G \<and>
      (\<exists>a as'. as = a # as' \<and> \<not> held (s_lock G) a)"
  using assms
  by (cases r; cases "th_pc th";
      auto simp: step_defs Let_def shared_lock_global_clock_increment_and_get_def same_tx_def
      split: if_splits option.splits list.splits)+

lemma unlocked_obs_ok: "unlocked_ok m0 G ths n ob \<Longrightarrow> \<not> n < vers G (find_lock (o_addr ob)) \<Longrightarrow> obs_ok m0 G ths n ob"
  by (auto simp: unlocked_ok_def obs_ok_def)

lemma half_stable_stable: "half_stable m0 G ths th a \<Longrightarrow> \<not> rdv th < vers G (find_lock a) \<Longrightarrow> stable m0 G ths th a"
  by (auto simp: half_stable_def stable_def)

lemma stable_same: "same_tx th th' \<Longrightarrow> stable m0 G ths th' = stable m0 G ths th"
  "same_tx th th' \<Longrightarrow> half_stable m0 G ths th' = half_stable m0 G ths th"
  "same_tx th th' \<Longrightarrow> validated th' = validated th"
  by (simp_all add: fun_eq_iff stable_def half_stable_def validated_def same_tx_def)

lemma validated_next:
  assumes "th_rset th = vs @ a # as"
  shows "validated th as = validated th (a # as) @ [a]"
  using assms by (simp add: validated_def)

lemma reader_ok_self:
  assumes ex: "exec_thread al cl (ths t) G r = Some (th', G')" and co: "coherent G ths"
    and small: "s_ticks G' < 2 ^ 31" and sh: "shape al (ths t)" and mo: "mem_ok al m0 G ths"
    and ok: "reader_ok m0 G ths (ths t)"
    and cl: "\<And>a. cl a \<Longrightarrow> settled_all ths (rdv (ths t)) a"
  shows "reader_ok m0 G' (ths(t := th')) th'"
proof -
  let ?th = "ths t" and ?ths = "ths(t := th')"
  have eff: "effect ?th G th' G'" by (rule exec_effect [OF ex sh])
  have small0: "s_ticks G < 2 ^ 31" using effect_ticks [OF eff] small by simp
  have ok': "reader_ok m0 G' ?ths ?th" by (rule reader_ok_other [OF co eff small ok])
  have rv: "rdv ?th \<le> s_ticks G" if "th_pc ?th \<noteq> Idle"
    using clock_okD(2) [OF coherentD(2) [OF co] that] .
  note step = obs_ok_step [OF co eff small] and vstep = stable_step [OF co eff small]
  have obs: "\<forall>ob \<in> set (th_obs th'). obs_ok m0 G' ?ths (rdv th') ob" if "th_pc th' \<noteq> Idle"
    using exec_obs [OF ex that]
  proof (elim disjE conjE exE)
    assume a: "th_pc ?th \<noteq> Idle" "th_rv th' = th_rv ?th" "th_obs th' = th_obs ?th"
    with ok' show ?thesis by (simp add: reader_ok_def)
  next
    fix a ob
    assume a: "th_rv th' = th_rv ?th" "th_pc ?th = RVer a (Some ob)" "th_obs th' = th_obs ?th @ [ob]"
      and v: "G' = G" "\<not> int_gt (ver (s_lock G) a) (th_rv ?th)"
    have "o_addr ob = a" using sh a(2) by (simp add: shape_def reading_def)
    then have "\<not> rdv ?th < vers G (find_lock (o_addr ob))"
      using not_newer [OF co small0 rv v(2)] a(2) by simp
    moreover have "unlocked_ok m0 G ths (rdv ?th) ob"
      using ok a(2) by (simp add: reader_ok_def phase_ok_def)
    ultimately have "obs_ok m0 G ths (rdv ?th) ob" by (rule unlocked_obs_ok [rotated])
    then have "obs_ok m0 G' ?ths (rdv ?th) ob" using step(1) rv a(2) by simp
    with ok' a show ?thesis by (simp add: reader_ok_def)
  qed simp
  have "phase_ok m0 G' ?ths th'"
  proof (cases "th_pc th'")
    case (RLock a obo)
    show ?thesis
    proof (cases obo)
      case (Some ob)
      with exec_reading(1) [OF ex, of a ob] RLock have e: "th_pc ?th = Active" "th_rv th' = th_rv ?th"
        "aligned al a" "ob = \<lparr>o_addr = a, o_val = load (s_mem G) a al, o_clean = cl a\<rparr>" by auto
      have r: "rdv ?th \<le> s_ticks G" using rv e(1) by simp
      have "loaded_ok m0 G ths (rdv ?th) ob"
      proof (cases "cl a")
        case True
        with load_ok [OF co mo e(3) r cl] show ?thesis unfolding e(4) by blast
      next
        case False
        then show ?thesis unfolding e(4) by (simp add: loaded_ok_def)
      qed
      with step(2) [OF r] RLock Some e(2) show ?thesis by (simp add: phase_ok_def)
    qed (simp add: phase_ok_def RLock)
  next
    case (RVer a obo)
    show ?thesis
    proof (cases obo)
      case (Some ob)
      with exec_reading(2) [OF ex, of a ob] RVer have e: "th_pc ?th = RLock a (Some ob)"
        "th_rv th' = th_rv ?th" "\<not> held (s_lock G) a" by auto
      have "o_addr ob = a" using sh e(1) by (simp add: shape_def reading_def)
      then have "unlocked_ok m0 G ths (rdv ?th) ob"
        using unlocked_ok_free [OF co] e ok by (simp add: reader_ok_def phase_ok_def)
      with step(3) rv e RVer Some show ?thesis by (simp add: phase_ok_def)
    qed (simp add: phase_ok_def RVer)
  next
    case (VLock as)
    from exec_validating(1) [OF ex VLock] show ?thesis
    proof (elim disjE conjE exE)
      assume "as = th_rset th'"
      with VLock show ?thesis by (simp add: phase_ok_def validated_def)
    next
      fix a assume a: "th_pc ?th = VVer (a # as)" "same_tx ?th th'" "G' = G"
        "\<not> int_gt (ver (s_lock G) a) (th_rv ?th)"
      obtain vs where vs: "th_rset ?th = vs @ a # as" using sh a(1) by (auto simp: shape_def)
      have w: "rdv ?th < wv ?th" "wv ?th - 1 \<le> s_ticks G"
        using clock_okD(3,4) [OF coherentD(2) [OF co] committing_pc(2) [OF a(1)]] by simp_all
      have "half_stable m0 G ths ?th a" using ok a(1) by (simp add: reader_ok_def phase_ok_def)
      then have "stable m0 G ths ?th a"
        using not_newer [OF co small0 rv a(4)] a(1) by (intro half_stable_stable) simp_all
      then have "stable m0 G' ?ths ?th a" by (rule vstep(1) [OF w])
      moreover have "\<forall>b \<in> set (validated ?th (a # as)). stable m0 G' ?ths ?th b"
        using ok' a(1) by (simp add: reader_ok_def phase_ok_def)
      ultimately show ?thesis
        using VLock a(2) validated_next [OF vs] by (simp add: phase_ok_def stable_same)
    qed
  next
    case (VVer as)
    with exec_validating(2) [OF ex, of as] obtain a as' where a: "th_pc ?th = VLock as" "same_tx ?th th'"
      "as = a # as'" "\<not> held (s_lock G) a" by auto
    have w: "rdv ?th < wv ?th" "wv ?th - 1 \<le> s_ticks G"
      using clock_okD(3,4) [OF coherentD(2) [OF co] committing_pc(1) [OF a(1)]] by simp_all
    have "half_stable m0 G' ?ths ?th a"
      by (rule vstep(2) [OF w half_stable_free [OF co a(4) w(1)]])
    moreover have "\<forall>b \<in> set (validated ?th as). stable m0 G' ?ths ?th b"
      using ok' a(1) by (simp add: reader_ok_def phase_ok_def)
    ultimately show ?thesis using VVer a(2,3) by (simp add: phase_ok_def stable_same)
  qed (simp_all add: phase_ok_def)
  with obs show ?thesis by (simp add: reader_ok_def)
qed

text \<open>The reads a committing transaction enters into the log.\<close>

lemma decided_reads:
  assumes co: "coherent G ths" and eff: "effect (ths t) G th' G'" and small: "s_ticks G' < 2 ^ 31"
    and sh: "shape al (ths t)" and ok: "reader_ok m0 G ths (ths t)"
    and new: "\<not> storing (ths t)" "storing th'" and ob: "ob \<in> set (th_obs th')"
  shows "obs_ok m0 G ths (wv th' - 1) ob \<and> wv th' - 1 \<le> s_ticks G"
  using eff
proof (cases rule: effect.cases)
  case fast
  then have "wv th' - 1 = rdv (ths t)"
    using clock_succ [of "s_ticks G"] small clock_okD(1,2) [OF coherentD(2) [OF co]] unat_clock [of "s_ticks G"]
    by (simp add: decide_def)
  moreover have "rdv (ths t) \<le> s_ticks G"
    using fast clock_okD(2) [OF coherentD(2) [OF co], of t] by simp
  ultimately show ?thesis using ok ob fast by (simp add: reader_ok_def)
next
  case decided
  have w: "wv th' - 1 \<le> s_ticks G" "wv th' = wv (ths t)"
    using clock_okD(4) [OF coherentD(2) [OF co], of t] decided by (simp_all add: same_tx_def)
  have inset: "ob \<in> set (th_obs (ths t))" using ob decided by (simp add: same_tx_def)
  then have "o_addr ob \<in> set (th_rset (ths t))" using sh decided by (auto simp: shape_def)
  then have "stable m0 G ths (ths t) (o_addr ob)"
    using ok decided(7) by (simp add: reader_ok_def phase_ok_def validated_def)
  moreover have "obs_ok m0 G ths (rdv (ths t)) ob"
    using ok inset decided(7) by (simp add: reader_ok_def)
  ultimately show ?thesis using w by (auto simp: obs_ok_def stable_def)
qed (use new in \<open>auto dest: storing_committing\<close>)

lemma commits_ok_step:
  assumes co: "coherent G ths" and eff: "effect (ths t) G th' G'" and small: "s_ticks G' < 2 ^ 31"
    and sh: "shape al (ths t)" and ok: "reader_ok m0 G ths (ths t)" and cm: "commits_ok m0 G ths"
  shows "commits_ok m0 G' (ths(t := th'))"
proof -
  have old: "obs_ok m0 G' (ths(t := th')) (k - 1) ob"
    if "s_log G k = Some c" "ob \<in> set (c_reads c)" for k c ob
  proof (rule obs_ok_step(1) [OF co eff small])
    show "k - 1 \<le> s_ticks G" using log_okD(2) [OF coherentD(4) [OF co] that(1)] by simp
    show "obs_ok m0 G ths (k - 1) ob" using cm that by (simp add: commits_ok_def)
  qed
  show ?thesis
    using eff
  proof (cases rule: effect_log)
    case 1
    with old show ?thesis by (simp add: commits_ok_def)
  next
    case 2
    have "obs_ok m0 G' (ths(t := th')) (wv th' - 1) ob" if "ob \<in> set (th_obs th')" for ob
      using decided_reads [OF co eff small sh ok 2(1,2) that] obs_ok_step(1) [OF co eff small] by blast
    with old 2(3) show ?thesis unfolding commits_ok_def by (auto split: if_splits)
  qed
qed

section \<open>The invariant of the reachable states\<close>

definition consistent :: "nat \<Rightarrow> (addr \<Rightarrow> byte list) \<Rightarrow> system \<Rightarrow> bool" where
  "consistent al m0 S \<longleftrightarrow>
     coherent (glob S) (threads S) \<and> mem_ok al m0 (glob S) (threads S) \<and>
     commits_ok m0 (glob S) (threads S) \<and>
     (\<forall>u. shape al (threads S u) \<and> reader_ok m0 (glob S) (threads S) (threads S u)) \<and>
     (\<forall>u \<ge> count S. th_pc (threads S u) = Idle)"

lemma idle_views: "th_pc th = Idle \<Longrightarrow> holds th = [] \<and> \<not> committing th \<and> \<not> storing th"
  by (simp add: view_defs)

lemma settled_iff:
  assumes "consistent al m0 S"
  shows "settled S n a \<longleftrightarrow> settled_all (threads S) n a"
  unfolding settled_def settled_all_def
proof (intro iffI allI impI)
  fix u assume h: "\<forall>u < count S. committing (threads S u) \<and> wv (threads S u) \<le> n \<longrightarrow>
      find_lock a \<notin> set (holds (threads S u))" "committing (threads S u)" "wv (threads S u) \<le> n"
  then have "u < count S" using assms idle_views by (metis consistent_def not_le)
  with h show "find_lock a \<notin> set (holds (threads S u))" by blast
qed simp

lemma consistent_initial: "consistent al (\<lambda>a. load m a al) (initial junk m n)"
proof -
  let ?S = "initial junk m n"
  have idle: "th_pc (threads ?S u) = Idle" for u by (simp add: initial_def)
  note v = idle_views [OF idle]
  have lk: "\<not> vlock (locks (s_lock (glob ?S)) i)" "version (locks (s_lock (glob ?S)) i) = 0"
    if "i < NUM_LOCKS" for i
    using that by (simp_all add: initial_def init_locks versioned_spinlock_init_def)
  have g: "clock (s_lock (glob ?S)) = 0" "s_ticks (glob ?S) = 0" "s_log (glob ?S) k = None" "s_mem (glob ?S) = m"
    for k by (simp_all add: initial_def shared_lock_init_def)
  have "coherent (glob ?S) (threads ?S)"
    by (simp add: coherent_def locks_ok_def clock_ok_def versions_ok_def log_ok_def idle v g lk)
  moreover have "mem_ok al (\<lambda>a. load m a al) (glob ?S) (threads ?S)"
    by (simp add: mem_ok_def v g)
  moreover have "shape al (threads ?S u) \<and>
      reader_ok (\<lambda>a. load m a al) (glob ?S) (threads ?S) (threads ?S u)" for u
    by (simp add: shape_def reader_ok_def phase_ok_def idle)
  ultimately show ?thesis by (simp add: consistent_def commits_ok_def idle g)
qed

lemma execE:
  assumes "exec al S t r = Some S'"
  obtains th' G' where "t < count S"
    and "exec_thread al (settled S (rdv (threads S t))) (threads S t) (glob S) r = Some (th', G')"
    and "S' = S\<lparr>glob := G', threads := (threads S)(t := th')\<rparr>"
  using assms by (auto simp: exec_def split: if_splits option.splits prod.splits)

lemma exec_ticks:
  assumes "exec al S t r = Some S'" and "shape al (threads S t)"
  shows "s_ticks (glob S) \<le> s_ticks (glob S')"
  using execE [OF assms(1)] effect_ticks exec_effect assms(2) by (metis ext_inject surjective update_convs(1,2))

lemma consistent_step:
  assumes ok: "consistent al m0 S" and ex: "exec al S t r = Some S'" and ws: "word_size al"
    and small: "s_ticks (glob S') < 2 ^ 31"
  shows "consistent al m0 S'"
proof -
  obtain th' G' where t: "t < count S"
    and ext: "exec_thread al (settled S (rdv (threads S t))) (threads S t) (glob S) r = Some (th', G')"
    and S': "S' = S\<lparr>glob := G', threads := (threads S)(t := th')\<rparr>"
    using ex by (rule execE)
  let ?ths = "threads S" and ?G = "glob S"
  have co: "coherent ?G ?ths" and mo: "mem_ok al m0 ?G ?ths" and cm: "commits_ok m0 ?G ?ths"
    and sh: "\<And>u. shape al (?ths u)" and rd: "\<And>u. reader_ok m0 ?G ?ths (?ths u)"
    and idle: "\<And>u. count S \<le> u \<Longrightarrow> th_pc (?ths u) = Idle"
    using ok by (auto simp: consistent_def)
  have sm: "s_ticks G' < 2 ^ 31" using small S' by simp
  have eff: "effect (?ths t) ?G th' G'" by (rule exec_effect [OF ext sh])
  have co': "coherent G' (?ths(t := th'))" by (rule coherent_step [OF co ext sh sm])
  have mo': "mem_ok al m0 G' (?ths(t := th'))" by (rule mem_ok_step [OF mo co co' eff sm ws sh])
  have cm': "commits_ok m0 G' (?ths(t := th'))" by (rule commits_ok_step [OF co eff sm sh rd cm])
  have rd': "reader_ok m0 G' (?ths(t := th')) th'"
    by (rule reader_ok_self [OF ext co sm sh mo rd]) (simp add: settled_iff [OF ok])
  have "reader_ok m0 G' (?ths(t := th')) ((?ths(t := th')) u)" for u
    using rd' reader_ok_other [OF co eff sm rd [of u]] by (cases "u = t") simp_all
  moreover have "shape al ((?ths(t := th')) u)" for u
    using shape_step [OF ext sh] sh by (cases "u = t") simp_all
  moreover have "count S \<le> u \<Longrightarrow> th_pc ((?ths(t := th')) u) = Idle" for u
    using idle t by simp
  ultimately show ?thesis
    unfolding consistent_def S' using co' mo' cm' by simp
qed

lemma reachable_shape: "reachable al junk m n S \<Longrightarrow> shape al (threads S u)"
proof (induction rule: reachable.induct)
  case init
  then show ?case by (simp add: initial_def shape_def)
next
  case (step S t r S')
  obtain th' G' where
    "exec_thread al (settled S (rdv (threads S t))) (threads S t) (glob S) r = Some (th', G')"
    "S' = S\<lparr>glob := G', threads := (threads S)(t := th')\<rparr>"
    using step.hyps(2) by (rule execE)
  with step.IH shape_step show ?case by (cases "u = t") auto
qed

lemma reachable_consistent:
  assumes "word_size al" and "reachable al junk m n S" and "s_ticks (glob S) < 2 ^ 31"
  shows "consistent al (\<lambda>a. load m a al) S"
  using assms(2,3)
proof (induction rule: reachable.induct)
  case init
  show ?case by (rule consistent_initial)
next
  case (step S t r S')
  have "s_ticks (glob S) \<le> s_ticks (glob S')"
    by (rule exec_ticks [OF step.hyps(2) reachable_shape [OF step.hyps(1)]])
  with step.prems have "consistent al (\<lambda>a. load m a al) S" by (intro step.IH) simp
  then show ?case by (rule consistent_step [OF _ step.hyps(2) assms(1) step.prems])
qed

end
