(* ===== verification/Concurrent_Progress.thy ===== *)
theory Concurrent_Progress
  imports Concurrent_Steps
begin

text \<open>
  Progress: \<open>tm_read\<close> of one word and \<open>tm_end\<close> return after a bounded number of steps of their
  own thread, whatever the other threads do; \<open>work\<close> is the bound. No step of the machine waits
  for another thread.
\<close>

fun work_at :: "thread \<Rightarrow> pc \<Rightarrow> nat" where
  "work_at th Idle = 0"
| "work_at th Active = 0"
| "work_at th (RLock a ob) = 2"
| "work_at th (RVer a ob) = 1"
| "work_at th (LkX got todo b) =
     10 * length todo + 2 * (4 - b) + 2 * length (th_rset th) + 3 * length (th_wset th) + 4"
| "work_at th (LkS got todo b) =
     10 * length todo + 2 * (4 - b) + 2 * length (th_rset th) + 3 * length (th_wset th) + 3"
| "work_at th (Unl todo) = length todo + 1"
| "work_at th Tick = 2 * length (th_rset th) + 3 * length (th_wset th) + 3"
| "work_at th (VLock as) = 2 * length as + 3 * length (th_wset th) + 2"
| "work_at th (VVer as) = 2 * length as + 3 * length (th_wset th) + 1"
| "work_at th (StMem ws) = 3 * length ws + 1"
| "work_at th (StVer ws) = 3 * length ws"
| "work_at th (StRel ws) = 3 * length ws - 1"

definition work :: "thread \<Rightarrow> nat" where
  "work th = work_at th (th_pc th)"

lemma work_decreases:
  assumes "exec_thread al cl th G Go = Some (th', G')" and "shape al th"
  shows "work th' < work th"
  using assms
  by (cases "th_pc th")
    (auto simp: step_defs work_def shape_def Let_def shared_lock_global_clock_increment_and_get_def
      split: if_splits option.splits list.splits)

text \<open>What is left to do when the call of an operation has made its first step.\<close>

abbreviation call_bound :: "request \<Rightarrow> thread \<Rightarrow> nat" where
  "call_bound r th \<equiv>
     (case r of End \<Rightarrow> 13 * length (th_wset th) + 2 * length (th_rset th) + 12 | Read a \<Rightarrow> 2 | _ \<Rightarrow> 0)"

lemma entry_work:
  assumes "exec_thread al cl th G r = Some (th', G')" and "r \<noteq> Go"
  shows "work th' \<le> call_bound r th"
  using assms by (cases r) (auto simp: step_defs work_def Let_def split: if_splits option.splits)

lemma no_work:
  assumes "shape al th" and "work th = 0"
  shows "th_pc th \<in> {Idle, Active}"
  using assms by (cases "th_pc th") (auto simp: work_def shape_def neq_Nil_conv)

lemma keeps_rv:
  assumes "exec_thread al cl th G r = Some (th', G')" and "\<And>ro. r \<noteq> Begin ro"
  shows "th_rv th' = th_rv th"
  using assms
  by (cases r; cases "th_pc th")
    (auto simp: step_defs Let_def shared_lock_global_clock_increment_and_get_def
      split: if_splits option.splits list.splits)

lemma never_blocked:
  assumes "shape al th" and "th_pc th \<noteq> Idle" and "th_pc th \<noteq> Active" and "th_rv th \<noteq> INT_MAX"
  shows "exec_thread al cl th G Go \<noteq> None"
  using assms
  by (cases "th_pc th")
    (auto simp: step_defs shape_def Let_def shared_lock_global_clock_increment_and_get_def int_succ_def
      split: if_splits option.splits list.splits)

lemma run_work:
  assumes "run al S rs = Some S'" and "\<And>u. shape al (threads S u)"
    and "\<And>r. (t, r) \<in> set rs \<Longrightarrow> r = Go"
  shows "length (filter (\<lambda>(u, _). u = t) rs) + work (threads S' t) \<le> work (threads S t)"
  using assms
proof (induction al S rs rule: run.induct)
  case (2 al S u r rs)
  then obtain S1 where S1: "exec al S u r = Some S1" "run al S1 rs = Some S'"
    by (auto split: option.splits)
  then obtain th' G' where th': "exec_thread al (settled S (unat (th_rv (threads S u)))) (threads S u) (glob S) r = Some (th', G')"
    "threads S1 = (threads S)(u := th')"
    by (auto simp: exec_def split: if_splits option.splits)
  have "shape al (threads S1 v)" for v
    using shape_step [OF th'(1)] "2.prems"(2) th'(2) by (cases "v = u") auto
  then have IH: "length (filter (\<lambda>(u, _). u = t) rs) + work (threads S' t) \<le> work (threads S1 t)"
    using "2.IH" [OF S1] "2.prems"(3) by simp
  show ?case
  proof (cases "u = t")
    case True
    then have "r = Go" using "2.prems"(3) by simp
    then have "work th' < work (threads S t)"
      using work_decreases th'(1) "2.prems"(2) True by metis
    with IH True th'(2) show ?thesis by simp
  next
    case False
    with IH th'(2) show ?thesis by simp
  qed
qed simp

lemma exec_shapes:
  assumes "exec al S u r = Some S'" and "\<And>w. shape al (threads S w)"
  shows "shape al (threads S' w)"
  using assms shape_step by (cases "w = u") (auto simp: exec_def split: if_splits option.splits)

lemma run_shapes:
  "run al S rs = Some S' \<Longrightarrow> (\<And>w. shape al (threads S w)) \<Longrightarrow> shape al (threads S' w)"
proof (induction al S rs rule: run.induct)
  case (2 al S u r rs)
  then show ?case using exec_shapes [of al S u r] by (auto split: option.splits)
qed simp

lemma run_keeps_rv:
  assumes "run al S rs = Some S'" and "\<And>ro. (t, Begin ro) \<notin> set rs"
  shows "th_rv (threads S' t) = th_rv (threads S t) \<and> count S' = count S"
  using assms
proof (induction al S rs rule: run.induct)
  case (2 al S u r rs)
  then obtain S1 where S1: "exec al S u r = Some S1" "run al S1 rs = Some S'"
    by (auto split: option.splits)
  have "u = t \<Longrightarrow> r \<noteq> Begin ro" for ro using "2.prems"(2) by auto
  then have "th_rv (threads S1 t) = th_rv (threads S t) \<and> count S1 = count S"
    using S1(1) keeps_rv [of al _ "threads S t" "glob S" r]
    by (fastforce simp: exec_def split: if_splits option.splits)
  moreover have "th_rv (threads S' t) = th_rv (threads S1 t) \<and> count S' = count S1"
    using "2.IH" [OF S1] "2.prems"(2) by simp
  ultimately show ?case by simp
qed simp

end
