(* ===== verification/Concurrent_Stale.thy ===== *)
theory Concurrent_Stale
  imports Concurrent
begin

text \<open>
  A schedule of the machine in which two read-modify-writes of one word lose one of them, although
  both transactions commit. \<open>tm_read\<close> samples the lock only after the copy: a reader that begins
  after the clock increment of a commit, and copies before the commit stores the word, passes
  the validation once the commit has released the lock, because the version it finds is not
  above its read version.
\<close>

section \<open>The schedule\<close>

text \<open>
  Thread \<open>t\<close> reads a word, writes it, and runs its commit up to the clock increment; thread \<open>u\<close>
  begins and copies the word; \<open>t\<close> stores the word and releases the lock; \<open>u\<close> validates what it
  copied, writes the word and commits.
\<close>

definition race1 :: "nat \<Rightarrow> addr \<Rightarrow> byte list \<Rightarrow> (nat \<times> request) list" where
  "race1 t a v = [(t, Begin False), (t, Read a), (t, Go), (t, Go), (t, Write a v), (t, End), (t, Go), (t, Go), (t, Go)]"

definition race2 :: "nat \<Rightarrow> nat \<Rightarrow> addr \<Rightarrow> (nat \<times> request) list" where
  "race2 t u a = [(u, Begin False), (u, Read a), (t, Go), (t, Go), (t, Go), (t, Go)]"

definition race3 :: "nat \<Rightarrow> addr \<Rightarrow> byte list \<Rightarrow> (nat \<times> request) list" where
  "race3 u a v = [(u, Go), (u, Go), (u, Write a v), (u, End), (u, Go), (u, Go), (u, Go), (u, Go), (u, Go), (u, Go), (u, Go)]"

lemmas machine =
  do_begin_def do_load_def do_check_lock_def do_check_ver_def do_write_def do_end_def
  do_exchange_def do_spin_def do_unlock_def do_tick_def do_validate_lock_def do_validate_ver_def
  do_store_def do_update_def do_release_def at_def decide_def Let_def
  shared_lock_global_clock_get_def shared_lock_global_clock_increment_and_get_def


text \<open>
  Each part from any state that allows it; the two threads may be any two, and the others may be
  anywhere.
\<close>

lemma commit_first:
  assumes "t < count S" and "th_pc (threads S t) = Idle" and "aligned al a" and "length v = al"
    and "\<not> held (s_lock (glob S)) a" and "\<not> int_gt (ver (s_lock (glob S)) a) (clock (s_lock (glob S)))"
    and "clock (s_lock (glob S)) \<noteq> INT_MAX"
  shows "\<exists>b S'. run al S (race1 t a v) = Some S' \<and> count S' = count S \<and>
    th_pc (threads S' t) = StMem [(a, v)] \<and> th_wv (threads S' t) = clock (s_lock (glob S)) + 1 \<and>
    (\<forall>w. w \<noteq> t \<longrightarrow> threads S' w = threads S w) \<and> held (s_lock (glob S')) a \<and>
    clock (s_lock (glob S')) = clock (s_lock (glob S)) + 1 \<and> s_mem (glob S') = s_mem (glob S) \<and>
    s_log (glob S') = (s_log (glob S))(unat (clock (s_lock (glob S)) + 1) \<mapsto>
      \<lparr>c_reads = [\<lparr>o_addr = a, o_val = load (s_mem (glob S)) a al, o_clean = b\<rparr>], c_writes = [(a, v)]\<rparr>)"
  using assms
  by (simp add: race1_def exec_def machine int_succ_def split del: if_split) blast

definition fresh_reader :: "addr \<Rightarrow> thread \<Rightarrow> bool" where
  "fresh_reader a th \<longleftrightarrow> \<not> th_ro th \<and> th_rset th = [a] \<and> th_wset th = [] \<and> th_obs th = []"

lemma read_stale:
  assumes "t \<noteq> u" and "t < count S" and "u < count S" and "th_pc (threads S u) = Idle" and "aligned al a"
    and "th_pc (threads S t) = StMem [(a, v)]" and "th_wv (threads S t) = clock (s_lock (glob S))"
  shows "\<exists>S'. run al S (race2 t u a) = Some S' \<and> count S' = count S \<and> th_pc (threads S' t) = Idle \<and>
    th_pc (threads S' u) = RLock a (Some \<lparr>o_addr = a, o_val = load (s_mem (glob S)) a al, o_clean = False\<rparr>) \<and>
    th_rv (threads S' u) = clock (s_lock (glob S)) \<and> fresh_reader a (threads S' u) \<and>
    \<not> held (s_lock (glob S')) a \<and> ver (s_lock (glob S')) a = clock (s_lock (glob S)) \<and>
    clock (s_lock (glob S')) = clock (s_lock (glob S)) \<and> s_log (glob S') = s_log (glob S) \<and> 
    s_mem (glob S') = store (s_mem (glob S)) a v"
  using assms
  by (simp add: race2_def fresh_reader_def exec_def machine settled_def split del: if_split)
     (intro exI [of _ t], simp add: holds_def committing_def storing_def)

lemma commit_second:
  assumes "u < count S" and "aligned al a" and "length v = al"
    and "th_pc (threads S u) = RLock a (Some ob)" and "th_rv (threads S u) = clock (s_lock (glob S))"
    and "fresh_reader a (threads S u)"
    and "\<not> held (s_lock (glob S)) a" and "\<not> int_gt (ver (s_lock (glob S)) a) (clock (s_lock (glob S)))"
    and "clock (s_lock (glob S)) \<noteq> INT_MAX"
  shows "\<exists>S'. run al S (race3 u a v) = Some S' \<and> th_pc (threads S' u) = Idle \<and>
    (\<forall>w. w \<noteq> u \<longrightarrow> threads S' w = threads S w) \<and> th_rv (threads S' u) = clock (s_lock (glob S)) \<and>
    \<not> held (s_lock (glob S')) a \<and> s_mem (glob S') = store (s_mem (glob S)) a v \<and>
    s_log (glob S') = (s_log (glob S))(unat (clock (s_lock (glob S)) + 1) \<mapsto> \<lparr>c_reads = [ob], c_writes = [(a, v)]\<rparr>)"
  using assms
  by (simp add: race3_def fresh_reader_def exec_def machine int_succ_def split del: if_split)

lemma run_append: "run al S (rs @ rs') = (case run al S rs of None \<Rightarrow> None | Some S' \<Rightarrow> run al S' rs')"
  by (induction al S rs rule: run.induct) (auto split: option.split)

section \<open>The instance from the initial state\<close>

definition counter :: addr where
  "counter = 8"

abbreviation word_of_int8 :: "byte \<Rightarrow> byte list" where
  "word_of_int8 b \<equiv> [b, 0, 0, 0, 0, 0, 0, 0]"

definition table :: shared_lock_t where
  "table = \<lparr>clock = 0, locks = (\<lambda>_. \<lparr>vlock = False, version = 0\<rparr>), segment_lock = False\<rparr>"

text \<open>Thread 0 increments 0 to 1; thread 1 reads 0, before the store, and writes 1: the states the
  witnesses use are on the way.\<close>

definition increments :: "(nat \<times> request) list" where
  "increments =
     [(0, Begin False), (0, Read counter), (0, Go), (0, Go), (0, Write counter (word_of_int8 1)),
      (0, End), (0, Go), (0, Go), (0, Go),
      (1, Begin False), (1, Read counter),
      (0, Go), (0, Go), (0, Go), (0, Go),
      (1, Go), (1, Go), (1, Write counter (word_of_int8 1)),
      (1, End), (1, Go), (1, Go), (1, Go), (1, Go), (1, Go), (1, Go), (1, Go)]"

lemma init_table: "shared_lock_init table = table"
proof (rule lock_eqI)
  show "locks (shared_lock_init table) i = locks table i" for i
    by (simp add: init_locks versioned_spinlock_init_def) (simp add: table_def)
qed (simp_all add: shared_lock_init_def table_def)

definition start_state :: system where
  "start_state = \<lparr>glob = \<lparr>s_lock = table, s_mem = (\<lambda>_. 0), s_ticks = 0, s_log = (\<lambda>_. None)\<rparr>,
      threads = (\<lambda>_. \<lparr>th_pc = Idle, th_ro = False, th_rv = 0, th_rset = [], th_wset = [],
                      th_wv = 0, th_obs = []\<rparr>),
      count = 2\<rparr>"

lemma start_initial: "initial table (\<lambda>_. 0) 2 = start_state"
  by (simp add: initial_def init_table start_state_def)

lemma counter_lock: "find_lock 8 = 8"
  by (simp add: find_lock_def NUM_LOCKS_def)

lemma two_threads: "(\<forall>u < 2. P u) \<longleftrightarrow> P 0 \<and> P (Suc 0)"
  by (auto simp: less_Suc_eq numeral_2_eq_2)

lemma counter_aligned: "aligned 8 8"
  by (simp add: aligned_def)

lemmas evaluate =
  exec_def do_begin_def do_load_def do_check_lock_def do_check_ver_def do_write_def do_end_def
  do_exchange_def do_spin_def do_unlock_def do_tick_def do_validate_lock_def do_validate_ver_def
  do_store_def do_update_def do_release_def at_def decide_def Let_def
  settled_def two_threads holds_def committing_def storing_def counter_lock counter_aligned counter_def
  shared_lock_global_clock_get_def shared_lock_global_clock_increment_and_get_def
  shared_lock_versioned_spinlock_release_def shared_lock_versioned_spinlock_update_def
  versioned_spinlock_release_def versioned_spinlock_update_def
  table_def held_def ver_def int_gt_def int_succ_def

end
