(* ===== verification/Concurrent_Results.thy ===== *)
theory Concurrent_Results
  imports Concurrent_Opacity Concurrent_Progress Concurrent_Stale
begin

text \<open>
  The properties of the concurrent machine: mutual exclusion, the order of commits, the
  consistency of clean reads before and at the commit, the memory between commits, the limit on
  write sets, progress, and the lost update that reads which are not clean allow. The bound on
  the clock excludes its overflow, which is undefined behaviour.
\<close>

section \<open>Two states the witnesses use\<close>

lemma read_run:
  "\<exists>S. run 8 start_state (take 4 increments) = Some S \<and> th_pc (threads S 0) = Active \<and>
     th_obs (threads S 0) = [\<lparr>o_addr = 8, o_val = word_of_int8 0, o_clean = True\<rparr>] \<and>
     th_rv (threads S 0) = 0 \<and> s_ticks (glob S) = 0"
  by (simp add: increments_def start_state_def evaluate) (simp add: load_def upt_rec)

lemma commit_run:
  "\<exists>S. run 8 start_state (take 9 increments) = Some S \<and>
     th_pc (threads S 0) = StMem [(8, word_of_int8 1)] \<and> th_wset (threads S 0) = [(8, word_of_int8 1)] \<and>
     s_log (glob S) 1 = Some \<lparr>c_reads = [\<lparr>o_addr = 8, o_val = word_of_int8 0, o_clean = True\<rparr>],
                              c_writes = [(8, word_of_int8 1)]\<rparr> \<and>
     s_ticks (glob S) = 1 \<and> count S = 2 \<and> th_rv (threads S 0) = 0"
  by (simp add: increments_def start_state_def evaluate) (simp add: load_def upt_rec)

lemma start_reachable: "run 8 start_state rs = Some S \<Longrightarrow> reachable 8 table (\<lambda>_. 0) 2 S"
  using run_reachable [OF reachable.init, of 8 table "\<lambda>_. 0" 2 rs S] by (simp add: start_initial)

lemma word_size_8: "word_size 8"
  by (simp add: word_size_def)

section \<open>Locks\<close>

lemma reachable_locks:
  assumes "reachable al junk m n S"
  shows "locks_ok (glob S) (threads S) \<and> (\<forall>u \<ge> n. th_pc (threads S u) = Idle) \<and> count S = n"
  using assms
proof (induction rule: reachable.induct)
  case init
  have "locks (shared_lock_init junk) i = (locks junk i)\<lparr>vlock := False, version := 0\<rparr>" if "i < NUM_LOCKS" for i
    using that by (simp add: init_locks versioned_spinlock_init_def)
  then show ?case by (simp add: locks_ok_def initial_def holds_def)
next
  case (step S t r S')
  obtain th' G' where e: "t < count S"
    "exec_thread al (settled S (rdv (threads S t))) (threads S t) (glob S) r = Some (th', G')"
    "S' = S\<lparr>glob := G', threads := (threads S)(t := th')\<rparr>"
    using step.hyps(2) by (rule execE)
  have "effect (threads S t) (glob S) th' G'"
    by (rule exec_effect [OF e(2) reachable_shape [OF step.hyps(1)]])
  then have "locks_ok G' ((threads S)(t := th'))" using locks_ok_step step.IH by blast
  with step.IH e(1,3) show ?case by (simp del: fun_upd_apply add: fun_upd_def)
qed

text \<open>C5: In every reachable state no versioned spinlock is held by two threads, and the lock
  bit of an address is set exactly when one of the threads holds its lock.\<close>

theorem lock_mutual_exclusion:
  assumes "reachable al junk m n S"
  shows "(u \<noteq> v \<longrightarrow> set (holds (threads S u)) \<inter> set (holds (threads S v)) = {}) \<and>
    (held (s_lock (glob S)) a \<longleftrightarrow> (\<exists>w < n. find_lock a \<in> set (holds (threads S w))))"
proof -
  note l = reachable_locks [OF assms]
  have "w < n" if "find_lock a \<in> set (holds (threads S w))" for w
    using that l idle_views by (metis empty_iff empty_set not_le)
  with l show ?thesis
    using locks_okD(2,3) [of "glob S" "threads S"] unfolding held_def by (metis disjoint_iff find_lock_less)
qed

theorem lock_mutual_exclusion_witness:
  "\<exists>S. reachable 8 table (\<lambda>_. 0) 2 S \<and> set (holds (threads S 0)) \<inter> set (holds (threads S 1)) = {} \<and>
     held (s_lock (glob S)) 8"
proof -
  obtain S where S: "run 8 start_state (take 9 increments) = Some S" "th_pc (threads S 0) = StMem [(8, word_of_int8 1)]"
    using commit_run by blast
  have r: "reachable 8 table (\<lambda>_. 0) 2 S" by (rule start_reachable [OF S(1)])
  have "find_lock 8 \<in> set (holds (threads S 0))" using S(2) by (simp add: holds_def)
  then have "held (s_lock (glob S)) 8"
    using lock_mutual_exclusion [OF r, of 0 1 8] by (metis zero_less_numeral)
  with r lock_mutual_exclusion [OF r, of 0 1 8] show ?thesis by (metis zero_neq_one)
qed

section \<open>Commits\<close>

lemma reachable_log:
  assumes "reachable al junk m n S" and "s_log (glob S) k = Some c"
  shows "distinct (stripes (c_writes c)) \<and> wset_ok al (c_writes c)"
  using assms
proof (induction arbitrary: k c rule: reachable.induct)
  case init
  then show ?case by (simp add: initial_def)
next
  case (step S t r S')
  obtain th' G' where e: "t < count S"
    "exec_thread al (settled S (rdv (threads S t))) (threads S t) (glob S) r = Some (th', G')"
    "S' = S\<lparr>glob := G', threads := (threads S)(t := th')\<rparr>"
    using step.hyps(2) by (rule execE)
  have sh: "shape al (threads S t)" by (rule reachable_shape [OF step.hyps(1)])
  from exec_effect [OF e(2) sh] show ?case
  proof (cases rule: effect_log)
    case 1
    with step e(3) show ?thesis by simp
  next
    case 2
    have "distinct (holds (threads S t))"
      using reachable_locks [OF step.hyps(1)] locks_okD(1) by blast
    moreover have "wset_ok al (th_wset th')"
      using shape_step [OF e(2) sh] 2(2) by (auto simp: shape_def storing_def)
    ultimately show ?thesis
      using step.IH step.prems e(3) 2 by (auto split: if_splits)
  qed
qed

text \<open>C27: Every committed transaction wrote words with pairwise different locks, hence at most
  \<open>NUM_LOCKS\<close> of them: a transaction that writes more words, or two words sharing a lock, never
  commits, however often it is retried.\<close>

theorem commit_write_limit:
  assumes "reachable al junk m n S" and "s_log (glob S) k = Some c"
  shows "distinct (stripes (c_writes c)) \<and> length (c_writes c) \<le> NUM_LOCKS"
  using reachable_log [OF assms] lockable_length [of "shared_lock_init table" "c_writes c"]
  by (simp add: lockable_def)

theorem commit_write_limit_witness:
  "\<exists>(S :: system) (c :: commit). s_log (glob S) 1 = Some c \<and> c_writes c = [(8, word_of_int8 1)] \<and>
     distinct (stripes (c_writes c)) \<and> length (c_writes c) \<le> NUM_LOCKS"
proof -
  obtain S where S: "run 8 start_state (take 9 increments) = Some S"
    "s_log (glob S) 1 = Some \<lparr>c_reads = [\<lparr>o_addr = 8, o_val = word_of_int8 0, o_clean = True\<rparr>],
                              c_writes = [(8, word_of_int8 1)]\<rparr>"
    using commit_run by blast
  then show ?thesis
    using commit_write_limit [OF start_reachable [OF S(1)] S(2)]
    by (intro exI [of _ S] exI [of _ "the (s_log (glob S) 1)"]) simp
qed

lemma run_ticks: "run al S rs = Some S' \<Longrightarrow> s_ticks (glob S) \<le> s_ticks (glob S')"
  if "\<And>u. shape al (threads S u)"
  using that
proof (induction al S rs rule: run.induct)
  case (2 al S u r rs)
  then obtain S1 where S1: "exec al S u r = Some S1" "run al S1 rs = Some S'"
    by (auto split: option.splits)
  have "s_ticks (glob S) \<le> s_ticks (glob S1)" by (rule exec_ticks [OF S1(1) "2.prems"(2)])
  also have "\<dots> \<le> s_ticks (glob S')" using "2.IH" [OF S1] exec_shapes [OF S1(1) "2.prems"(2)] by blast
  finally show ?case .
qed simp

text \<open>C28: The commits are ordered by the clock in real time. When a transaction begins, every write
  version in the log is between 1 and its read version, so that it sees all commits decided before
  it began; and however it is interleaved with other threads from there, once it commits its own
  write version is larger than its read version, hence than those of all these commits, and is
  the version under which its reads and writes are in the log.\<close>

theorem begin_after_commits:
  assumes "word_size al" and "reachable al junk m n S" and "exec al S t (Begin ro) = Some S'"
    and "run al S' rs = Some S''" and "\<And>ro'. (t, Begin ro') \<notin> set rs" and "s_ticks (glob S'') < 2 ^ 31"
    and "s_log (glob S) k = Some c"
  shows "1 \<le> k \<and> k \<le> unat (th_rv (threads S' t)) \<and> s_log (glob S') = s_log (glob S) \<and>
    (storing (threads S'' t) \<longrightarrow>
       unat (th_rv (threads S' t)) < unat (th_wv (threads S'' t)) \<and>
       s_log (glob S'') (unat (th_wv (threads S'' t))) =
         Some \<lparr>c_reads = th_obs (threads S'' t), c_writes = th_wset (threads S'' t)\<rparr>)"
proof -
  have r1: "reachable al junk m n S'" by (rule reachable.step [OF assms(2,3)])
  have r2: "reachable al junk m n S''" by (rule run_reachable [OF r1 assms(4)])
  have le: "s_ticks (glob S) \<le> s_ticks (glob S')" "s_ticks (glob S') \<le> s_ticks (glob S'')"
    using exec_ticks [OF assms(3) reachable_shape [OF assms(2)]]
      run_ticks [OF reachable_shape [OF r1] assms(4)] by auto
  then have small: "s_ticks (glob S) < 2 ^ 31" using assms(6) by simp
  have co: "coherent (glob S) (threads S)" "coherent (glob S'') (threads S'')"
    using reachable_consistent [OF assms(1,2) small] reachable_consistent [OF assms(1) r2 assms(6)]
    by (simp_all add: consistent_def)
  have "th_rv (threads S' t) = word_of_nat (s_ticks (glob S))" "s_log (glob S') = s_log (glob S)"
    using assms(3) clock_okD(1) [OF coherentD(2) [OF co(1)]]
    by (auto simp: exec_def do_begin_def at_def shared_lock_global_clock_get_def split: if_splits)
  moreover have "th_rv (threads S'' t) = th_rv (threads S' t)"
    using run_keeps_rv [OF assms(4,5)] by simp
  ultimately show ?thesis
    using log_okD(1,2) [OF coherentD(4) [OF co(1)] assms(7)] unat_clock [OF small]
      clock_okD(3) [OF coherentD(2) [OF co(2)]] log_okD(4) [OF coherentD(4) [OF co(2)]]
      storing_committing
    by (metis One_nat_def Suc_leI)
qed

lemma second_begin:
  "\<exists>S S' S''. run 8 start_state (take 9 increments) = Some S \<and> exec 8 S 1 (Begin False) = Some S' \<and>
     run 8 S' (take 12 (drop 10 increments)) = Some S'' \<and> th_pc (threads S'' 1) = StMem [(8, word_of_int8 1)] \<and>
     s_log (glob S) 1 \<noteq> None \<and> s_ticks (glob S'') = 2"
  by (simp add: increments_def start_state_def evaluate)

theorem begin_after_commits_witness:
  "\<exists>S S' S''. exec 8 S 1 (Begin False) = Some S' \<and> run 8 S' (take 12 (drop 10 increments)) = Some S'' \<and>
     1 \<le> unat (th_rv (threads S' 1)) \<and> unat (th_rv (threads S' 1)) < unat (th_wv (threads S'' 1))"
proof -
  obtain S S' S'' c where S: "run 8 start_state (take 9 increments) = Some S" "exec 8 S 1 (Begin False) = Some S'"
    "run 8 S' (take 12 (drop 10 increments)) = Some S''" "th_pc (threads S'' 1) = StMem [(8, word_of_int8 1)]"
    "s_log (glob S) 1 = Some c" "s_ticks (glob S'') = 2"
    using second_begin by blast
  have "(1, Begin ro) \<notin> set (take 12 (drop 10 increments))" for ro by (simp add: increments_def)
  from begin_after_commits [OF word_size_8 start_reachable [OF S(1)] S(2,3) this _ S(5)] S(4,6)
  have "1 \<le> unat (th_rv (threads S' 1))" "unat (th_rv (threads S' 1)) < unat (th_wv (threads S'' 1))"
    by (simp_all add: storing_def)
  with S show ?thesis by blast
qed

text \<open>C18: A lock that is free carries a version at least as large as the write version of every
  commit that wrote one of its words, which is what lets a reader notice these commits, and the
  version is not ahead of the clock.\<close>

theorem free_lock_version:
  assumes "word_size al" and "reachable al junk m n S" and "s_ticks (glob S) < 2 ^ 31"
    and "\<not> held (s_lock (glob S)) a" and "s_log (glob S) k = Some c" and "a \<in> fst ` set (c_writes c)"
  shows "k \<le> unat (ver (s_lock (glob S)) a) \<and>
    unat (ver (s_lock (glob S)) a) \<le> unat (clock (s_lock (glob S)))"
proof -
  have co: "coherent (glob S) (threads S)"
    using reachable_consistent [OF assms(1-3)] by (simp add: consistent_def)
  have "writes (s_log (glob S)) k a" using assms(5,6) by (auto simp: writes_iff)
  then show ?thesis
    using free_version [OF co assms(4)] versions_okD(1) [OF coherentD(3) [OF co], of "find_lock a"]
      clock_okD(1) [OF coherentD(2) [OF co]] unat_clock [OF assms(3)]
    by (simp add: ver_def)
qed

lemma released_run:
  "\<exists>S. run 8 start_state (take 15 increments) = Some S \<and> \<not> held (s_lock (glob S)) 8 \<and>
     (\<exists>r. s_log (glob S) 1 = Some \<lparr>c_reads = r, c_writes = [(8, word_of_int8 1)]\<rparr>) \<and> s_ticks (glob S) = 1 \<and>
     (\<forall>u. \<not> storing (threads S u))"
  by (simp add: increments_def start_state_def evaluate)

theorem free_lock_version_witness:
  "\<exists>S :: system. \<not> held (s_lock (glob S)) 8 \<and> 1 \<le> unat (ver (s_lock (glob S)) 8)"
proof -
  obtain S r where S: "run 8 start_state (take 15 increments) = Some S" "\<not> held (s_lock (glob S)) 8"
    "s_log (glob S) 1 = Some \<lparr>c_reads = r, c_writes = [(8, word_of_int8 1)]\<rparr>" "s_ticks (glob S) = 1"
    using released_run by blast
  then show ?thesis
    using free_lock_version [OF word_size_8 start_reachable [OF S(1)] _ S(2,3)]
    by (intro exI [of _ S]) simp
qed

section \<open>Reads\<close>

text \<open>C1: Opacity of clean reads. In every reachable state, every word a transaction has read and
  validated without overlapping a commit that it has to see has the value of the serial execution
  of the commits up to its read version: all of these reads come from one snapshot, whether the
  transaction later commits or not.\<close>

theorem clean_reads_opaque:
  assumes "word_size al" and "reachable al junk m n S" and "s_ticks (glob S) < 2 ^ 31"
    and "th_pc (threads S u) \<noteq> Idle" and "ob \<in> set (th_obs (threads S u))" and "o_clean ob"
  shows "o_val ob =
    snap (s_log (glob S)) (\<lambda>a. load m a al) (unat (th_rv (threads S u))) (o_addr ob)"
  using reachable_consistent [OF assms(1-3)] assms(4-6)
  by (auto simp: consistent_def reader_ok_def obs_ok_def)

theorem clean_reads_opaque_witness:
  "\<exists>S ob. run 8 start_state (take 4 increments) = Some S \<and> th_obs (threads S 0) = [ob] \<and>
     o_val ob = snap (s_log (glob S)) (\<lambda>a. load (\<lambda>_. 0) a 8) (unat (th_rv (threads S 0))) (o_addr ob)"
proof -
  let ?ob = "\<lparr>o_addr = 8, o_val = word_of_int8 0, o_clean = True\<rparr>"
  obtain S where S: "run 8 start_state (take 4 increments) = Some S" "th_pc (threads S 0) = Active"
    "th_obs (threads S 0) = [?ob]" "s_ticks (glob S) = 0"
    using read_run by blast
  have "o_val ?ob = snap (s_log (glob S)) (\<lambda>a. load (\<lambda>_. 0) a 8) (unat (th_rv (threads S 0))) (o_addr ?ob)"
    by (rule clean_reads_opaque [OF word_size_8 start_reachable [OF S(1)]]) (use S in simp_all)
  with S show ?thesis by blast
qed

text \<open>C2: Serializability. The clean reads of a transaction that committed with write version \<open>k\<close>
  have the values the serial execution of the commits with smaller write versions leaves behind;
  the transaction can be placed at \<open>k\<close> in the order of the clock.\<close>

theorem commits_serializable:
  assumes "word_size al" and "reachable al junk m n S" and "s_ticks (glob S) < 2 ^ 31"
    and "s_log (glob S) k = Some c" and "ob \<in> set (c_reads c)" and "o_clean ob"
  shows "o_val ob = snap (s_log (glob S)) (\<lambda>a. load m a al) (k - 1) (o_addr ob)"
  using reachable_consistent [OF assms(1-3)] assms(4-6)
  unfolding consistent_def commits_ok_def obs_ok_def by blast

theorem commits_serializable_witness:
  "\<exists>(S :: system) (c :: commit) (ob :: obs). s_log (glob S) 1 = Some c \<and> c_reads c = [ob] \<and>
     o_val ob = snap (s_log (glob S)) (\<lambda>a. load (\<lambda>_. 0) a 8) (1 - 1) (o_addr ob)"
proof -
  let ?ob = "\<lparr>o_addr = 8, o_val = word_of_int8 0, o_clean = True\<rparr>"
  obtain S where S: "run 8 start_state (take 9 increments) = Some S" "s_ticks (glob S) = 1"
    "s_log (glob S) 1 = Some \<lparr>c_reads = [?ob], c_writes = [(8, word_of_int8 1)]\<rparr>"
    using commit_run by blast
  have "o_val ?ob = snap (s_log (glob S)) (\<lambda>a. load (\<lambda>_. 0) a 8) (1 - 1) (o_addr ?ob)"
    by (rule commits_serializable [OF word_size_8 start_reachable [OF S(1)] _ S(3)]) (use S in simp_all)
  with S show ?thesis by (metis commit.select_convs(1))
qed

text \<open>C3: Whenever no thread is writing back, the memory of the region is what the serial
  execution of all commits in the order of their write versions leaves behind.\<close>

theorem memory_is_serial:
  assumes "word_size al" and "reachable al junk m n S" and "s_ticks (glob S) < 2 ^ 31"
    and "aligned al a" and "\<And>u. \<not> storing (threads S u)"
  shows "load (s_mem (glob S)) a al = snap (s_log (glob S)) (\<lambda>a. load m a al) (s_ticks (glob S)) a"
proof -
  have "mem_ok al (\<lambda>a. load m a al) (glob S) (threads S)"
    using reachable_consistent [OF assms(1-3)] by (simp add: consistent_def)
  then show ?thesis using mem_okD(2) assms(4,5) by blast
qed

theorem memory_is_serial_witness:
  "\<exists>S. run 8 start_state (take 15 increments) = Some S \<and>
     load (s_mem (glob S)) 8 8 = snap (s_log (glob S)) (\<lambda>a. load (\<lambda>_. 0) a 8) 1 8"
proof -
  obtain S where S: "run 8 start_state (take 15 increments) = Some S" "s_ticks (glob S) = 1"
    "\<And>u. \<not> storing (threads S u)"
    using released_run by blast
  have "load (s_mem (glob S)) 8 8 = snap (s_log (glob S)) (\<lambda>a. load (\<lambda>_. 0) a 8) (s_ticks (glob S)) 8"
    by (rule memory_is_serial [OF word_size_8 start_reachable [OF S(1)]]) (use S counter_aligned in simp_all)
  with S show ?thesis by auto
qed

lemma clock_room:
  assumes "coherent G ths" and "s_ticks G < 2 ^ 31 - 1"
  shows "clock (s_lock G) \<noteq> INT_MAX" and "unat (clock (s_lock G)) = s_ticks G"
    and "unat (clock (s_lock G) + 1) = Suc (s_ticks G)"
    and "\<not> int_gt (ver (s_lock G) a) (clock (s_lock G))"
proof -
  have c: "clock (s_lock G) = word_of_nat (s_ticks G)" by (rule clock_okD(1) [OF coherentD(2) [OF assms(1)]])
  then show u: "unat (clock (s_lock G)) = s_ticks G" using unat_clock [of "s_ticks G"] assms(2) by simp
  show "unat (clock (s_lock G) + 1) = Suc (s_ticks G)" unfolding c by (rule clock_succ) (use assms(2) in simp)
  show "clock (s_lock G) \<noteq> INT_MAX"
  proof
    assume "clock (s_lock G) = INT_MAX"
    then have "s_ticks G = unat INT_MAX" using u by simp
    with assms(2) show False by simp
  qed
  have "vers G (find_lock a) \<le> s_ticks G"
    using versions_okD(1) [OF coherentD(3) [OF assms(1)], of "find_lock a"] by simp
  then show "\<not> int_gt (ver (s_lock G) a) (clock (s_lock G))"
    using int_gt_small [of "ver (s_lock G) a" "clock (s_lock G)"] u assms(2) by (simp add: ver_def)
qed

text \<open>C4: The consistency of reads does not hold without the restriction to clean ones. From every
  reachable state in which two threads are idle and the lock of a word is free, with clock \<open>k\<close>, the
  two can run the same read-modify-write \<open>f\<close> of the word to the end so that both commit, as \<open>k + 1\<close>
  and \<open>k + 2\<close>, and the word holds \<open>f v0\<close>, not \<open>f (f v0)\<close>: the second transaction validated and used
  the old value \<open>v0\<close>, although its read version \<open>k + 1\<close> covers the first commit. The update of the
  first is lost.\<close>

theorem lost_update:
  assumes "word_size al" and "reachable al junk m n S" and "s_ticks (glob S) < 2 ^ 31 - 2"
    and "t < n" and "u < n" and "t \<noteq> u" and "th_pc (threads S t) = Idle" and "th_pc (threads S u) = Idle"
    and "aligned al a" and "\<not> held (s_lock (glob S)) a"
    and "v0 = load (s_mem (glob S)) a al" and "length (f v0) = al"
  shows "\<exists>rs S' b. run al S rs = Some S' \<and> fst ` set rs = {t, u} \<and>
    th_pc (threads S' t) = Idle \<and> th_pc (threads S' u) = Idle \<and>
    s_log (glob S') = (s_log (glob S))
      (s_ticks (glob S) + 1 \<mapsto> \<lparr>c_reads = [\<lparr>o_addr = a, o_val = v0, o_clean = b\<rparr>], c_writes = [(a, f v0)]\<rparr>,
       s_ticks (glob S) + 2 \<mapsto> \<lparr>c_reads = [\<lparr>o_addr = a, o_val = v0, o_clean = False\<rparr>], c_writes = [(a, f v0)]\<rparr>) \<and>
    unat (th_rv (threads S' u)) = s_ticks (glob S) + 1 \<and>
    snap (s_log (glob S')) (\<lambda>a. load m a al) (s_ticks (glob S) + 1) a = f v0 \<and>
    load (s_mem (glob S')) a al = f v0"
proof -
  let ?v = "f v0" and ?k = "s_ticks (glob S)" and ?c = "clock (s_lock (glob S))"
  have co: "coherent (glob S) (threads S)" and n: "count S = n"
    using reachable_consistent [OF assms(1,2)] assms(3) reachable_locks [OF assms(2)] by (simp_all add: consistent_def)
  note ck = clock_room [OF co]
  have k2: "?c + 1 \<noteq> INT_MAX" "unat (?c + 1 + 1) = ?k + 2" "unat (?c + 1) = ?k + 1"
  proof -
    have c: "?c = word_of_nat ?k" by (rule clock_okD(1) [OF coherentD(2) [OF co]])
    show "unat (?c + 1 + 1) = ?k + 2" using clock_succ [of "Suc ?k"] assms(3) by (simp add: c add.commute)
    show u: "unat (?c + 1) = ?k + 1" using ck(3) assms(3) by simp
    show "?c + 1 \<noteq> INT_MAX"
    proof
      assume "?c + 1 = INT_MAX"
      then have "?k + 1 = unat INT_MAX" using u by simp
      with assms(3) show False by simp
    qed
  qed
  obtain b S1 where S1: "run al S (race1 t a ?v) = Some S1" "count S1 = count S"
    "th_pc (threads S1 t) = StMem [(a, ?v)]" "th_wv (threads S1 t) = ?c + 1"
    "\<And>w. w \<noteq> t \<Longrightarrow> threads S1 w = threads S w" "clock (s_lock (glob S1)) = ?c + 1" "s_mem (glob S1) = s_mem (glob S)"
    "s_log (glob S1) = (s_log (glob S))(unat (?c + 1) \<mapsto>
      \<lparr>c_reads = [\<lparr>o_addr = a, o_val = v0, o_clean = b\<rparr>], c_writes = [(a, ?v)]\<rparr>)"
    using commit_first [OF _ assms(7,9,12,10) ck(4,1)] assms(3,4,11) n by auto
  obtain S2 where S2: "run al S1 (race2 t u a) = Some S2" "count S2 = count S"
    "th_pc (threads S2 t) = Idle"
    "th_pc (threads S2 u) = RLock a (Some \<lparr>o_addr = a, o_val = v0, o_clean = False\<rparr>)"
    "th_rv (threads S2 u) = ?c + 1" "fresh_reader a (threads S2 u)"
    "\<not> held (s_lock (glob S2)) a" "ver (s_lock (glob S2)) a = ?c + 1"
    "clock (s_lock (glob S2)) = ?c + 1" "s_log (glob S2) = s_log (glob S1)" "s_mem (glob S2) = store (s_mem (glob S)) a ?v"
    using read_stale [OF assms(6) _ _ _ assms(9) S1(3)] S1 assms(4-6,8,11) n by auto
  obtain S3 where S3: "run al S2 (race3 u a ?v) = Some S3" "th_pc (threads S3 u) = Idle"
    "th_pc (threads S3 t) = Idle" "th_rv (threads S3 u) = ?c + 1"
    "s_mem (glob S3) = store (s_mem (glob S2)) a ?v"
    "s_log (glob S3) = (s_log (glob S2))(unat (?c + 1 + 1) \<mapsto>
       \<lparr>c_reads = [\<lparr>o_addr = a, o_val = v0, o_clean = False\<rparr>], c_writes = [(a, ?v)]\<rparr>)"
    using commit_second [OF _ assms(9,12) S2(4) _ S2(6,7)] S2 assms(5,6) n k2(1) by (auto simp: int_gt_def)
  have "run al S (race1 t a ?v @ race2 t u a @ race3 u a ?v) = Some S3"
    by (simp add: run_append S1(1) S2(1) S3(1))
  moreover have "fst ` set (race1 t a ?v @ race2 t u a @ race3 u a ?v) = {t, u}"
    by (auto simp: race1_def race2_def race3_def)
  moreover have "load (s_mem (glob S3)) a al = ?v" using load_store_word [OF assms(1,12)] S3(5) by simp
  moreover have log: "s_log (glob S3) = (s_log (glob S))
      (?k + 1 \<mapsto> \<lparr>c_reads = [\<lparr>o_addr = a, o_val = v0, o_clean = b\<rparr>], c_writes = [(a, ?v)]\<rparr>,
       ?k + 2 \<mapsto> \<lparr>c_reads = [\<lparr>o_addr = a, o_val = v0, o_clean = False\<rparr>], c_writes = [(a, ?v)]\<rparr>)"
    using S1(8) S2(10) S3(6) k2 by simp
  moreover have "snap (s_log (glob S3)) (\<lambda>a. load m a al) (?k + 1) a = ?v" by (simp add: log)
  ultimately show ?thesis using S3 k2(3) by (metis (no_types, lifting))
qed

theorem lost_update_witness:
  "\<exists>rs S'. run 8 (initial table (\<lambda>_. 0) 2) rs = Some S' \<and> load (s_mem (glob S')) 8 8 = word_of_int8 1 \<and>
     s_log (glob S') 1 \<noteq> None \<and> s_log (glob S') 2 \<noteq> None \<and> unat (th_rv (threads S' 1)) = 1"
proof -
  let ?inc = "\<lambda>v :: byte list. (hd v + 1) # tl v" and ?S = "initial table (\<lambda>_. 0) 2"
  have v0: "word_of_int8 0 = load (s_mem (glob ?S)) 8 8" by (simp add: initial_def load_def upt_rec)
  have idle: "th_pc (threads ?S w) = Idle" "s_ticks (glob ?S) = 0" "\<not> held (s_lock (glob ?S)) 8" for w
    by (simp_all add: initial_def)
  from lost_update [where f = ?inc and t = 0 and u = 1, OF word_size_8 reachable.init _ _ _ _ idle(1) idle(1) counter_aligned idle(3) v0]
  obtain rs S' b where S': "run 8 ?S rs = Some S'" "load (s_mem (glob S')) 8 8 = word_of_int8 1"
    "unat (th_rv (threads S' 1)) = s_ticks (glob ?S) + 1"
    "s_log (glob S') = (s_log (glob ?S))
      (s_ticks (glob ?S) + 1 \<mapsto> \<lparr>c_reads = [\<lparr>o_addr = 8, o_val = word_of_int8 0, o_clean = b\<rparr>], c_writes = [(8, word_of_int8 1)]\<rparr>,
       s_ticks (glob ?S) + 2 \<mapsto> \<lparr>c_reads = [\<lparr>o_addr = 8, o_val = word_of_int8 0, o_clean = False\<rparr>], c_writes = [(8, word_of_int8 1)]\<rparr>)"
    by (auto simp: idle(2))
  then show ?thesis by (intro exI [of _ rs] exI [of _ S']) (simp add: idle(2))
qed
section \<open>Progress\<close>

text \<open>C17: Every call returns after a bounded number of steps of its own thread, whatever the other
  threads do in between: \<open>tm_end\<close> after at most thirteen steps per word written, two per word read,
  and twelve; \<open>tm_read\<close> of a word after at most two. After so many of its own steps the thread is
  outside every call, and until then it can always take its next one: no step waits for another
  thread.\<close>

theorem operations_return:
  assumes "reachable al junk m n S" and "th_rv (threads S t) \<noteq> INT_MAX"
    and "exec al S t r = Some S1" and "r \<noteq> Go"
    and "run al S1 rs = Some S2" and "\<And>r'. (t, r') \<in> set rs \<Longrightarrow> r' = Go"
    and "own = length (filter (\<lambda>(u, _). u = t) rs)"
    and "bound = (case r of End \<Rightarrow> 13 * length (th_wset (threads S t)) + 2 * length (th_rset (threads S t)) + 12
                   | Read a \<Rightarrow> 2 | _ \<Rightarrow> 0)"
  shows "own \<le> bound \<and> (own = bound \<longrightarrow> th_pc (threads S2 t) \<in> {Idle, Active}) \<and>
    (th_pc (threads S2 t) \<notin> {Idle, Active} \<longrightarrow> exec al S2 t Go \<noteq> None)"
proof -
  obtain th' G' where e: "t < count S"
    "exec_thread al (settled S (rdv (threads S t))) (threads S t) (glob S) r = Some (th', G')"
    "S1 = S\<lparr>glob := G', threads := (threads S)(t := th')\<rparr>"
    using assms(3) by (rule execE)
  have entry: "work (threads S1 t) \<le> bound" using entry_work [OF e(2) assms(4)] assms(8) e(3) by simp
  have sh1: "shape al (threads S1 w)" for w by (rule exec_shapes [OF assms(3) reachable_shape [OF assms(1)]])
  have left: "own + work (threads S2 t) \<le> work (threads S1 t)"
    unfolding assms(7) by (rule run_work [OF assms(5) sh1 assms(6)])
  have sh2: "shape al (threads S2 t)" by (rule run_shapes [OF assms(5) sh1])
  have rv: "th_rv (threads S2 t) = th_rv (threads S1 t)" "count S2 = count S1"
    using run_keeps_rv [OF assms(5)] assms(6) by blast+
  have "exec al S2 t Go \<noteq> None" if inside: "th_pc (threads S2 t) \<notin> {Idle, Active}"
  proof -
    have "work (threads S2 t) \<noteq> 0" using no_work [OF sh2] inside by blast
    with left entry assms(8) have "\<And>ro. r \<noteq> Begin ro" by auto
    then have "th_rv (threads S2 t) \<noteq> INT_MAX" using rv(1) keeps_rv [OF e(2)] e(3) assms(2) by simp
    from never_blocked [OF sh2 _ _ this] inside obtain th'' G'' where
      "exec_thread al (settled S2 (rdv (threads S2 t))) (threads S2 t) (glob S2) Go = Some (th'', G'')"
      by fastforce
    then show ?thesis using e(1,3) rv(2) by (simp add: exec_def del: exec_thread.simps)
  qed
  with left entry no_work [OF sh2] show ?thesis by auto
qed

lemma end_run:
  "\<exists>S S1 S2. run 8 start_state (take 5 increments) = Some S \<and> exec 8 S 0 End = Some S1 \<and>
     run 8 S1 [(0, Go), (0, Go), (0, Go)] = Some S2 \<and> th_rv (threads S 0) = 0 \<and>
     length (th_wset (threads S 0)) = 1 \<and> length (th_rset (threads S 0)) = 1 \<and>
     th_pc (threads S2 0) = StMem [(8, word_of_int8 1)]"
  by (simp add: increments_def start_state_def evaluate)

theorem operations_return_witness:
  "\<exists>S S1 S2. exec 8 S 0 End = Some S1 \<and> run 8 S1 [(0, Go), (0, Go), (0, Go)] = Some S2 \<and>
     (3 :: nat) \<le> 13 * 1 + 2 * 1 + 12 \<and> exec 8 S2 0 Go \<noteq> None"
proof -
  obtain S S1 S2 where S: "run 8 start_state (take 5 increments) = Some S" "exec 8 S 0 End = Some S1"
    "run 8 S1 [(0, Go), (0, Go), (0, Go)] = Some S2" "th_rv (threads S 0) \<noteq> INT_MAX"
    "length (th_wset (threads S 0)) = 1" "length (th_rset (threads S 0)) = 1"
    "th_pc (threads S2 0) = StMem [(8, word_of_int8 1)]"
    using end_run by auto
  have "(3 :: nat) = length (filter (\<lambda>(u, _). u = 0) [(0 :: nat, Go), (0, Go), (0, Go)])" by simp
  from operations_return [OF start_reachable [OF S(1)] S(4,2) _ S(3) _ this refl]
  have "exec 8 S2 0 Go \<noteq> None" "(3 :: nat) \<le> 13 * 1 + 2 * 1 + 12" using S(5-7) by simp_all
  with S show ?thesis by blast
qed

end
