(* ===== verification/Reference_Lock.thy ===== *)
theory Reference_Lock
  imports Tm_Prelude
begin

text \<open>
  \<open>reference/shared-lock.h\<close> and \<open>reference/shared-lock.c\<close>: the readers-writer lock of the
  reference implementation. The operations of \<open>pthread_rwlock_t\<close> are those POSIX documents. A
  call may fail: \<open>code\<close> is the error number the system has for it (\<open>EDEADLK\<close>, \<open>EAGAIN\<close>, 0 for
  none), and a call that fails takes nothing. Otherwise a write lock needs the lock free, and a
  read lock needs no writer; while writers are blocked on the lock, it is left to the
  implementation whether a reader waits as well: \<open>queued\<close> says that it does. A call that would
  wait is \<open>None\<close> (in \<open>Reference_Concurrent\<close> a step that is not enabled), and unlocking a free
  lock is undefined. The invariant \<open>rw_ok\<close> is that a writer excludes readers.
\<close>

record rwlock =
  readers :: nat
  writer :: bool

definition pthread_rwlock_wrlock :: "int \<Rightarrow> rwlock \<Rightarrow> (int \<times> rwlock) option" where
  "pthread_rwlock_wrlock code l =
     (if code \<noteq> 0 then Some (code, l)
      else if writer l \<or> 0 < readers l then None else Some (0, l\<lparr>writer := True\<rparr>))"

definition pthread_rwlock_rdlock :: "int \<Rightarrow> bool \<Rightarrow> rwlock \<Rightarrow> (int \<times> rwlock) option" where
  "pthread_rwlock_rdlock code queued l =
     (if code \<noteq> 0 then Some (code, l)
      else if writer l \<or> queued then None else Some (0, l\<lparr>readers := readers l + 1\<rparr>))"

definition pthread_rwlock_unlock :: "rwlock \<Rightarrow> rwlock option" where
  "pthread_rwlock_unlock l =
     (if writer l then Some (l\<lparr>writer := False\<rparr>)
      else if 0 < readers l then Some (l\<lparr>readers := readers l - 1\<rparr>)
      else None)"

text \<open>The result of \<open>pthread_rwlock_init\<close> is up to the system: \<open>code\<close>.\<close>

definition ref_shared_lock_init :: "int \<Rightarrow> bool \<times> rwlock" where
  "ref_shared_lock_init code = (code = 0, \<lparr>readers = 0, writer = False\<rparr>)"

text \<open>Destroying a lock that is held is undefined.\<close>

definition ref_shared_lock_cleanup :: "rwlock \<Rightarrow> rwlock option" where
  "ref_shared_lock_cleanup l = (if writer l \<or> 0 < readers l then None else Some l)"

definition ref_shared_lock_acquire :: "int \<Rightarrow> rwlock \<Rightarrow> (bool \<times> rwlock) option" where
  "ref_shared_lock_acquire code l = do {
     (r, l) \<leftarrow> pthread_rwlock_wrlock code l;
     Some (r = 0, l)
   }"

definition ref_shared_lock_release :: "rwlock \<Rightarrow> rwlock option" where
  "ref_shared_lock_release l = pthread_rwlock_unlock l"

definition ref_shared_lock_acquire_shared :: "int \<Rightarrow> bool \<Rightarrow> rwlock \<Rightarrow> (bool \<times> rwlock) option" where
  "ref_shared_lock_acquire_shared code queued l = do {
     (r, l) \<leftarrow> pthread_rwlock_rdlock code queued l;
     Some (r = 0, l)
   }"

definition ref_shared_lock_release_shared :: "rwlock \<Rightarrow> rwlock option" where
  "ref_shared_lock_release_shared l = pthread_rwlock_unlock l"

lemmas rwlock_defs =
  pthread_rwlock_wrlock_def pthread_rwlock_rdlock_def pthread_rwlock_unlock_def
  ref_shared_lock_acquire_def ref_shared_lock_release_def
  ref_shared_lock_acquire_shared_def ref_shared_lock_release_shared_def

definition rw_ok :: "rwlock \<Rightarrow> bool" where
  "rw_ok l \<longleftrightarrow> (writer l \<longrightarrow> readers l = 0)"

lemma rw_ok_preserved:
  "rw_ok (snd (ref_shared_lock_init c))"
  "rw_ok l \<Longrightarrow> ref_shared_lock_acquire code l = Some (b, l') \<Longrightarrow> rw_ok l'"
  "rw_ok l \<Longrightarrow> ref_shared_lock_acquire_shared code queued l = Some (b, l') \<Longrightarrow> rw_ok l'"
  "rw_ok l \<Longrightarrow> ref_shared_lock_release l = Some l' \<Longrightarrow> rw_ok l'"
  "rw_ok l \<Longrightarrow> ref_shared_lock_release_shared l = Some l' \<Longrightarrow> rw_ok l'"
  by (auto simp: rwlock_defs rw_ok_def ref_shared_lock_init_def split: if_splits)

text \<open>A release undoes an acquisition, and a failed acquisition takes nothing.\<close>

lemma acquire_release:
  "ref_shared_lock_acquire code l = Some (b, l') \<Longrightarrow> if b then ref_shared_lock_release l' = Some l else l' = l"
  "rw_ok l \<Longrightarrow> ref_shared_lock_acquire_shared code queued l = Some (b, l') \<Longrightarrow>
     if b then ref_shared_lock_release_shared l' = Some l else l' = l"
  by (cases l; auto simp: rwlock_defs split: if_splits)+

end
