(* ===== verification/Reference_Tm.thy ===== *)
theory Reference_Tm
  imports Reference_Lock Segments
begin

text \<open>
  \<open>reference/tm.c\<close>, function by function, over the heap and memory of \<open>C_Heap\<close>: a transaction
  holds the readers-writer lock of the region from \<open>tm_begin\<close> to \<open>tm_end\<close>, reads and writes go
  straight to memory, and the dynamic segments form the doubly linked list of \<open>Segments\<close>, from
  which \<open>tm_free\<close> unlinks a node wherever it is.
\<close>

unbundle bit_operations_syntax

definition read_only_tx :: addr where
  "read_only_tx = (NOT 0) - 10"

definition read_write_tx :: addr where
  "read_write_tx = (NOT 0) - 11"

record ref_region =
  r_lock :: rwlock
  r_start :: addr
  r_allocs :: addr
  r_size :: csize
  r_align :: csize

text \<open>\<open>code\<close> is what \<open>pthread_rwlock_init\<close> returns; \<open>sizeof(struct region)\<close> is 88.\<close>

definition ref_tm_create :: "int \<Rightarrow> csize \<Rightarrow> csize \<Rightarrow> cstate \<Rightarrow> (addr \<times> ref_region option \<times> cstate) option" where
  "ref_tm_create code sz al s =
     (let (shared, s) = malloc 88 s in
      if shared = NULL then Some (invalid_shared, None, s)
      else
        let (err, st, s) = posix_memalign al (unat sz) s in
        if err \<noteq> 0 then do {
          s \<leftarrow> free shared s;
          Some (invalid_shared, None, s)
        }
        else
          let (ok, lk) = ref_shared_lock_init code in
          if \<not> ok then do {
            s \<leftarrow> free st s;
            s \<leftarrow> free shared s;
            Some (invalid_shared, None, s)
          }
          else
            let s = memset0 st sz s in
            Some (shared,
                  Some \<lparr>r_lock = lk, r_start = st, r_allocs = NULL, r_size = sz, r_align = al\<rparr>, s))"

definition ref_tm_destroy :: "addr \<Rightarrow> ref_region \<Rightarrow> cstate \<Rightarrow> cstate option" where
  "ref_tm_destroy shared rg s = do {
     s \<leftarrow> free_segments (r_allocs rg) s;
     s \<leftarrow> free (r_start rg) s;
     _ \<leftarrow> ref_shared_lock_cleanup (r_lock rg);
     free shared s
   }"

definition ref_tm_start :: "ref_region \<Rightarrow> addr" where
  "ref_tm_start rg = r_start rg"

definition ref_tm_size :: "ref_region \<Rightarrow> csize" where
  "ref_tm_size rg = r_size rg"

definition ref_tm_align :: "ref_region \<Rightarrow> csize" where
  "ref_tm_align rg = r_align rg"

text \<open>\<open>code\<close> and \<open>queued\<close> are what the system decides about the acquisition (\<open>Reference_Lock\<close>).\<close>

definition ref_tm_begin :: "int \<Rightarrow> bool \<Rightarrow> ref_region \<Rightarrow> bool \<Rightarrow> (addr \<times> ref_region) option" where
  "ref_tm_begin code queued rg ro =
     (if ro then do {
        (ok, lk) \<leftarrow> ref_shared_lock_acquire_shared code queued (r_lock rg);
        if \<not> ok then Some (invalid_tx, rg\<lparr>r_lock := lk\<rparr>)
        else Some (read_only_tx, rg\<lparr>r_lock := lk\<rparr>)
      }
      else do {
        (ok, lk) \<leftarrow> ref_shared_lock_acquire code (r_lock rg);
        if \<not> ok then Some (invalid_tx, rg\<lparr>r_lock := lk\<rparr>)
        else Some (read_write_tx, rg\<lparr>r_lock := lk\<rparr>)
      })"

definition ref_tm_end :: "ref_region \<Rightarrow> addr \<Rightarrow> (bool \<times> ref_region) option" where
  "ref_tm_end rg tx =
     (if tx = read_only_tx then do {
        lk \<leftarrow> ref_shared_lock_release_shared (r_lock rg);
        Some (True, rg\<lparr>r_lock := lk\<rparr>)
      }
      else do {
        lk \<leftarrow> ref_shared_lock_release (r_lock rg);
        Some (True, rg\<lparr>r_lock := lk\<rparr>)
      })"

definition ref_tm_read :: "addr \<Rightarrow> csize \<Rightarrow> addr \<Rightarrow> cstate \<Rightarrow> bool \<times> cstate" where
  "ref_tm_read source sz target s = (True, memcpy target source (unat sz) s)"

definition ref_tm_write :: "addr \<Rightarrow> csize \<Rightarrow> addr \<Rightarrow> cstate \<Rightarrow> bool \<times> cstate" where
  "ref_tm_write source sz target s = (True, memcpy target source (unat sz) s)"

definition ref_tm_alloc :: "ref_region \<Rightarrow> csize \<Rightarrow> cstate \<Rightarrow> (alloc_t \<times> addr option \<times> ref_region \<times> cstate) option" where
  "ref_tm_alloc rg sz s =
     (let al = (if r_align rg < 8 then 8 else r_align rg);
          (err, sn, s) = posix_memalign al (unat (16 + sz)) s in
      if err \<noteq> 0 then Some (nomem_alloc, None, rg, s)
      else do {
        s \<leftarrow> put sn (Seg \<lparr>sn_prev = NULL, sn_next = r_allocs rg\<rparr>) s;
        s \<leftarrow> (if r_allocs rg \<noteq> NULL then do {
                 n \<leftarrow> get_seg s (r_allocs rg);
                 put (r_allocs rg) (Seg (n\<lparr>sn_prev := sn\<rparr>)) s
               }
               else Some s);
        let segment = sn + 16;
        let s = memset0 segment sz s;
        Some (success_alloc, Some segment, rg\<lparr>r_allocs := sn\<rparr>, s)
      })"

definition ref_tm_free :: "ref_region \<Rightarrow> addr \<Rightarrow> cstate \<Rightarrow> (bool \<times> ref_region \<times> cstate) option" where
  "ref_tm_free rg segment s = do {
     let sn = segment - 16;
     n \<leftarrow> get_seg s sn;
     (rg, s) \<leftarrow>
       (if sn_prev n \<noteq> NULL then do {
          p \<leftarrow> get_seg s (sn_prev n);
          s \<leftarrow> put (sn_prev n) (Seg (p\<lparr>sn_next := sn_next n\<rparr>)) s;
          Some (rg, s)
        }
        else Some (rg\<lparr>r_allocs := sn_next n\<rparr>, s));
     s \<leftarrow> (if sn_next n \<noteq> NULL then do {
              q \<leftarrow> get_seg s (sn_next n);
              put (sn_next n) (Seg (q\<lparr>sn_prev := sn_prev n\<rparr>)) s
            }
            else Some s);
     s \<leftarrow> free sn s;
     Some (True, rg, s)
   }"

section \<open>The segment list\<close>

text \<open>A part of the doubly linked list: entered at \<open>p\<close>, left towards \<open>e\<close>.\<close>

fun seg_part :: "(addr \<Rightarrow> obj option) \<Rightarrow> addr \<Rightarrow> addr \<Rightarrow> addr \<Rightarrow> addr list \<Rightarrow> bool" where
  "seg_part h before p e [] \<longleftrightarrow> p = e"
| "seg_part h before p e (q # qs) \<longleftrightarrow> p = q \<and> q \<noteq> NULL \<and>
     (\<exists>after. h q = Some (Seg \<lparr>sn_prev = before, sn_next = after\<rparr>) \<and> seg_part h q after e qs)"

lemma seg_list_part: "seg_list h b p ps = seg_part h b p NULL ps"
  by (induction ps arbitrary: b p) auto

lemma seg_part_append:
  "seg_part h b p e (xs @ ys) \<longleftrightarrow> (\<exists>m. seg_part h b p m xs \<and> seg_part h (last (b # xs)) m e ys)"
  by (induction xs arbitrary: b p) auto

lemma seg_part_cong:
  "(\<And>q. q \<in> set ps \<Longrightarrow> h q = h' q) \<Longrightarrow> seg_part h b p e ps = seg_part h' b p e ps"
  by (induction ps arbitrary: b p) auto

lemma seg_part_upd [simp]: "q \<notin> set ps \<Longrightarrow> seg_part (h(q := x)) b p e ps = seg_part h b p e ps"
  by (rule seg_part_cong) auto

text \<open>The last node of a part, and pointing it elsewhere.\<close>

lemma seg_part_snoc:
  "seg_part h b p e (xs @ [x]) \<longleftrightarrow> seg_part h b p x xs \<and> x \<noteq> NULL \<and>
     h x = Some (Seg \<lparr>sn_prev = last (b # xs), sn_next = e\<rparr>)"
  by (auto simp: seg_part_append)

lemma seg_part_exit:
  assumes "seg_part h b p e xs" and "distinct xs" and "xs \<noteq> []"
  shows "\<exists>n. h (last xs) = Some (Seg n) \<and> last xs \<noteq> NULL \<and>
    seg_part (h(last xs := Some (Seg (n\<lparr>sn_next := e'\<rparr>)))) b p e' xs"
proof -
  obtain ys y where xs: "xs = ys @ [y]" using assms(3) by (cases xs rule: rev_cases) auto
  with assms show ?thesis by (simp add: seg_part_snoc)
qed

text \<open>The first node of a part, and a new predecessor for it.\<close>

lemma seg_part_entry:
  assumes "seg_part h b p e xs" and "distinct xs" and "xs \<noteq> []"
  shows "\<exists>n. h p = Some (Seg n) \<and> p \<noteq> NULL \<and> p = hd xs \<and>
    seg_part (h(p := Some (Seg (n\<lparr>sn_prev := b'\<rparr>)))) b' p e xs"
  using assms by (cases xs) auto

lemma seg_part_empty: "seg_part h b p NULL xs \<Longrightarrow> p = NULL \<longleftrightarrow> xs = []"
  by (cases xs) auto

lemma same_allocs: "rg = rg\<lparr>r_allocs := a\<rparr> \<longleftrightarrow> a = r_allocs rg"
  by (cases rg) auto

lemmas segment_defs = get_seg_def put_def deref_def free_def same_allocs

lemma ref_tm_free_facts:
  assumes "seg_list (heap s) NULL (r_allocs rg) (xs @ q # ys)"
  shows "\<exists>a s'. ref_tm_free rg (q + 16) s = Some (True, rg\<lparr>r_allocs := a\<rparr>, s') \<and>
    seg_list (heap s') NULL a (xs @ ys) \<and> heap s' q = None \<and> mem s' = mem s \<and>
    (\<forall>p. p \<notin> set (xs @ q # ys) \<longrightarrow> heap s' p = heap s p)"
proof -
  have live: "NULL \<notin> set (xs @ q # ys)" and dist: "distinct (xs @ q # ys)"
    using seg_list_live [OF assms] seg_list_distinct [OF assms] by blast+
  obtain m where x: "seg_part (heap s) NULL (r_allocs rg) q xs"
      and q: "heap s q = Some (Seg \<lparr>sn_prev = last (NULL # xs), sn_next = m\<rparr>)"
      and y: "seg_part (heap s) q m NULL ys"
    using assms by (auto simp: seg_list_part seg_part_append)
  note node = segment_defs ref_tm_free_def seg_list_part seg_part_append
  show ?thesis
  proof (cases xs rule: rev_cases)
    case Nil
    then show ?thesis using x q y live dist by (cases ys) (auto simp: node)
  next
    case (snoc xs' x')
    then show ?thesis using x q y live dist by (cases ys) (auto simp: node seg_part_snoc)
  qed
qed

text \<open>C38: \<open>tm_free\<close> of the reference implementation takes the segment's node out of the doubly
  linked list wherever it is (first, last, only or inner node): the other nodes stay linked in
  their order, the node is freed, and nothing else in heap or memory changes.\<close>

theorem ref_tm_free_unlinks:
  assumes "seg_list (heap s) NULL (r_allocs rg) (xs @ q # ys)"
  shows "\<exists>a s'. ref_tm_free rg (q + 16) s = Some (True, rg\<lparr>r_allocs := a\<rparr>, s') \<and>
    seg_list (heap s') NULL a (xs @ ys) \<and> heap s' q = None \<and> mem s' = mem s \<and>
    (\<forall>p. p \<notin> set (xs @ q # ys) \<longrightarrow> heap s' p = heap s p)"
  using assms by (rule ref_tm_free_facts)

definition ref_sample :: cstate where
  "ref_sample = fresh_state\<lparr>heap :=
     [4096 \<mapsto> Seg \<lparr>sn_prev = NULL, sn_next = 8192\<rparr>, 8192 \<mapsto> Seg \<lparr>sn_prev = 4096, sn_next = NULL\<rparr>]\<rparr>"

definition ref_empty :: ref_region where
  "ref_empty = \<lparr>r_lock = \<lparr>readers = 0, writer = False\<rparr>, r_start = 1024, r_allocs = NULL,
                r_size = 1024, r_align = 32\<rparr>"

theorem ref_tm_free_unlinks_witness:
  "\<exists>a s'. ref_tm_free (ref_empty\<lparr>r_allocs := 4096\<rparr>) (8192 + 16) ref_sample =
     Some (True, ref_empty\<lparr>r_allocs := a\<rparr>, s') \<and> seg_list (heap s') NULL a [4096]"
  using ref_tm_free_unlinks [of ref_sample "ref_empty\<lparr>r_allocs := 4096\<rparr>" "[4096]" 8192 "[]"]
  by (auto simp: ref_sample_def ref_empty_def)

lemma ref_memalign:
  assumes "ref_tm_alloc rg sz s = Some (success_alloc, Some seg, rg', s')"
  obtains sn s1 where "seg = sn + 16"
    and "posix_memalign (if r_align rg < 8 then 8 else r_align rg) (unat (16 + sz)) s = (0, sn, s1)"
proof -
  obtain e sn s1 where "posix_memalign (if r_align rg < 8 then 8 else r_align rg) (unat (16 + sz)) s = (e, sn, s1)"
    by (metis prod_cases3)
  with assms that show thesis
    by (auto simp: ref_tm_alloc_def bind_simps split: if_splits)
qed

text \<open>C39: \<open>tm_alloc\<close> of the reference implementation puts the segment's node in front of the list,
  and a \<open>tm_free\<close> of that segment restores the region and the heap exactly.\<close>

theorem ref_alloc_free:
  assumes "seg_list (heap s) NULL (r_allocs rg) ps"
    and "ref_tm_alloc rg sz s = Some (success_alloc, Some seg, rg', s')"
  shows "seg_list (heap s') NULL (r_allocs rg') ((seg - 16) # ps) \<and>
    (\<exists>s''. ref_tm_free rg' seg s' = Some (True, rg, s'') \<and> heap s'' = heap s)"
proof -
  obtain sn s1 where seg: "seg = sn + 16"
      and memalign: "posix_memalign (if r_align rg < 8 then 8 else r_align rg) (unat (16 + sz)) s = (0, sn, s1)"
    using ref_memalign [OF assms(2)] .
  note pm = posix_memalign_ok [OF memalign]
  have new: "sn \<notin> set ps" using seg_list_live [OF assms(1)] pm(2) by blast
  have undo: "(heap s)(sn := None) = heap s" using pm(2) by auto
  note defs = ref_tm_alloc_def ref_tm_free_def segment_defs memset0_def Let_def
  show ?thesis
  proof (cases ps)
    case Nil
    then show ?thesis using assms memalign pm undo by (auto simp: defs seg)
  next
    case (Cons r rs)
    then obtain after where r: "r_allocs rg = r" "r \<noteq> NULL" "seg_list (heap s) r after rs"
        "heap s r = Some (Seg \<lparr>sn_prev = NULL, sn_next = after\<rparr>)" using assms(1) by auto
    have "r \<noteq> sn" "sn \<notin> set rs" "r \<notin> set rs"
      using new Cons seg_list_distinct [OF assms(1)] by auto
    moreover have "(heap s)(sn := None, r := Some (Seg \<lparr>sn_prev = NULL, sn_next = after\<rparr>)) = heap s"
      using r(4) pm(2) by (auto simp: fun_eq_iff)
    ultimately show ?thesis
      using assms(2) memalign pm r Cons
      by (auto simp: defs seg seg_list_part fun_upd_twist)
  qed
qed

theorem ref_alloc_free_witness:
  "\<exists>rg' s' s''. ref_tm_alloc ref_empty 64 fresh_state = Some (success_alloc, Some 4112, rg', s') \<and>
     ref_tm_free rg' 4112 s' = Some (True, ref_empty, s'') \<and> heap s'' = heap fresh_state"
proof -
  have "\<exists>rg' s'. ref_tm_alloc ref_empty 64 fresh_state = Some (success_alloc, Some 4112, rg', s')"
    using fresh_memalign [of 80]
    by (simp add: ref_tm_alloc_def ref_empty_def put_def deref_def)
  then obtain rg' s' where a: "ref_tm_alloc ref_empty 64 fresh_state = Some (success_alloc, Some 4112, rg', s')"
    by blast
  have "seg_list (heap fresh_state) NULL (r_allocs ref_empty) []" by (simp add: ref_empty_def)
  from ref_alloc_free [OF this a] a show ?thesis by blast
qed

text \<open>\<open>tm_destroy\<close> right after a successful \<open>tm_create\<close> of the reference implementation gives
  back everything it allocated; a failing \<open>tm_create\<close> keeps nothing.\<close>

theorem ref_create_destroy:
  "\<exists>p r s'. ref_tm_create code sz al s = Some (p, r, s') \<and>
     (case r of
        None \<Rightarrow> p = NULL \<and> heap s' = heap s
      | Some rg \<Rightarrow> code = 0 \<and> p \<noteq> NULL \<and> ref_tm_start rg \<noteq> NULL \<and> ref_tm_size rg = sz \<and>
          ref_tm_align rg = al \<and> aligned (unat al) (ref_tm_start rg) \<and>
          mem s' = store (mem s) (ref_tm_start rg) (replicate (unat sz) 0) \<and>
          (\<exists>s''. ref_tm_destroy p rg s' = Some s'' \<and> heap s'' = heap s))"
proof -
  obtain p s1 where m: "malloc 88 s = (p, s1)" by fastforce
  then show ?thesis
  proof (cases rule: malloc_cases)
    case 1
    with m show ?thesis by (simp add: ref_tm_create_def)
  next
    case 2
    obtain e st s2 where pm: "posix_memalign al (unat sz) s1 = (e, st, s2)" by (metis prod_cases3)
    have undo: "(heap s)(p := None) = heap s" using 2 by auto
    show ?thesis
    proof (cases "e = 0")
      case True
      note ok = posix_memalign_ok [OF pm [unfolded True]]
      have st: "p \<noteq> st" "heap s st = None" using ok(2) 2 by (auto split: if_splits)
      then have "(heap s)(p := None, st := None) = heap s" "(heap s)(st := None, p := None) = heap s"
        using 2 by auto
      then show ?thesis
        using m 2 pm True ok st
        by (simp add: ref_tm_create_def Let_def memset0_def free_def ref_shared_lock_init_def
            ref_tm_destroy_def ref_shared_lock_cleanup_def free_segments.simps
            ref_tm_start_def ref_tm_size_def ref_tm_align_def fun_upd_twist)
    next
      case False
      note f = posix_memalign_fails [OF pm False]
      then show ?thesis using m 2 pm False f undo by (simp add: ref_tm_create_def free_def)
    qed
  qed
qed

end
