(* ===== verification/Reference_Concurrent.thy ===== *)
theory Reference_Concurrent
  imports Reference_Tm
begin

text \<open>
  Threads of the reference implementation, interleaved call by call: each step is one call of
  \<open>reference/tm.c\<close> by one thread, on the region and the store all threads share. A call that
  waits for the readers-writer lock is a step that is not enabled. \<open>owner\<close> says which addresses
  are private to a thread and which are shared (\<open>None\<close>); the steps are those the interface
  allows a client: transactions of a thread do not nest, local buffers are private, transactional
  addresses are shared, and only read-write transactions write, allocate and free. \<open>w_own\<close>,
  \<open>w_began\<close> and \<open>w_hist\<close> are ghosts: the writes of the running transaction, the number of
  commits when it began, and the writes of the committed transactions in commit order.
\<close>

datatype ref_act =
    Ref_Begin bool int bool        \<comment> \<open>read-only, error number and queueing of the lock\<close>
  | Ref_Read addr csize addr
  | Ref_Write addr csize addr
  | Ref_Alloc csize
  | Ref_Free addr
  | Ref_End

type_synonym write_log = "(addr \<times> byte list) list"

record ref_world =
  w_region :: ref_region
  w_state :: cstate
  w_tx :: "nat \<Rightarrow> addr option"
  w_own :: "nat \<Rightarrow> write_log"
  w_began :: "nat \<Rightarrow> nat"
  w_hist :: "write_log list"

definition range_owned :: "(addr \<Rightarrow> nat option) \<Rightarrow> nat option \<Rightarrow> addr \<Rightarrow> nat \<Rightarrow> bool" where
  "range_owned owner o_t a n = list_all (\<lambda>i. owner (a + word_of_nat i) = o_t) [0..<n]"

definition ref_step :: "(addr \<Rightarrow> nat option) \<Rightarrow> nat \<Rightarrow> ref_act \<Rightarrow> ref_world \<Rightarrow> ref_world option" where
  "ref_step owner t act W =
     (case w_tx W t of
        None \<Rightarrow>
          (case act of
             Ref_Begin ro code queued \<Rightarrow> do {
               (tx, rg) \<leftarrow> ref_tm_begin code queued (w_region W) ro;
               Some (if tx = invalid_tx then W\<lparr>w_region := rg\<rparr>
                     else W\<lparr>w_region := rg, w_tx := (w_tx W)(t := Some tx),
                            w_own := (w_own W)(t := []), w_began := (w_began W)(t := length (w_hist W))\<rparr>)
             }
           | _ \<Rightarrow> None)
      | Some tx \<Rightarrow>
          (case act of
             Ref_Begin ro code queued \<Rightarrow> None
           | Ref_Read source sz target \<Rightarrow>
               if range_owned owner (Some t) target (unat sz) \<and> range_owned owner None source (unat sz)
               then Some (W\<lparr>w_state := snd (ref_tm_read source sz target (w_state W))\<rparr>)
               else None
           | Ref_Write source sz target \<Rightarrow>
               if tx = read_write_tx \<and> range_owned owner (Some t) source (unat sz) \<and>
                  range_owned owner None target (unat sz)
               then Some (W\<lparr>w_state := snd (ref_tm_write source sz target (w_state W)),
                            w_own := (w_own W)(t := w_own W t @ [(target, load (mem (w_state W)) source (unat sz))])\<rparr>)
               else None
           | Ref_Alloc sz \<Rightarrow> if tx \<noteq> read_write_tx then None else do {
               (res, target, rg, s) \<leftarrow> ref_tm_alloc (w_region W) sz (w_state W);
               (case target of
                  None \<Rightarrow> Some (W\<lparr>w_region := rg, w_state := s\<rparr>)
                | Some segment \<Rightarrow>
                    if range_owned owner None segment (unat sz)
                    then Some (W\<lparr>w_region := rg, w_state := s,
                                 w_own := (w_own W)(t := w_own W t @ [(segment, replicate (unat sz) 0)])\<rparr>)
                    else None)
             }
           | Ref_Free segment \<Rightarrow> if tx \<noteq> read_write_tx then None else do {
               (_, rg, s) \<leftarrow> ref_tm_free (w_region W) segment (w_state W);
               Some (W\<lparr>w_region := rg, w_state := s\<rparr>)
             }
           | Ref_End \<Rightarrow> do {
               (_, rg) \<leftarrow> ref_tm_end (w_region W) tx;
               Some (W\<lparr>w_region := rg, w_tx := (w_tx W)(t := None),
                       w_hist := w_hist W @ (if tx = read_write_tx then [w_own W t] else [])\<rparr>)
             }))"

text \<open>The state after a \<open>tm_create\<close>: no transaction, no segment.\<close>

definition ref_start :: "ref_region \<Rightarrow> cstate \<Rightarrow> ref_world" where
  "ref_start rg s = \<lparr>w_region = rg\<lparr>r_lock := snd (ref_shared_lock_init 0), r_allocs := NULL\<rparr>, w_state = s,
     w_tx = (\<lambda>_. None), w_own = (\<lambda>_. []), w_began = (\<lambda>_. 0), w_hist = []\<rparr>"

definition no_segments :: "cstate \<Rightarrow> bool" where
  "no_segments s \<longleftrightarrow> (\<forall>q n. heap s q \<noteq> Some (Seg n))"

fun ref_run :: "(addr \<Rightarrow> nat option) \<Rightarrow> (nat \<times> ref_act) list \<Rightarrow> ref_world \<Rightarrow> ref_world option" where
  "ref_run owner [] W = Some W"
| "ref_run owner ((t, act) # as) W = Option.bind (ref_step owner t act W) (ref_run owner as)"

section \<open>Replaying logs\<close>

definition replay :: "(addr \<Rightarrow> byte) \<Rightarrow> write_log \<Rightarrow> (addr \<Rightarrow> byte)" where
  "replay m ws = fold (\<lambda>(a, bs) m. store m a bs) ws m"

definition agree :: "(addr \<Rightarrow> nat option) \<Rightarrow> (addr \<Rightarrow> byte) \<Rightarrow> (addr \<Rightarrow> byte) \<Rightarrow> bool" where
  "agree owner m m' \<longleftrightarrow> (\<forall>a. owner a = None \<longrightarrow> m a = m' a)"

lemma replay_simps [simp]:
  "replay m [] = m" "replay m (ws @ [(a, bs)]) = store (replay m ws) a bs"
  by (simp_all add: replay_def)

lemma range_ownedD: "range_owned owner x a n \<Longrightarrow> i < n \<Longrightarrow> owner (a + word_of_nat i) = x"
  by (simp add: range_owned_def list_all_iff)

lemma agree_refl [simp]: "agree owner m m"
  by (simp add: agree_def)

lemma agree_store: "agree owner m m' \<Longrightarrow> agree owner (store m a bs) (store m' a bs)"
  by (induction bs arbitrary: m m' a) (auto simp: agree_def)

lemma agree_private:
  assumes "range_owned owner (Some t) a (length bs)" and "agree owner m m'"
  shows "agree owner (store m a bs) m'"
  unfolding agree_def
proof (intro allI impI)
  fix x assume x: "owner x = None"
  have "store m a bs x = m x"
    by (rule store_other) (use x range_ownedD [OF assms(1)] in fastforce)
  with x assms(2) show "store m a bs x = m' x" by (simp add: agree_def)
qed

lemma agree_load:
  "agree owner m m' \<Longrightarrow> range_owned owner None a n \<Longrightarrow> load m a n = load m' a n"
  by (rule load_cong) (auto simp: agree_def dest: range_ownedD)

section \<open>What the steps do\<close>

lemma ref_tm_alloc_ok:
  assumes "posix_memalign (if r_align rg < 8 then 8 else r_align rg) (unat (16 + sz)) s = (0, q, s1)"
    and "seg_list (heap s) NULL (r_allocs rg) ps"
  shows "\<exists>s'. ref_tm_alloc rg sz s = Some (success_alloc, Some (q + 16), rg\<lparr>r_allocs := q\<rparr>, s') \<and>
    answers s' = answers s1 \<and> mem s' = store (mem s) (q + 16) (replicate (unat sz) 0) \<and>
    seg_list (heap s') NULL q (q # ps) \<and> (\<forall>p. p \<notin> set (q # ps) \<longrightarrow> heap s' p = heap s p)"
proof -
  note ok = posix_memalign_ok [OF assms(1)]
  have new: "q \<notin> set ps" using seg_list_live [OF assms(2)] ok(2) by blast
  note push = seg_list_push [OF assms(2) new ok(1)]
  note defs = ref_tm_alloc_def put_def deref_def get_seg_def memset0_def Let_def
  show ?thesis
  proof (cases ps)
    case Nil
    with assms ok show ?thesis by (auto simp: defs)
  next
    case (Cons r rs)
    then obtain after where r: "r_allocs rg = r" "r \<noteq> NULL" "seg_list (heap s) r after rs"
      "heap s r = Some (Seg \<lparr>sn_prev = NULL, sn_next = after\<rparr>)" using assms(2) by auto
    have "after = (case rs of [] \<Rightarrow> NULL | x # _ \<Rightarrow> x)" using r(3) by (cases rs) auto
    moreover have "r \<noteq> q" using new Cons by auto
    ultimately show ?thesis
      using assms(1) ok r Cons push by (auto simp: defs fun_upd_twist simp del: seg_list.simps)
  qed
qed

lemma ref_tm_alloc_cases:
  assumes "ref_tm_alloc rg sz s = Some (res, target, rg', s')"
    and "seg_list (heap s) NULL (r_allocs rg) ps"
  shows "r_lock rg' = r_lock rg \<and>
    (target = None \<and> r_allocs rg' = r_allocs rg \<and> heap s' = heap s \<and> mem s' = mem s \<or>
     (\<exists>q. target = Some (q + 16) \<and> mem s' = store (mem s) (q + 16) (replicate (unat sz) 0) \<and>
        seg_list (heap s') NULL (r_allocs rg') (q # ps) \<and>
        (\<forall>p. p \<notin> set (q # ps) \<longrightarrow> heap s' p = heap s p)))"
proof -
  obtain e sn s1 where pm: "posix_memalign (if r_align rg < 8 then 8 else r_align rg) (unat (16 + sz)) s = (e, sn, s1)"
    by (metis prod_cases3)
  show ?thesis
  proof (cases "e = 0")
    case False
    with assms pm posix_memalign_fails [OF pm] show ?thesis by (auto simp: ref_tm_alloc_def)
  next
    case True
    obtain s2 where "ref_tm_alloc rg sz s = Some (success_alloc, Some (sn + 16), rg\<lparr>r_allocs := sn\<rparr>, s2)"
        "mem s2 = store (mem s) (sn + 16) (replicate (unat sz) 0)"
        "seg_list (heap s2) NULL sn (sn # ps)" "\<forall>p. p \<notin> set (sn # ps) \<longrightarrow> heap s2 p = heap s p"
      using ref_tm_alloc_ok [OF pm [unfolded True] assms(2)] by blast
    with assms(1) show ?thesis by (auto simp del: seg_list.simps)
  qed
qed

lemma ref_tm_free_lock: "ref_tm_free rg seg s = Some (b, rg', s') \<Longrightarrow> r_lock rg' = r_lock rg"
  by (auto simp: ref_tm_free_def bind_simps split: if_splits)

lemma ref_tm_free_mem: "ref_tm_free rg seg s = Some (b, rg', s') \<Longrightarrow> mem s' = mem s \<and> answers s' = answers s"
  by (auto simp: ref_tm_free_def bind_simps split: if_splits dest!: heap_writes_keep_mem)

text \<open>The tokens are three different values.\<close>

lemma tx_tokens [simp]:
  "read_only_tx \<noteq> invalid_tx" "read_write_tx \<noteq> invalid_tx" "read_only_tx \<noteq> read_write_tx"
  "invalid_tx \<noteq> read_only_tx" "invalid_tx \<noteq> read_write_tx" "read_write_tx \<noteq> read_only_tx"
  by (simp_all add: read_only_tx_def read_write_tx_def invalid_tx_def)

lemma ref_tm_begin_iff:
  "ref_tm_begin code queued rg ro = Some (tx, rg') \<longleftrightarrow>
     (if code \<noteq> 0 then tx = invalid_tx \<and> rg' = rg
      else \<not> writer (r_lock rg) \<and>
     (if ro then \<not> queued \<and> tx = read_only_tx \<and> rg' = rg\<lparr>r_lock := (r_lock rg)\<lparr>readers := readers (r_lock rg) + 1\<rparr>\<rparr>
      else readers (r_lock rg) = 0 \<and> tx = read_write_tx \<and> rg' = rg\<lparr>r_lock := (r_lock rg)\<lparr>writer := True\<rparr>\<rparr>))"
  by (auto simp: ref_tm_begin_def rwlock_defs)

lemma ref_tm_end_iff:
  "ref_tm_end rg tx = Some (b, rg') \<longleftrightarrow> b \<and>
     (if writer (r_lock rg) then rg' = rg\<lparr>r_lock := (r_lock rg)\<lparr>writer := False\<rparr>\<rparr>
      else 0 < readers (r_lock rg) \<and>
        rg' = rg\<lparr>r_lock := (r_lock rg)\<lparr>readers := readers (r_lock rg) - 1\<rparr>\<rparr>)"
  by (auto simp: ref_tm_end_def rwlock_defs)

text \<open>The steps, one equation for each call.\<close>

lemma ref_step_begin:
  "ref_step owner t (Ref_Begin ro code queued) W = Some W' \<longleftrightarrow>
     w_tx W t = None \<and>
     (if code \<noteq> 0 then W' = W
      else \<exists>tx rg. ref_tm_begin 0 queued (w_region W) ro = Some (tx, rg) \<and>
        W' = W\<lparr>w_region := rg, w_tx := (w_tx W)(t := Some tx), w_own := (w_own W)(t := []),
               w_began := (w_began W)(t := length (w_hist W))\<rparr>)"
proof (cases "code = 0")
  case True
  have "tx \<noteq> invalid_tx" if "ref_tm_begin 0 queued (w_region W) ro = Some (tx, rg)" for tx rg
    using that by (auto simp: ref_tm_begin_iff split: if_splits)
  with True show ?thesis
    by (auto simp: ref_step_def Option.bind_eq_Some_conv split: option.split)
next
  case False
  then show ?thesis
    by (auto simp: ref_step_def Option.bind_eq_Some_conv ref_tm_begin_iff split: option.split)
qed

lemma ref_step_read:
  "ref_step owner t (Ref_Read src n tgt) W = Some W' \<longleftrightarrow>
     w_tx W t \<noteq> None \<and> range_owned owner (Some t) tgt (unat n) \<and> range_owned owner None src (unat n) \<and>
     W' = W\<lparr>w_state := memcpy tgt src (unat n) (w_state W)\<rparr>"
  by (auto simp: ref_step_def ref_tm_read_def split: option.split)

lemma ref_step_write:
  "ref_step owner t (Ref_Write src n tgt) W = Some W' \<longleftrightarrow>
     w_tx W t = Some read_write_tx \<and> range_owned owner (Some t) src (unat n) \<and>
     range_owned owner None tgt (unat n) \<and>
     W' = W\<lparr>w_state := memcpy tgt src (unat n) (w_state W),
            w_own := (w_own W)(t := w_own W t @ [(tgt, load (mem (w_state W)) src (unat n))])\<rparr>"
  by (auto simp: ref_step_def ref_tm_write_def split: option.split)

lemma ref_step_alloc:
  "ref_step owner t (Ref_Alloc n) W = Some W' \<longleftrightarrow>
     w_tx W t = Some read_write_tx \<and>
     (\<exists>res target rg s. ref_tm_alloc (w_region W) n (w_state W) = Some (res, target, rg, s) \<and>
       (case target of
          None \<Rightarrow> W' = W\<lparr>w_region := rg, w_state := s\<rparr>
        | Some seg \<Rightarrow> range_owned owner None seg (unat n) \<and>
            W' = W\<lparr>w_region := rg, w_state := s,
                   w_own := (w_own W)(t := w_own W t @ [(seg, replicate (unat n) 0)])\<rparr>))"
proof (cases "ref_tm_alloc (w_region W) n (w_state W)")
  case None
  then show ?thesis by (simp add: ref_step_def split: option.split)
next
  case (Some r)
  obtain res target rg s where "r = (res, target, rg, s)" by (metis prod_cases4)
  with Some show ?thesis by (cases target; cases "w_tx W t") (auto simp: ref_step_def)
qed

lemma ref_step_free:
  "ref_step owner t (Ref_Free seg) W = Some W' \<longleftrightarrow>
     w_tx W t = Some read_write_tx \<and>
     (\<exists>b rg s. ref_tm_free (w_region W) seg (w_state W) = Some (b, rg, s) \<and>
        W' = W\<lparr>w_region := rg, w_state := s\<rparr>)"
  by (auto simp: ref_step_def Option.bind_eq_Some_conv split: option.split)

lemma ref_step_end:
  "ref_step owner t Ref_End W = Some W' \<longleftrightarrow>
     (\<exists>tx b rg. w_tx W t = Some tx \<and> ref_tm_end (w_region W) tx = Some (b, rg) \<and>
        W' = W\<lparr>w_region := rg, w_tx := (w_tx W)(t := None),
               w_hist := w_hist W @ (if tx = read_write_tx then [w_own W t] else [])\<rparr>)"
  by (auto simp: ref_step_def Option.bind_eq_Some_conv split: option.split)

lemmas ref_step_iffs =
  ref_step_begin ref_step_read ref_step_write ref_step_alloc ref_step_free ref_step_end

section \<open>The segment list\<close>

definition segs_inv :: "ref_world \<Rightarrow> bool" where
  "segs_inv W \<longleftrightarrow> (\<exists>ps. seg_list (heap (w_state W)) NULL (r_allocs (w_region W)) ps \<and>
     (\<forall>q n. heap (w_state W) q = Some (Seg n) \<longrightarrow> q \<in> set ps))"

lemma same_segs:
  "heap (w_state W') = heap (w_state W) \<Longrightarrow> r_allocs (w_region W') = r_allocs (w_region W) \<Longrightarrow>
     segs_inv W' = segs_inv W"
  by (simp add: segs_inv_def)

lemma segs_inv_step:
  assumes "ref_step owner t act W = Some W'" and "segs_inv W"
  shows "segs_inv W'"
proof -
  obtain ps where ps: "seg_list (heap (w_state W)) NULL (r_allocs (w_region W)) ps"
      "\<And>q n. heap (w_state W) q = Some (Seg n) \<Longrightarrow> q \<in> set ps"
    using assms(2) by (auto simp: segs_inv_def)
  show ?thesis
  proof (cases act)
    case (Ref_Alloc sz)
    obtain res target rg s where al: "ref_tm_alloc (w_region W) sz (w_state W) = Some (res, target, rg, s)"
        and W': "w_region W' = rg" "w_state W' = s"
      using assms(1) Ref_Alloc by (auto simp: ref_step_alloc split: option.split_asm)
    from ref_tm_alloc_cases [OF al ps(1)] show ?thesis
    proof (elim conjE disjE exE)
      fix q assume "seg_list (heap s) NULL (r_allocs rg) (q # ps)"
        "\<forall>p. p \<notin> set (q # ps) \<longrightarrow> heap s p = heap (w_state W) p"
      with ps(2) show ?thesis unfolding segs_inv_def W' by (metis list.set_intros(2))
    qed (use ps W' in \<open>auto simp: segs_inv_def\<close>)
  next
    case (Ref_Free seg)
    obtain b rg s where fr: "ref_tm_free (w_region W) seg (w_state W) = Some (b, rg, s)"
        and W': "w_region W' = rg" "w_state W' = s"
      using assms(1) Ref_Free by (auto simp: ref_step_free)
    obtain n where "heap (w_state W) (seg - 16) = Some (Seg n)"
      using fr by (auto simp: ref_tm_free_def bind_simps get_seg_iff)
    then obtain xs ys where sp: "ps = xs @ (seg - 16) # ys" using ps(2) split_list by metis
    from ref_tm_free_facts [OF ps(1) [unfolded sp]] fr
    have "seg_list (heap s) NULL (r_allocs rg) (xs @ ys)" "heap s (seg - 16) = None"
      "\<forall>p. p \<notin> set ps \<longrightarrow> heap s p = heap (w_state W) p" by (auto simp: sp)
    with ps(2) show ?thesis unfolding segs_inv_def W' sp
      by (metis Un_iff insert_iff list.set(2) option.distinct(1) set_append)
  next
    case (Ref_Begin ro code queued)
    with assms(1) have "r_allocs (w_region W') = r_allocs (w_region W)" "w_state W' = w_state W"
      by (auto simp: ref_step_begin ref_tm_begin_iff split: if_split_asm)
    with assms(2) show ?thesis by (subst same_segs [of W' W]) simp_all
  next
    case Ref_End
    with assms(1) obtain tx b rg where "ref_tm_end (w_region W) tx = Some (b, rg)"
        "w_region W' = rg" "w_state W' = w_state W" by (auto simp: ref_step_end)
    with assms(2) show ?thesis
      by (subst same_segs [of W' W]) (auto simp: ref_tm_end_iff split: if_split_asm)
  next
    case Ref_Read
    with assms show ?thesis by (simp add: ref_step_read segs_inv_def memcpy_def)
  next
    case Ref_Write
    with assms show ?thesis by (simp add: ref_step_write segs_inv_def memcpy_def)
  qed
qed

section \<open>The lock\<close>

definition readers_of :: "ref_world \<Rightarrow> nat set" where
  "readers_of W = {t. w_tx W t = Some read_only_tx}"

text \<open>A writer is alone; without one, the lock counts the read-only transactions.\<close>

definition lock_inv :: "ref_world \<Rightarrow> bool" where
  "lock_inv W \<longleftrightarrow>
     (if writer (r_lock (w_region W))
      then \<exists>t. w_tx W = Map.empty(t := Some read_write_tx) \<and> readers (r_lock (w_region W)) = 0
      else (\<forall>t. w_tx W t \<in> {None, Some read_only_tx}) \<and> finite (readers_of W) \<and>
           readers (r_lock (w_region W)) = card (readers_of W))"

lemma same_lock_inv:
  "r_lock (w_region W') = r_lock (w_region W) \<Longrightarrow> w_tx W' = w_tx W \<Longrightarrow> lock_inv W' = lock_inv W"
  by (simp add: lock_inv_def readers_of_def)

lemma lock_inv_begin:
  assumes "ref_step owner t (Ref_Begin ro 0 queued) W = Some W'" and "lock_inv W"
  shows "lock_inv W'"
proof -
  let ?l = "r_lock (w_region W)"
  obtain tx rg where b: "w_tx W t = None" "ref_tm_begin 0 queued (w_region W) ro = Some (tx, rg)"
      and W': "w_region W' = rg" "w_tx W' = (w_tx W)(t := Some tx)"
    using assms(1) by (auto simp: ref_step_begin)
  have w: "\<not> writer ?l" using b by (simp add: ref_tm_begin_iff)
  with assms(2) have inv: "\<And>u. w_tx W u = None \<or> w_tx W u = Some read_only_tx" "finite (readers_of W)"
      "readers ?l = card (readers_of W)"
    by (auto simp: lock_inv_def)
  show ?thesis
  proof (cases ro)
    case True
    have "readers_of W' = insert t (readers_of W)" "t \<notin> readers_of W"
      using b True by (auto simp: readers_of_def W' ref_tm_begin_iff)
    with b True w inv show ?thesis
      by (auto simp: lock_inv_def W' ref_tm_begin_iff)
  next
    case False
    with b inv have "w_tx W u = None" for u
      using inv(1) [of u] by (auto simp: ref_tm_begin_iff readers_of_def card_eq_0_iff)
    then have "w_tx W = Map.empty" by auto
    with b False show ?thesis by (auto simp: lock_inv_def W' ref_tm_begin_iff)
  qed
qed

lemma lock_inv_end:
  assumes "ref_step owner t Ref_End W = Some W'" and "lock_inv W"
  shows "lock_inv W'"
proof -
  let ?l = "r_lock (w_region W)"
  obtain tx b rg where e: "w_tx W t = Some tx" "ref_tm_end (w_region W) tx = Some (b, rg)"
      and W': "w_region W' = rg" "w_tx W' = (w_tx W)(t := None)"
    using assms(1) by (auto simp: ref_step_end)
  show ?thesis
  proof (cases "writer ?l")
    case True
    with assms(2) e obtain u where "w_tx W = Map.empty(u := Some read_write_tx)" "readers ?l = 0"
      by (auto simp: lock_inv_def)
    with e True have "w_tx W' = Map.empty" "readers ?l = 0" by (auto simp: W' split: if_splits)
    with e True show ?thesis by (simp add: lock_inv_def W' ref_tm_end_iff readers_of_def)
  next
    case False
    then have inv: "\<And>u. w_tx W u = None \<or> w_tx W u = Some read_only_tx" "finite (readers_of W)"
        "readers ?l = card (readers_of W)"
      using assms(2) by (auto simp: lock_inv_def)
    have "readers_of W' = readers_of W - {t}" "t \<in> readers_of W"
      using e inv(1) [of t] by (auto simp: readers_of_def W')
    with e False inv show ?thesis
      by (simp add: lock_inv_def W' ref_tm_end_iff)
  qed
qed

lemma lock_inv_step:
  assumes "ref_step owner t act W = Some W'" and "lock_inv W" and "segs_inv W"
  shows "lock_inv W'"
proof (cases act)
  case (Ref_Begin ro code queued)
  with assms lock_inv_begin [of owner t ro queued W W'] show ?thesis
    by (cases "code = 0") (auto simp: ref_step_begin)
next
  case (Ref_Alloc n)
  obtain ps where ps: "seg_list (heap (w_state W)) NULL (r_allocs (w_region W)) ps"
    using assms(3) by (auto simp: segs_inv_def)
  have "r_lock (w_region W') = r_lock (w_region W) \<and> w_tx W' = w_tx W"
    using assms(1) Ref_Alloc ref_tm_alloc_cases [OF _ ps]
    by (auto simp: ref_step_alloc split: option.split_asm)
  with assms(2) same_lock_inv [of W' W] show ?thesis by simp
next
  case (Ref_Free seg)
  with assms(1) have "r_lock (w_region W') = r_lock (w_region W) \<and> w_tx W' = w_tx W"
    by (auto simp: ref_step_free dest: ref_tm_free_lock)
  with assms(2) same_lock_inv [of W' W] show ?thesis by simp
qed (use assms lock_inv_end same_lock_inv [of W' W] in
      \<open>auto simp: ref_step_read ref_step_write\<close>)

section \<open>The memory\<close>

text \<open>
  Every running transaction sees the initial memory with all committed transactions applied in
  commit order and its own writes on top; so does the memory when no writer runs.
\<close>

definition committed :: "ref_world \<Rightarrow> write_log" where
  "committed W = concat (w_hist W)"

definition view_of :: "(addr \<Rightarrow> byte) \<Rightarrow> ref_world \<Rightarrow> nat \<Rightarrow> (addr \<Rightarrow> byte)" where
  "view_of m0 W t = replay m0 (committed W @ w_own W t)"

definition mem_inv :: "(addr \<Rightarrow> nat option) \<Rightarrow> (addr \<Rightarrow> byte) \<Rightarrow> ref_world \<Rightarrow> bool" where
  "mem_inv owner m0 W \<longleftrightarrow>
     (\<forall>t tx. w_tx W t = Some tx \<longrightarrow>
        w_began W t = length (w_hist W) \<and> (tx \<noteq> read_write_tx \<longrightarrow> w_own W t = []) \<and>
        agree owner (mem (w_state W)) (view_of m0 W t)) \<and>
     (\<not> writer (r_lock (w_region W)) \<longrightarrow>
        agree owner (mem (w_state W)) (replay m0 (committed W)))"

text \<open>A writer is the only transaction.\<close>

lemma lock_inv_writer:
  assumes "lock_inv W" and "w_tx W t = Some read_write_tx"
  shows "writer (r_lock (w_region W))" and "w_tx W = Map.empty(t := Some read_write_tx)"
    and "readers (r_lock (w_region W)) = 0"
proof -
  show w: "writer (r_lock (w_region W))"
  proof (rule ccontr)
    assume "\<not> writer (r_lock (w_region W))"
    with assms(1) have "w_tx W t \<in> {None, Some read_only_tx}" by (simp add: lock_inv_def)
    with assms(2) show False by simp
  qed
  with assms show "w_tx W = Map.empty(t := Some read_write_tx)" "readers (r_lock (w_region W)) = 0"
    by (auto simp: lock_inv_def split: if_splits)
qed

text \<open>A write by the writer keeps the invariant.\<close>

lemma mem_inv_write:
  assumes "lock_inv W" and "mem_inv owner m0 W" and "w_tx W t = Some read_write_tx"
    and "w_tx W' = w_tx W" and "r_lock (w_region W') = r_lock (w_region W)"
    and "w_began W' = w_began W" and "w_hist W' = w_hist W"
    and "w_own W' = (w_own W)(t := w_own W t @ [(a, bs)])"
    and "mem (w_state W') = store (mem (w_state W)) a bs"
  shows "mem_inv owner m0 W'"
proof -
  note wr = lock_inv_writer [OF assms(1,3)]
  have "agree owner (mem (w_state W)) (view_of m0 W t)"
    using assms(2,3) by (simp add: mem_inv_def)
  then have "agree owner (mem (w_state W')) (view_of m0 W' t)"
    using assms(7-9) agree_store by (simp add: view_of_def committed_def flip: append_assoc)
  moreover have "w_began W t = length (w_hist W)" using assms(2,3) by (simp add: mem_inv_def)
  ultimately show ?thesis
    using wr assms(4-7) unfolding mem_inv_def by (simp split: if_splits)
qed

lemma mem_inv_step:
  assumes "ref_step owner t act W = Some W'" and "mem_inv owner m0 W" and "lock_inv W" and "segs_inv W"
  shows "mem_inv owner m0 W'"
proof (cases act)
  case (Ref_Begin ro code queued)
  show ?thesis
  proof (cases "code = 0")
    case False
    with Ref_Begin assms(1,2) show ?thesis by (simp add: ref_step_begin)
  next
    case True
    with Ref_Begin obtain tx rg where b: "w_tx W t = None" "ref_tm_begin 0 queued (w_region W) ro = Some (tx, rg)"
        and W': "W' = W\<lparr>w_region := rg, w_tx := (w_tx W)(t := Some tx), w_own := (w_own W)(t := []),
                w_began := (w_began W)(t := length (w_hist W))\<rparr>"
      using assms(1) by (auto simp: ref_step_begin)
    have w: "\<not> writer (r_lock (w_region W))" using b by (simp add: ref_tm_begin_iff)
    have "view_of m0 W' u = (if u = t then replay m0 (committed W) else view_of m0 W u)" for u
      by (simp add: view_of_def committed_def W')
    with assms(2) w show ?thesis by (simp add: mem_inv_def W' committed_def)
  qed
next
  case (Ref_Read src n tgt)
  then have own: "range_owned owner (Some t) tgt (unat n)"
      and W': "W' = W\<lparr>w_state := memcpy tgt src (unat n) (w_state W)\<rparr>"
    using assms(1) by (auto simp: ref_step_read)
  have "agree owner (mem (w_state W')) m" if "agree owner (mem (w_state W)) m" for m
    unfolding W' using agree_private [OF _ that] own by (simp add: memcpy_def)
  with assms(2) show ?thesis by (simp add: mem_inv_def W' view_of_def committed_def)
next
  case (Ref_Write src n tgt)
  with assms show ?thesis
    by (intro mem_inv_write [OF assms(3,2)]) (auto simp: ref_step_write memcpy_def)
next
  case (Ref_Alloc n)
  obtain ps where ps: "seg_list (heap (w_state W)) NULL (r_allocs (w_region W)) ps"
    using assms(4) by (auto simp: segs_inv_def)
  obtain res target rg s where rw: "w_tx W t = Some read_write_tx"
      and al: "ref_tm_alloc (w_region W) n (w_state W) = Some (res, target, rg, s)"
      and W': "case target of
          None \<Rightarrow> W' = W\<lparr>w_region := rg, w_state := s\<rparr>
        | Some seg \<Rightarrow> range_owned owner None seg (unat n) \<and> W' = W\<lparr>w_region := rg, w_state := s,
                   w_own := (w_own W)(t := w_own W t @ [(seg, replicate (unat n) 0)])\<rparr>"
    using assms(1) Ref_Alloc by (auto simp: ref_step_alloc)
  from ref_tm_alloc_cases [OF al ps] show ?thesis
  proof (elim conjE disjE exE)
    assume "r_lock rg = r_lock (w_region W)" "target = None" "mem s = mem (w_state W)"
    with assms(2) W' show ?thesis by (simp add: mem_inv_def view_of_def committed_def)
  next
    fix q assume q: "r_lock rg = r_lock (w_region W)" "target = Some (q + 16)"
      "mem s = store (mem (w_state W)) (q + 16) (replicate (unat n) 0)"
    then have "W' = W\<lparr>w_region := rg, w_state := s,
        w_own := (w_own W)(t := w_own W t @ [(q + 16, replicate (unat n) 0)])\<rparr>"
      using W' by simp
    with q show ?thesis by (intro mem_inv_write [OF assms(3,2) rw]) simp_all
  qed
next
  case (Ref_Free seg)
  then obtain b rg s where fr: "ref_tm_free (w_region W) seg (w_state W) = Some (b, rg, s)"
      and W': "W' = W\<lparr>w_region := rg, w_state := s\<rparr>"
    using assms(1) by (auto simp: ref_step_free)
  with assms(2) ref_tm_free_lock [OF fr] ref_tm_free_mem [OF fr] show ?thesis
    by (simp add: mem_inv_def W' view_of_def committed_def)
next
  case Ref_End
  then obtain tx b rg where e: "w_tx W t = Some tx" "ref_tm_end (w_region W) tx = Some (b, rg)"
      and W': "W' = W\<lparr>w_region := rg, w_tx := (w_tx W)(t := None),
               w_hist := w_hist W @ (if tx = read_write_tx then [w_own W t] else [])\<rparr>"
    using assms(1) by (auto simp: ref_step_end)
  show ?thesis
  proof (cases "tx = read_write_tx")
    case True
    note wr = lock_inv_writer [OF assms(3) e(1) [unfolded True]]
    have "agree owner (mem (w_state W)) (view_of m0 W t)"
      using assms(2) e(1) by (simp add: mem_inv_def)
    moreover have "w_tx W' = Map.empty" using wr by (simp add: W')
    ultimately show ?thesis
      using True by (simp add: mem_inv_def W' view_of_def committed_def)
  next
    case False
    with e assms(3) have "\<not> writer (r_lock (w_region W))"
      by (auto simp: lock_inv_def split: if_splits)
    with e False assms(2) show ?thesis
      by (auto simp: mem_inv_def W' view_of_def committed_def ref_tm_end_iff)
  qed
qed

section \<open>Reachable states\<close>

definition ref_inv :: "(addr \<Rightarrow> nat option) \<Rightarrow> (addr \<Rightarrow> byte) \<Rightarrow> ref_world \<Rightarrow> bool" where
  "ref_inv owner m0 W \<longleftrightarrow> segs_inv W \<and> lock_inv W \<and> mem_inv owner m0 W"

lemma ref_inv_start: "no_segments s \<Longrightarrow> ref_inv owner (mem s) (ref_start rg s)"
  by (auto simp: ref_inv_def segs_inv_def lock_inv_def mem_inv_def ref_start_def no_segments_def
      ref_shared_lock_init_def readers_of_def committed_def intro: exI [of _ "[]"])

lemma ref_run_inv: "ref_run owner as W = Some W' \<Longrightarrow> ref_inv owner m0 W \<Longrightarrow> ref_inv owner m0 W'"
proof (induction as arbitrary: W)
  case (Cons x as)
  then show ?case
    by (cases x) (auto simp: Option.bind_eq_Some_conv ref_inv_def
        dest: segs_inv_step lock_inv_step mem_inv_step)
qed simp

lemma ref_reachable_inv:
  "no_segments s \<Longrightarrow> ref_run owner as (ref_start rg s) = Some W \<Longrightarrow> ref_inv owner (mem s) W"
  using ref_run_inv ref_inv_start by blast

text \<open>The runs of the witnesses: thread 0 owns the first 512 bytes, thread 1 the next.\<close>

definition two_owners :: "addr \<Rightarrow> nat option" where
  "two_owners a = (if a < 512 then Some 0 else if a < 1024 then Some 1 else None)"

definition writer_then_reader :: "(nat \<times> ref_act) list" where
  "writer_then_reader = [(0, Ref_Begin False 0 False), (0, Ref_Write 0 1 1024), (0, Ref_End), (1, Ref_Begin True 0 False)]"

lemmas ref_evaluate =
  ref_step_def ref_start_def ref_empty_def fresh_state_def ref_shared_lock_init_def ref_tm_begin_def
  ref_tm_end_def ref_tm_write_def ref_tm_read_def rwlock_defs memcpy_def range_owned_def
  two_owners_def load_def

lemma fresh_no_segments: "no_segments fresh_state"
  by (simp add: no_segments_def fresh_state_def)

text \<open>C34: In every interleaving of the reference implementation a read-write transaction runs alone:
  no other thread is in a transaction of either kind, and the lock is held by its writer.\<close>

theorem ref_mutual_exclusion:
  assumes "no_segments s" and "ref_run owner as (ref_start rg s) = Some W"
    and "w_tx W t = Some read_write_tx" and "u \<noteq> t"
  shows "w_tx W u = None \<and> writer (r_lock (w_region W)) \<and> readers (r_lock (w_region W)) = 0"
  using lock_inv_writer [of W t] ref_reachable_inv [OF assms(1,2)] assms(3,4)
  by (simp add: ref_inv_def)

theorem ref_mutual_exclusion_witness:
  "\<exists>W. ref_run two_owners [(0, Ref_Begin False 0 False)] (ref_start ref_empty fresh_state) = Some W \<and>
     w_tx W 1 = None"
proof -
  obtain W :: ref_world where W: "ref_run two_owners [(0, Ref_Begin False 0 False)] (ref_start ref_empty fresh_state) = Some W"
      "w_tx W 0 = Some read_write_tx"
    by (simp add: ref_evaluate)
  with ref_mutual_exclusion [OF fresh_no_segments W, of 1] show ?thesis by auto
qed

text \<open>C35: Transactions of the reference implementation are serialisable in commit order and opaque:
  whatever the interleaving, a \<open>tm_read\<close> delivers what the initial memory holds after replaying the
  write sets of the transactions committed before its transaction began, then its own writes.\<close>

theorem ref_serializable:
  assumes "no_segments s" and "ref_run owner as (ref_start rg s) = Some W"
    and "ref_step owner t (Ref_Read source sz target) W = Some W'"
  shows "w_began W t = length (w_hist W) \<and>
    load (mem (w_state W')) target (unat sz) =
      load (replay (mem s) (concat (take (w_began W t) (w_hist W)) @ w_own W t)) source (unat sz)"
proof -
  obtain tx where tx: "w_tx W t = Some tx" and own: "range_owned owner None source (unat sz)"
      and W': "W' = W\<lparr>w_state := memcpy target source (unat sz) (w_state W)\<rparr>"
    using assms(3) by (auto simp: ref_step_read)
  have inv: "w_began W t = length (w_hist W)" "agree owner (mem (w_state W)) (view_of (mem s) W t)"
    using ref_reachable_inv [OF assms(1,2)] tx by (simp_all add: ref_inv_def mem_inv_def)
  have "unat sz \<le> 2 ^ 64" using unsigned_less [of sz, where ?'a = nat] by simp
  then have "load (mem (w_state W')) target (unat sz) = load (mem (w_state W)) source (unat sz)"
    using load_store_same [of "load (mem (w_state W)) source (unat sz)"] by (simp add: W' memcpy_def)
  with inv agree_load [OF inv(2) own] show ?thesis by (simp add: view_of_def committed_def)
qed

theorem ref_serializable_witness:
  "\<exists>W W'. ref_run two_owners writer_then_reader (ref_start ref_empty fresh_state) = Some W \<and>
     ref_step two_owners 1 (Ref_Read 1024 1 512) W = Some W' \<and> w_began W 1 = length (w_hist W)"
proof -
  obtain W W' where "ref_run two_owners writer_then_reader (ref_start ref_empty fresh_state) = Some W"
      "ref_step two_owners 1 (Ref_Read 1024 1 512) W = Some W'"
    by (simp add: ref_evaluate writer_then_reader_def)
  with ref_serializable [OF fresh_no_segments this] show ?thesis by blast
qed

text \<open>A running transaction holds the lock in its mode, so that it can release it.\<close>

lemma running_holds:
  assumes "lock_inv W" and "w_tx W t \<noteq> None"
  shows "writer (r_lock (w_region W)) \<or> 0 < readers (r_lock (w_region W))"
proof (cases "writer (r_lock (w_region W))")
  case False
  then have f: "finite (readers_of W)" "readers (r_lock (w_region W)) = card (readers_of W)"
      "w_tx W t \<in> {None, Some read_only_tx}"
    using assms(1) by (simp_all add: lock_inv_def)
  with assms(2) have "t \<in> readers_of W" by (auto simp: readers_of_def)
  with f show ?thesis by (auto simp: card_gt_0_iff)
qed simp

lemma ref_end_enabled:
  assumes "lock_inv W" and "w_tx W t \<noteq> None"
  shows "\<exists>W'. ref_step owner t Ref_End W = Some W' \<and> w_tx W' = (w_tx W)(t := None)"
  using running_holds [OF assms] assms(2)
  by (auto simp: ref_step_def ref_tm_end_def rwlock_defs)

lemma running_finite: "lock_inv W \<Longrightarrow> finite {t. w_tx W t \<noteq> None}"
proof (cases "writer (r_lock (w_region W))")
  case True
  moreover assume "lock_inv W"
  ultimately obtain t where "w_tx W = Map.empty(t := Some read_write_tx)" by (auto simp: lock_inv_def)
  then have "{u. w_tx W u \<noteq> None} \<subseteq> {t}" by auto
  then show ?thesis by (rule finite_subset) simp
next
  case False
  moreover assume "lock_inv W"
  ultimately have tx: "\<forall>t. w_tx W t \<in> {None, Some read_only_tx}" and "finite (readers_of W)"
    by (simp_all add: lock_inv_def)
  moreover have "{t. w_tx W t \<noteq> None} \<subseteq> readers_of W"
  proof
    fix u assume "u \<in> {t. w_tx W t \<noteq> None}"
    moreover have "w_tx W u \<in> {None, Some read_only_tx}" using tx by (rule spec)
    ultimately show "u \<in> readers_of W" by (auto simp: readers_of_def)
  qed
  ultimately show ?thesis using finite_subset by blast
qed

text \<open>The running transactions can all end, one after the other.\<close>

lemma all_can_end:
  assumes "lock_inv W"
  shows "\<exists>es W'. ref_run owner es W = Some W' \<and> set es \<subseteq> {(u, Ref_End) | u. w_tx W u \<noteq> None} \<and>
    length es = card {u. w_tx W u \<noteq> None} \<and> w_tx W' = Map.empty \<and> lock_inv W'"
  using assms
proof (induction "card {u. w_tx W u \<noteq> None}" arbitrary: W)
  case 0
  then have "w_tx W = Map.empty" using running_finite [of W] by auto
  with 0 show ?case by (intro exI [of _ "[]"] exI [of _ W]) simp
next
  case (Suc n)
  then obtain t where t: "w_tx W t \<noteq> None"
    by (metis (mono_tags, lifting) card.empty empty_Collect_eq nat.distinct(1))
  obtain W1 where W1: "ref_step owner t Ref_End W = Some W1" "w_tx W1 = (w_tx W)(t := None)"
    using ref_end_enabled [OF Suc.prems t] by blast
  have less: "{u. w_tx W1 u \<noteq> None} = {u. w_tx W u \<noteq> None} - {t}" by (auto simp: W1(2))
  then have "n = card {u. w_tx W1 u \<noteq> None}"
    using Suc.hyps(2) running_finite [OF Suc.prems] t by simp
  from Suc.hyps(1) [OF this lock_inv_end [OF W1(1) Suc.prems]] obtain es W' where
    "ref_run owner es W1 = Some W'" "set es \<subseteq> {(u, Ref_End) | u. w_tx W1 u \<noteq> None}"
    "length es = card {u. w_tx W1 u \<noteq> None}" "w_tx W' = Map.empty" "lock_inv W'" by blast
  with W1 less t \<open>n = _\<close> Suc.hyps(2) show ?case
    by (intro exI [of _ "(t, Ref_End) # es"] exI [of _ W']) (auto split: if_splits)
qed

text \<open>Without a running transaction nothing is held, and a begin that does not fail gets its token.\<close>

lemma ref_begin_enabled:
  assumes "lock_inv W" and "w_tx W t = None" and "\<forall>u. w_tx W u \<noteq> Some read_write_tx"
    and "ro \<or> (\<forall>u. w_tx W u = None)"
  shows "\<exists>W'. ref_step owner t (Ref_Begin ro 0 False) W = Some W' \<and>
    w_tx W' t = Some (if ro then read_only_tx else read_write_tx)"
proof -
  have "\<not> writer (r_lock (w_region W))" "ro \<or> readers (r_lock (w_region W)) = 0"
    using assms(1,3,4) by (auto simp: lock_inv_def readers_of_def split: if_splits)
  with assms(2) show ?thesis by (cases ro) (auto simp: ref_step_def ref_tm_begin_def rwlock_defs)
qed

text \<open>C36: The reference implementation does not deadlock. In every reachable state the running
  transactions can end, in one step each and without waiting, after which a begin of either kind is
  granted to every thread and returns the token of its kind; a read-only one is granted next to
  other read-only ones already, if no writer is queued. A begin whose lock operation fails returns
  without waiting, and leaves the region unchanged and the thread outside a transaction.\<close>

theorem ref_progress:
  assumes "no_segments s" and "ref_run owner as (ref_start rg s) = Some W"
  shows "(\<exists>es W'. ref_run owner es W = Some W' \<and> set es \<subseteq> {(u, Ref_End) | u. w_tx W u \<noteq> None} \<and>
       length es = card {u. w_tx W u \<noteq> None} \<and>
       (\<forall>u ro. \<exists>W''. ref_step owner u (Ref_Begin ro 0 False) W' = Some W'' \<and>
          w_tx W'' u = Some (if ro then read_only_tx else read_write_tx))) \<and>
    (w_tx W t \<noteq> None \<longrightarrow> ref_step owner t Ref_End W \<noteq> None) \<and>
    (w_tx W t = None \<and> (\<forall>u. w_tx W u \<noteq> Some read_write_tx) \<longrightarrow>
       (\<exists>W'. ref_step owner t (Ref_Begin True 0 False) W = Some W' \<and> w_tx W' t = Some read_only_tx)) \<and>
    (w_tx W t = None \<and> code \<noteq> 0 \<longrightarrow> ref_step owner t (Ref_Begin ro code queued) W = Some W)"
proof -
  have inv: "lock_inv W" using ref_reachable_inv [OF assms] by (simp add: ref_inv_def)
  obtain es W' where es: "ref_run owner es W = Some W'" "set es \<subseteq> {(u, Ref_End) | u. w_tx W u \<noteq> None}"
    "length es = card {u. w_tx W u \<noteq> None}" and W': "w_tx W' = Map.empty" "lock_inv W'"
    using all_can_end [OF inv] by blast
  have free: "\<forall>u ro. \<exists>W''. ref_step owner u (Ref_Begin ro 0 False) W' = Some W'' \<and>
      w_tx W'' u = Some (if ro then read_only_tx else read_write_tx)"
    using ref_begin_enabled [OF W'(2)] W'(1) by simp
  have "w_tx W t \<noteq> None \<longrightarrow> ref_step owner t Ref_End W \<noteq> None"
    using ref_end_enabled [OF inv] by fastforce
  moreover have "w_tx W t = None \<and> (\<forall>u. w_tx W u \<noteq> Some read_write_tx) \<longrightarrow>
      (\<exists>W'. ref_step owner t (Ref_Begin True 0 False) W = Some W' \<and> w_tx W' t = Some read_only_tx)"
    using ref_begin_enabled [OF inv, of t True owner] by simp
  moreover have "w_tx W t = None \<and> code \<noteq> 0 \<longrightarrow> ref_step owner t (Ref_Begin ro code queued) W = Some W"
    by (simp add: ref_step_begin)
  ultimately show ?thesis using es free by blast
qed

theorem ref_progress_witness:
  "\<exists>W es W'. ref_run two_owners [(0, Ref_Begin False 0 False)] (ref_start ref_empty fresh_state) = Some W \<and>
     ref_step two_owners 1 (Ref_Begin True 0 False) W = None \<and>
     ref_step two_owners 1 (Ref_Begin True 11 False) W = Some W \<and>
     ref_run two_owners es W = Some W' \<and> ref_step two_owners 1 (Ref_Begin True 0 False) W' \<noteq> None"
proof -
  obtain W :: ref_world where W: "ref_run two_owners [(0, Ref_Begin False 0 False)] (ref_start ref_empty fresh_state) = Some W"
      "w_tx W 1 = None" "ref_step two_owners 1 (Ref_Begin True 0 False) W = None"
    by (simp add: ref_evaluate)
  note p = ref_progress [OF fresh_no_segments W(1), of 1]
  have fail: "ref_step two_owners 1 (Ref_Begin True 11 False) W = Some W"
    using p [of 11 True False] W(2) by (metis zero_neq_numeral)
  obtain es W' W'' where "ref_run two_owners es W = Some W'"
      "ref_step two_owners 1 (Ref_Begin True 0 False) W' = Some W''"
    using p [of 0 True False] by metis
  with W fail show ?thesis by (metis option.distinct(1))
qed

end
