(* ===== verification/Transactional.thy ===== *)
theory Transactional
  imports Segments Reference_Tm
begin

text \<open>
  \<open>grading/transactional.hpp\<close>: the library handle as a record of function pointers, the shared
  memory region, the \<open>Transaction\<close> object with its constructor and destructor, the accessors
  \<open>Shared\<close> and the retry loop \<open>transactional\<close>. A piece of client code maps a session (the
  transaction object, the captured variables, the region and the store) to an exception or a
  value and the new session, or to \<open>None\<close> for undefined behaviour; \<open>tbind\<close> sequences client
  code and lets exceptions pass. The templates are instantiated as the workload uses them, with
  types of eight bytes; \<open>s_local\<close> is where the local variable of an accessor lives.
\<close>

section \<open>Exceptions and libraries\<close>

datatype exn =
    PathResolve | ModuleLoading | ModuleSymbol
  | TransactionAlign | TransactionReadOnly | TransactionCreate | TransactionBegin
  | TransactionAlloc | TransactionRetry | TransactionNotLastSegment
  | SharedAlign | SharedOverflow | SharedDoubleAlloc | SharedDoubleFree
  | BoundedOverrun
  | Terminated                \<comment> \<open>\<open>std::terminate\<close>: nothing catches it\<close>

record 'r library =
  lib_create :: "csize \<Rightarrow> csize \<Rightarrow> cstate \<Rightarrow> (addr \<times> 'r option \<times> cstate) option"
  lib_destroy :: "addr \<Rightarrow> 'r \<Rightarrow> cstate \<Rightarrow> cstate option"
  lib_start :: "'r \<Rightarrow> addr"
  lib_begin :: "bool \<Rightarrow> 'r \<Rightarrow> cstate \<Rightarrow> (addr \<times> 'r \<times> cstate) option"
  lib_end :: "addr \<Rightarrow> 'r \<Rightarrow> cstate \<Rightarrow> (bool \<times> 'r \<times> cstate) option"
  lib_read :: "addr \<Rightarrow> addr \<Rightarrow> csize \<Rightarrow> addr \<Rightarrow> 'r \<Rightarrow> cstate \<Rightarrow> (bool \<times> 'r \<times> cstate) option"
  lib_write :: "addr \<Rightarrow> addr \<Rightarrow> csize \<Rightarrow> addr \<Rightarrow> 'r \<Rightarrow> cstate \<Rightarrow> (bool \<times> 'r \<times> cstate) option"
  lib_alloc :: "addr \<Rightarrow> csize \<Rightarrow> 'r \<Rightarrow> cstate \<Rightarrow> (alloc_t \<times> addr option \<times> 'r \<times> cstate) option"
  lib_free :: "addr \<Rightarrow> addr \<Rightarrow> 'r \<Rightarrow> cstate \<Rightarrow> (bool \<times> 'r \<times> cstate) option"

definition assert_mode :: bool where
  "assert_mode = False"

record 'r tmem =
  tl :: "'r library"
  start_addr :: addr
  start_size :: csize
  alignment :: csize

record ('r, 'e) session =
  s_tx :: addr
  s_aborted :: bool
  s_ro :: bool
  s_env :: 'e
  s_local :: addr
  s_region :: 'r
  s_c :: cstate

type_synonym ('r, 'e, 'a) outcome = "((exn + 'a) \<times> ('r, 'e) session) option"

definition return :: "'a \<Rightarrow> ('r, 'e) session \<Rightarrow> ('r, 'e, 'a) outcome" where
  "return x s = Some (Inr x, s)"

definition throw :: "exn \<Rightarrow> ('r, 'e) session \<Rightarrow> ('r, 'e, 'a) outcome" where
  "throw e s = Some (Inl e, s)"

definition tbind ::
  "('r, 'e, 'a) outcome \<Rightarrow> ('a \<Rightarrow> ('r, 'e) session \<Rightarrow> ('r, 'e, 'b) outcome) \<Rightarrow> ('r, 'e, 'b) outcome" where
  "tbind m f = Option.bind m (\<lambda>(r, s). case r of Inl e \<Rightarrow> throw e s | Inr x \<Rightarrow> f x s)"

lemma tbind_simps [simp]:
  "tbind (return x s) f = f x s" "tbind (throw e s) f = throw e s" "tbind None f = None"
  "tbind (Some (Inr x, s)) f = f x s" "tbind (Some (Inl e, s)) f = throw e s"
  by (simp_all add: tbind_def return_def throw_def)

lemma tbind_assoc: "tbind (tbind m f) g = tbind m (\<lambda>x s. tbind (f x s) g)"
proof (cases m)
  case (Some r)
  then show ?thesis by (cases r; cases "fst r") (auto simp: tbind_def throw_def)
qed simp

text \<open>Client loops are least fixed points, so \<open>tbind\<close> has to be monotone.\<close>

lemma tbind_mono [partial_function_mono]:
  assumes "mono_option m" and "\<And>x s. mono_option (\<lambda>f. B x s f)"
  shows "mono_option (\<lambda>f. tbind (m f) (\<lambda>x s. B x s f))"
  unfolding tbind_def
proof (rule bind_mono [OF assms(1)])
  fix y
  show "mono_option (\<lambda>f. case y of (r, s) \<Rightarrow> (case r of Inl e \<Rightarrow> throw e s | Inr x \<Rightarrow> B x s f))"
    by (cases y; cases "fst y") (auto simp: assms(2) option.const_mono)
qed

section \<open>Bytes of a word\<close>

fun to_bytes :: "nat \<Rightarrow> 64 word \<Rightarrow> byte list" where
  "to_bytes 0 w = []"
| "to_bytes (Suc n) w = ucast w # to_bytes n (drop_bit 8 w)"

fun of_bytes :: "byte list \<Rightarrow> 64 word" where
  "of_bytes [] = 0"
| "of_bytes (b # bs) = (ucast b OR push_bit 8 (of_bytes bs))"

lemma length_to_bytes [simp]: "length (to_bytes n w) = n"
  by (induction n arbitrary: w) simp_all

lemma of_to_bytes: "of_bytes (to_bytes n w) = take_bit (8 * n) w"
proof (induction n arbitrary: w)
  case (Suc n)
  show ?case
    by (rule bit_word_eqI)
      (auto simp: Suc bit_or_iff bit_push_bit_iff bit_take_bit_iff bit_drop_bit_eq bit_ucast_iff)
qed simp

lemma word_bytes [simp]: "of_bytes (to_bytes 8 w) = w"
  by (simp add: of_to_bytes take_bit_word_eq_self)

lemma zero_bytes [simp]: "to_bytes n 0 = replicate n 0"
  by (induction n) simp_all

section \<open>The shared memory region\<close>

definition is_power_of_two :: "csize \<Rightarrow> bool" where
  "is_power_of_two al \<longleftrightarrow> al \<noteq> 0 \<and> al AND (al - 1) = 0"

text \<open>\<open>bounded_run\<close> of \<open>common.hpp\<close>: whether the function finishes in time is up to the clock.\<close>

definition bounded_run :: "bool \<Rightarrow> (exn + 'a) \<Rightarrow> exn + 'a" where
  "bounded_run in_time r = (if in_time then r else Inl BoundedOverrun)"

text \<open>
  An exception inside the function given to \<open>bounded_run\<close> leaves the runner thread, which
  terminates the process.
\<close>

definition tmem_ctor :: "bool \<Rightarrow> 'r library \<Rightarrow> csize \<Rightarrow> csize \<Rightarrow> cstate \<Rightarrow> ((exn + 'r tmem \<times> addr \<times> 'r) \<times> cstate) option" where
  "tmem_ctor in_time L al sz c =
     (if assert_mode \<and> (\<not> is_power_of_two al \<or> unat sz mod unat al \<noteq> 0)
      then Some (Inl TransactionAlign, c)
      else do {
        (shared, rg, c) \<leftarrow> lib_create L sz al c;
        (case rg of
           None \<Rightarrow> Some (bounded_run in_time (Inl Terminated), c)
         | Some rg \<Rightarrow>
             Some (bounded_run in_time
               (Inr (\<lparr>tl = L, start_addr = lib_start L rg, start_size = sz, alignment = al\<rparr>, shared, rg)), c))
      })"

text \<open>The destructor is \<open>noexcept\<close>: an overrun that leaves it terminates the process.\<close>

definition tmem_dtor :: "bool \<Rightarrow> 'r tmem \<Rightarrow> addr \<Rightarrow> 'r \<Rightarrow> cstate \<Rightarrow> ((exn + unit) \<times> cstate) option" where
  "tmem_dtor in_time tm shared rg c = do {
     c \<leftarrow> lib_destroy (tl tm) shared rg c;
     Some (case bounded_run in_time (Inr ()) of Inl _ \<Rightarrow> Inl Terminated | Inr _ \<Rightarrow> Inr (), c)
   }"

text \<open>The operations of the region pass their arguments on to the library.\<close>

definition tmem_begin :: "'r tmem \<Rightarrow> bool \<Rightarrow> 'r \<Rightarrow> cstate \<Rightarrow> (addr \<times> 'r \<times> cstate) option" where
  [simp]: "tmem_begin tm ro = lib_begin (tl tm) ro"

definition tmem_end :: "'r tmem \<Rightarrow> addr \<Rightarrow> 'r \<Rightarrow> cstate \<Rightarrow> (bool \<times> 'r \<times> cstate) option" where
  [simp]: "tmem_end tm tx = lib_end (tl tm) tx"

definition tmem_read :: "'r tmem \<Rightarrow> addr \<Rightarrow> addr \<Rightarrow> csize \<Rightarrow> addr \<Rightarrow> 'r \<Rightarrow> cstate \<Rightarrow> (bool \<times> 'r \<times> cstate) option" where
  [simp]: "tmem_read tm tx source sz target = lib_read (tl tm) tx source sz target"

definition tmem_write :: "'r tmem \<Rightarrow> addr \<Rightarrow> addr \<Rightarrow> csize \<Rightarrow> addr \<Rightarrow> 'r \<Rightarrow> cstate \<Rightarrow> (bool \<times> 'r \<times> cstate) option" where
  [simp]: "tmem_write tm tx source sz target = lib_write (tl tm) tx source sz target"

definition tmem_alloc :: "'r tmem \<Rightarrow> addr \<Rightarrow> csize \<Rightarrow> 'r \<Rightarrow> cstate \<Rightarrow> (alloc_t \<times> addr option \<times> 'r \<times> cstate) option" where
  [simp]: "tmem_alloc tm tx sz = lib_alloc (tl tm) tx sz"

definition tmem_free :: "'r tmem \<Rightarrow> addr \<Rightarrow> addr \<Rightarrow> 'r \<Rightarrow> cstate \<Rightarrow> (bool \<times> 'r \<times> cstate) option" where
  [simp]: "tmem_free tm tx target = lib_free (tl tm) tx target"

section \<open>Transactions\<close>

text \<open>A call of the library from client code.\<close>

definition lib_call ::
  "('r \<Rightarrow> cstate \<Rightarrow> ('a \<times> 'r \<times> cstate) option) \<Rightarrow> ('r, 'e) session \<Rightarrow> ('r, 'e, 'a) outcome" where
  "lib_call f s = (case f (s_region s) (s_c s) of
     None \<Rightarrow> None
   | Some (x, rg, c) \<Rightarrow> return x (s\<lparr>s_region := rg, s_c := c\<rparr>))"

definition tx_ctor :: "'r tmem \<Rightarrow> bool \<Rightarrow> ('r, 'e) session \<Rightarrow> ('r, 'e, unit) outcome" where
  "tx_ctor tm ro s =
     tbind (lib_call (tmem_begin tm ro) s) (\<lambda>t s.
       let s = s\<lparr>s_tx := t, s_aborted := False, s_ro := ro\<rparr> in
       if t = invalid_tx then throw TransactionBegin s else return () s)"

definition tx_dtor :: "'r tmem \<Rightarrow> ('r, 'e) session \<Rightarrow> ('r, 'e, unit) outcome" where
  "tx_dtor tm s =
     (if \<not> s_aborted s
      then tbind (lib_call (tmem_end tm (s_tx s)) s) (\<lambda>ok s.
             if \<not> ok then throw TransactionRetry s else return () s)
      else return () s)"

definition tx_read :: "'r tmem \<Rightarrow> addr \<Rightarrow> csize \<Rightarrow> addr \<Rightarrow> ('r, 'e) session \<Rightarrow> ('r, 'e, unit) outcome" where
  "tx_read tm source sz target s =
     tbind (lib_call (tmem_read tm (s_tx s) source sz target) s) (\<lambda>ok s.
       if \<not> ok then throw TransactionRetry (s\<lparr>s_aborted := True\<rparr>) else return () s)"

definition tx_write :: "'r tmem \<Rightarrow> addr \<Rightarrow> csize \<Rightarrow> addr \<Rightarrow> ('r, 'e) session \<Rightarrow> ('r, 'e, unit) outcome" where
  "tx_write tm source sz target s =
     (if assert_mode \<and> s_ro s then throw TransactionReadOnly s
      else tbind (lib_call (tmem_write tm (s_tx s) source sz target) s) (\<lambda>ok s.
        if \<not> ok then throw TransactionRetry (s\<lparr>s_aborted := True\<rparr>) else return () s))"

definition tx_alloc :: "'r tmem \<Rightarrow> csize \<Rightarrow> ('r, 'e) session \<Rightarrow> ('r, 'e, addr) outcome" where
  "tx_alloc tm sz s =
     (if assert_mode \<and> s_ro s then throw TransactionReadOnly s
      else case tmem_alloc tm (s_tx s) sz (s_region s) (s_c s) of
        None \<Rightarrow> None
      | Some (res, target, rg, c) \<Rightarrow>
          (let s = s\<lparr>s_region := rg, s_c := c\<rparr> in
           case res of
             success_alloc \<Rightarrow> (case target of Some p \<Rightarrow> return p s | None \<Rightarrow> None)
           | nomem_alloc \<Rightarrow> throw TransactionAlloc s
           | abort_alloc \<Rightarrow> throw TransactionRetry (s\<lparr>s_aborted := True\<rparr>)))"

definition tx_free :: "'r tmem \<Rightarrow> addr \<Rightarrow> ('r, 'e) session \<Rightarrow> ('r, 'e, unit) outcome" where
  "tx_free tm target s =
     (if assert_mode \<and> s_ro s then throw TransactionReadOnly s
      else tbind (lib_call (tmem_free tm (s_tx s) target) s) (\<lambda>ok s.
        if \<not> ok then throw TransactionRetry (s\<lparr>s_aborted := True\<rparr>) else return () s))"

text \<open>
  One round of \<open>transactional\<close>: the constructor, the closure, and the destructor on the way out
  of the scope. An exception of the destructor replaces a result; on top of an exception it
  terminates the process.
\<close>

definition attempt ::
  "'r tmem \<Rightarrow> bool \<Rightarrow> (('r, 'e) session \<Rightarrow> ('r, 'e, 'a) outcome) \<Rightarrow> ('r, 'e) session \<Rightarrow> ('r, 'e, 'a) outcome" where
  "attempt tm ro func s =
     tbind (tx_ctor tm ro s) (\<lambda>_ s.
       case func s of
         None \<Rightarrow> None
       | Some (Inr x, s) \<Rightarrow> tbind (tx_dtor tm s) (\<lambda>_ s. return x s)
       | Some (Inl e, s) \<Rightarrow>
           (case tx_dtor tm s of
              None \<Rightarrow> None
            | Some (Inr _, s) \<Rightarrow> throw e s
            | Some (Inl _, s) \<Rightarrow> throw Terminated s))"

partial_function (option) transactional ::
  "'r tmem \<Rightarrow> bool \<Rightarrow> (('r, 'e) session \<Rightarrow> ('r, 'e, 'a) outcome) \<Rightarrow> ('r, 'e) session \<Rightarrow> ('r, 'e, 'a) outcome" where
  "transactional tm ro func s = do {
     (r, s) \<leftarrow> attempt tm ro func s;
     if r = Inl TransactionRetry then transactional tm ro func s else Some (r, s)
   }"

section \<open>The accessors\<close>

text \<open>
  \<open>Shared\<close> of a type of eight bytes with alignment \<open>al\<close>, of a pointer, of an array and of an array
  of known length; \<open>address + i\<close> steps by elements.
\<close>

definition elem :: "addr \<Rightarrow> csize \<Rightarrow> addr" where
  "elem a i = a + 8 * i"

definition shared_ctor :: "'r tmem \<Rightarrow> csize \<Rightarrow> addr \<Rightarrow> ('r, 'e) session \<Rightarrow> ('r, 'e, addr) outcome" where
  "shared_ctor tm al a s =
     (if assert_mode \<and> unat a mod unat (alignment tm) \<noteq> 0 then throw SharedAlign s
      else if assert_mode \<and> unat a mod unat al \<noteq> 0 then throw SharedAlign s
      else return a s)"

definition shared_read :: "'r tmem \<Rightarrow> addr \<Rightarrow> ('r, 'e) session \<Rightarrow> ('r, 'e, 64 word) outcome" where
  "shared_read tm a s =
     tbind (tx_read tm a 8 (s_local s) s) (\<lambda>_ s. return (of_bytes (load (mem (s_c s)) (s_local s) 8)) s)"

text \<open>The value to be written is a local variable.\<close>

definition set_local :: "64 word \<Rightarrow> ('r, 'e) session \<Rightarrow> ('r, 'e) session" where
  "set_local x s = s\<lparr>s_c := (s_c s)\<lparr>mem := store (mem (s_c s)) (s_local s) (to_bytes 8 x)\<rparr>\<rparr>"

definition shared_write :: "'r tmem \<Rightarrow> addr \<Rightarrow> 64 word \<Rightarrow> ('r, 'e) session \<Rightarrow> ('r, 'e, unit) outcome" where
  "shared_write tm a x s = tx_write tm (s_local s) 8 a (set_local x s)"

definition shared_after :: "addr \<Rightarrow> addr" where
  "shared_after a = elem a 1"

definition shared_ptr_ctor :: "'r tmem \<Rightarrow> csize \<Rightarrow> addr \<Rightarrow> ('r, 'e) session \<Rightarrow> ('r, 'e, addr) outcome" where
  "shared_ptr_ctor tm al a s =
     (if assert_mode \<and> unat a mod unat (alignment tm) \<noteq> 0 then throw SharedAlign s
      else if assert_mode \<and> unat a mod unat al \<noteq> 0 then throw SharedAlign s
      else return a s)"

definition shared_ptr_read :: "'r tmem \<Rightarrow> addr \<Rightarrow> ('r, 'e) session \<Rightarrow> ('r, 'e, addr) outcome" where
  "shared_ptr_read tm a s =
     tbind (tx_read tm a 8 (s_local s) s) (\<lambda>_ s. return (of_bytes (load (mem (s_c s)) (s_local s) 8)) s)"

definition shared_ptr_write :: "'r tmem \<Rightarrow> addr \<Rightarrow> addr \<Rightarrow> ('r, 'e) session \<Rightarrow> ('r, 'e, unit) outcome" where
  "shared_ptr_write tm a x s = tx_write tm (s_local s) 8 a (set_local x s)"

text \<open>\<open>tsize\<close> is \<open>sizeof(Type)\<close>, the default size.\<close>

definition shared_ptr_alloc :: "'r tmem \<Rightarrow> csize \<Rightarrow> addr \<Rightarrow> csize \<Rightarrow> ('r, 'e) session \<Rightarrow> ('r, 'e, addr) outcome" where
  "shared_ptr_alloc tm tsize a sz s =
     tbind (if assert_mode
            then tbind (shared_ptr_read tm a s) (\<lambda>p s. if p \<noteq> NULL then throw SharedDoubleAlloc s else return () s)
            else return () s) (\<lambda>_ s.
     tbind (tx_alloc tm (if 0 < sz then sz else tsize) s) (\<lambda>p s.
     tbind (shared_ptr_write tm a p s) (\<lambda>_ s. return p s)))"

definition shared_ptr_free :: "'r tmem \<Rightarrow> addr \<Rightarrow> ('r, 'e) session \<Rightarrow> ('r, 'e, unit) outcome" where
  "shared_ptr_free tm a s =
     tbind (if assert_mode
            then tbind (shared_ptr_read tm a s) (\<lambda>p s. if p = NULL then throw SharedDoubleFree s else return () s)
            else return () s) (\<lambda>_ s.
     tbind (shared_ptr_read tm a s) (\<lambda>p s.
     tbind (tx_free tm p s) (\<lambda>_ s. shared_ptr_write tm a NULL s)))"

definition shared_ptr_after :: "addr \<Rightarrow> addr" where
  "shared_ptr_after a = elem a 1"

text \<open>
  The \<open>write\<close> of the two array classes passes the transaction as an extra argument to
  \<open>Transaction::write\<close> and would not compile if it were instantiated; cells are written
  through \<open>operator[]\<close>.
\<close>

definition shared_array_ctor :: "'r tmem \<Rightarrow> csize \<Rightarrow> addr \<Rightarrow> ('r, 'e) session \<Rightarrow> ('r, 'e, addr) outcome" where
  "shared_array_ctor tm al a s =
     (if assert_mode \<and> unat a mod unat (alignment tm) \<noteq> 0 then throw SharedAlign s
      else if assert_mode \<and> unat a mod unat al \<noteq> 0 then throw SharedAlign s
      else return a s)"

definition shared_array_read :: "'r tmem \<Rightarrow> addr \<Rightarrow> csize \<Rightarrow> ('r, 'e) session \<Rightarrow> ('r, 'e, 64 word) outcome" where
  "shared_array_read tm a i s =
     tbind (tx_read tm (elem a i) 8 (s_local s) s) (\<lambda>_ s. return (of_bytes (load (mem (s_c s)) (s_local s) 8)) s)"

definition shared_array_cell :: "'r tmem \<Rightarrow> addr \<Rightarrow> csize \<Rightarrow> ('r, 'e) session \<Rightarrow> ('r, 'e, addr) outcome" where
  "shared_array_cell tm a i s = shared_ctor tm 8 (elem a i) s"

definition shared_array_after :: "addr \<Rightarrow> csize \<Rightarrow> addr" where
  "shared_array_after a len = elem a len"

definition shared_fixed_ctor :: "'r tmem \<Rightarrow> csize \<Rightarrow> addr \<Rightarrow> ('r, 'e) session \<Rightarrow> ('r, 'e, addr) outcome" where
  "shared_fixed_ctor tm al a s =
     (if assert_mode \<and> unat a mod unat (alignment tm) \<noteq> 0 then throw SharedAlign s
      else if assert_mode \<and> unat a mod unat al \<noteq> 0 then throw SharedAlign s
      else return a s)"

definition shared_fixed_read :: "'r tmem \<Rightarrow> csize \<Rightarrow> addr \<Rightarrow> csize \<Rightarrow> ('r, 'e) session \<Rightarrow> ('r, 'e, 64 word) outcome" where
  "shared_fixed_read tm n a i s =
     (if assert_mode \<and> n \<le> i then throw SharedOverflow s
      else tbind (tx_read tm (elem a i) 8 (s_local s) s)
             (\<lambda>_ s. return (of_bytes (load (mem (s_c s)) (s_local s) 8)) s))"

definition shared_fixed_cell :: "'r tmem \<Rightarrow> csize \<Rightarrow> addr \<Rightarrow> csize \<Rightarrow> ('r, 'e) session \<Rightarrow> ('r, 'e, addr) outcome" where
  "shared_fixed_cell tm n a i s =
     (if assert_mode \<and> n \<le> i then throw SharedOverflow s else shared_ctor tm 8 (elem a i) s)"

definition shared_fixed_after :: "csize \<Rightarrow> addr \<Rightarrow> addr" where
  "shared_fixed_after n a = elem a n"

text \<open>With the safety checks off, as the file is built, binding an accessor does nothing.\<close>

lemma shared_ctor_simps [simp]:
  "shared_ctor tm al a s = return a s" "shared_ptr_ctor tm al a s = return a s" "shared_array_ctor tm al a s = return a s"
  "shared_fixed_ctor tm al a s = return a s" "shared_array_cell tm a i s = return (elem a i) s"
  by (simp_all add: shared_ctor_def shared_ptr_ctor_def shared_array_ctor_def shared_fixed_ctor_def shared_array_cell_def assert_mode_def)

lemma shared_ptr_simps [simp]:
  "shared_ptr_read tm = shared_read tm" "shared_ptr_write tm = shared_write tm"
  "shared_array_read tm a i s = shared_read tm (elem a i) s"
  "shared_fixed_read tm n a i s = shared_read tm (elem a i) s"
  by (simp_all add: fun_eq_iff shared_ptr_read_def shared_read_def shared_ptr_write_def shared_write_def
      shared_array_read_def shared_fixed_read_def assert_mode_def)

lemma set_local_sel [simp]:
  "s_tx (set_local x s) = s_tx s" "s_aborted (set_local x s) = s_aborted s" "s_ro (set_local x s) = s_ro s"
  "s_env (set_local x s) = s_env s" "s_local (set_local x s) = s_local s"
  "s_region (set_local x s) = s_region s"
  "s_c (set_local x s) = (s_c s)\<lparr>mem := store (mem (s_c s)) (s_local s) (to_bytes 8 x)\<rparr>"
  by (simp_all add: set_local_def)

section \<open>The two libraries\<close>

definition tl2_library :: "shared_lock_t \<Rightarrow> region library" where
  "tl2_library junk =
     \<lparr>lib_create = tm_create junk, lib_destroy = tm_destroy, lib_start = tm_start,
      lib_begin = (\<lambda>ro rg c. map_option (\<lambda>(t, c). (t, rg, c)) (tm_begin rg ro c)),
      lib_end = (\<lambda>t rg c. tm_end rg t c),
      lib_read = (\<lambda>t src n tgt rg c. map_option (\<lambda>(b, c). (b, rg, c)) (tm_read rg t src n tgt c)),
      lib_write = (\<lambda>t src n tgt rg c. map_option (\<lambda>(b, c). (b, rg, c)) (tm_write rg t src n tgt c)),
      lib_alloc = (\<lambda>t n rg c. tm_alloc rg t n c),
      lib_free = (\<lambda>t seg rg c. Some (tm_free rg t seg, rg, c))\<rparr>"

text \<open>
  The sequential caller of the reference library holds no lock of the region when it begins, and
  nobody waits for one: none of the reasons POSIX gives for an acquisition to fail applies, so
  \<open>lib_begin\<close> has the error number 0. \<open>Reference_Concurrent\<close> leaves both to the environment.
\<close>

definition ref_library :: "int \<Rightarrow> ref_region library" where
  "ref_library code =
     \<lparr>lib_create = ref_tm_create code, lib_destroy = ref_tm_destroy, lib_start = ref_tm_start,
      lib_begin = (\<lambda>ro rg c. map_option (\<lambda>(t, rg). (t, rg, c)) (ref_tm_begin 0 False rg ro)),
      lib_end = (\<lambda>t rg c. map_option (\<lambda>(b, rg). (b, rg, c)) (ref_tm_end rg t)),
      lib_read = (\<lambda>t src n tgt rg c. (case ref_tm_read src n tgt c of (b, c) \<Rightarrow> Some (b, rg, c))),
      lib_write = (\<lambda>t src n tgt rg c. (case ref_tm_write src n tgt c of (b, c) \<Rightarrow> Some (b, rg, c))),
      lib_alloc = (\<lambda>t n rg c. ref_tm_alloc rg n c),
      lib_free = (\<lambda>t seg rg c. ref_tm_free rg seg c)\<rparr>"

end
