(* ===== verification/Stm_Contract.thy ===== *)
theory Stm_Contract
  imports Transactional
begin

text \<open>
  The contract between a transactional memory library and its client, as the locale \<open>stm\<close>:
  between transactions the library holds an abstract memory (\<open>idle\<close>); a transaction works on a
  private view of it (\<open>active\<close>), which its end either makes the new memory or throws away; any
  call may abort the transaction, and then the memory is the one from before it. The first
  argument of \<open>idle\<close> and \<open>active\<close> is a number of further calls for which the library's resources
  suffice. \<open>reliable_stm\<close> adds that nothing ever aborts. Inside the locales a calculus for client
  code is derived: \<open>yields\<close> says that a piece of a transaction either reaches its postcondition or
  retries with the memory untouched.
\<close>

section \<open>The abstract memory\<close>

text \<open>\<open>aw\<close> maps the addresses of words to values, \<open>asg\<close> dynamic segments to their size in words.\<close>

record amem =
  aw :: "addr \<Rightarrow> 64 word option"
  asg :: "addr \<Rightarrow> nat option"

definition words_at :: "addr \<Rightarrow> nat \<Rightarrow> addr list" where
  "words_at p n = map (\<lambda>i. p + 8 * word_of_nat i) [0..<n]"

definition am_write :: "addr \<Rightarrow> 64 word \<Rightarrow> amem \<Rightarrow> amem" where
  "am_write a x V = V\<lparr>aw := (aw V)(a \<mapsto> x)\<rparr>"

definition am_alloc :: "addr \<Rightarrow> nat \<Rightarrow> amem \<Rightarrow> amem" where
  "am_alloc p n V = V\<lparr>aw := (\<lambda>a. if a \<in> set (words_at p n) then Some 0 else aw V a),
                      asg := (asg V)(p \<mapsto> n)\<rparr>"

definition am_free :: "addr \<Rightarrow> nat \<Rightarrow> amem \<Rightarrow> amem" where
  "am_free p n V = V\<lparr>aw := (\<lambda>a. if a \<in> set (words_at p n) then None else aw V a),
                     asg := (asg V)(p := None)\<rparr>"

text \<open>A block of \<open>n\<close> words at \<open>p\<close> that does not wrap around and is not in use.\<close>

definition fresh_block :: "amem \<Rightarrow> addr \<Rightarrow> nat \<Rightarrow> bool" where
  "fresh_block V p n \<longleftrightarrow> p \<noteq> NULL \<and> aligned 8 p \<and> unat p + 8 * n < 2 ^ 64 \<and> asg V p = None \<and>
     (\<forall>a \<in> set (words_at p n). aw V a = None)"

section \<open>The contract\<close>

locale stm =
  fixes L :: "'r library"
    and loc :: addr
    and idle :: "nat \<Rightarrow> amem \<Rightarrow> 'r \<Rightarrow> cstate \<Rightarrow> bool"
    and active :: "nat \<Rightarrow> amem \<Rightarrow> addr \<Rightarrow> bool \<Rightarrow> amem \<Rightarrow> 'r \<Rightarrow> cstate \<Rightarrow> bool"
    and max_words :: nat
    and faults :: "exn set"
  assumes idle_less: "idle (Suc n) V r c \<Longrightarrow> idle n V r c"
    and active_less: "active (Suc n) V0 tx ro V r c \<Longrightarrow> active n V0 tx ro V r c"
    and begin_ok: "idle (Suc n) V r c \<Longrightarrow> \<exists>tx r' c'. lib_begin L ro r c = Some (tx, r', c') \<and>
      tx \<noteq> invalid_tx \<and> active n V tx ro V r' c'"
    and read_ok: "active (Suc n) V0 tx ro V r c \<Longrightarrow> aw V a = Some x \<Longrightarrow>
      \<exists>ok r' c'. lib_read L tx a 8 loc r c = Some (ok, r', c') \<and>
        (if ok then load (mem c') loc 8 = to_bytes 8 x \<and> active n V0 tx ro V r' c' else TransactionRetry \<in> faults \<and> idle n V0 r' c')"
    and local_ok: "active n V0 tx ro V r c \<Longrightarrow>
      active n V0 tx ro V r (c\<lparr>mem := store (mem c) loc (to_bytes 8 x)\<rparr>)"
    and write_ok: "active (Suc n) V0 tx False V r c \<Longrightarrow> aw V a \<noteq> None \<Longrightarrow>
      load (mem c) loc 8 = to_bytes 8 x \<Longrightarrow>
      \<exists>ok r' c'. lib_write L tx loc 8 a r c = Some (ok, r', c') \<and>
        (if ok then active n V0 tx False (am_write a x V) r' c' else TransactionRetry \<in> faults \<and> idle n V0 r' c')"
    and alloc_ok: "active (Suc n) V0 tx False V r c \<Longrightarrow> 0 < k \<Longrightarrow> k \<le> max_words \<Longrightarrow>
      \<exists>res target r' c'. lib_alloc L tx (8 * word_of_nat k) r c = Some (res, target, r', c') \<and>
        (case res of
           success_alloc \<Rightarrow> \<exists>p. target = Some p \<and> fresh_block V p k \<and>
             active n V0 tx False (am_alloc p k V) r' c'
         | abort_alloc \<Rightarrow> TransactionRetry \<in> faults \<and> idle n V0 r' c'
         | nomem_alloc \<Rightarrow> False)"
    and free_ok: "active (Suc n) V0 tx False V r c \<Longrightarrow> asg V p = Some k \<Longrightarrow>
      \<exists>ok r' c'. lib_free L tx p r c = Some (ok, r', c') \<and>
        (if ok then active n V0 tx False (am_free p k V) r' c' else TransactionRetry \<in> faults \<and> idle n V0 r' c')"
    and end_ok: "active (Suc n) V0 tx ro V r c \<Longrightarrow>
      \<exists>ok r' c'. lib_end L tx r c = Some (ok, r', c') \<and> (ok \<or> TransactionRetry \<in> faults) \<and> idle n (if ok then V else V0) r' c'"
begin

definition running :: "nat \<Rightarrow> amem \<Rightarrow> amem \<Rightarrow> ('r, 'e) session \<Rightarrow> bool" where
  "running n V0 V s \<longleftrightarrow> \<not> s_aborted s \<and> s_local s = loc \<and>
     active n V0 (s_tx s) (s_ro s) V (s_region s) (s_c s)"

definition resting :: "nat \<Rightarrow> amem \<Rightarrow> ('r, 'e) session \<Rightarrow> bool" where
  "resting n V s \<longleftrightarrow> s_local s = loc \<and> idle n V (s_region s) (s_c s)"

text \<open>\<open>R\<close> holds of the captured variables when a retry begins, \<open>Q\<close> of result, view and variables.\<close>

definition yields ::
  "nat \<Rightarrow> amem \<Rightarrow> bool \<Rightarrow> ('e \<Rightarrow> bool) \<Rightarrow> ('a \<Rightarrow> amem \<Rightarrow> 'e \<Rightarrow> bool) \<Rightarrow> ('r, 'e, 'a) outcome \<Rightarrow> bool" where
  "yields n V0 ro R Q m \<longleftrightarrow>
     (\<exists>s. TransactionRetry \<in> faults \<and> m = Some (Inl TransactionRetry, s) \<and> s_aborted s \<and> resting n V0 s \<and> R (s_env s)) \<or>
     (\<exists>x V s. m = Some (Inr x, s) \<and> running n V0 V s \<and> s_ro s = ro \<and> Q x V (s_env s))"

lemma idle_le: "idle n V r c \<Longrightarrow> k \<le> n \<Longrightarrow> idle k V r c"
proof (induction n)
  case (Suc n)
  then show ?case using idle_less by (cases "k = Suc n") auto
qed simp

lemma active_le: "active n V0 tx ro V r c \<Longrightarrow> k \<le> n \<Longrightarrow> active k V0 tx ro V r c"
proof (induction n)
  case (Suc n)
  then show ?case using active_less by (cases "k = Suc n") auto
qed simp

lemma running_le: "running n V0 V s \<Longrightarrow> k \<le> n \<Longrightarrow> running k V0 V s"
  unfolding running_def using active_le by blast

lemma resting_le: "resting n V s \<Longrightarrow> k \<le> n \<Longrightarrow> resting k V s"
  unfolding resting_def using idle_le by blast

lemma yields_mono:
  "yields n V0 ro R Q m \<Longrightarrow> k \<le> n \<Longrightarrow> (\<And>x V e. Q x V e \<Longrightarrow> Q' x V e) \<Longrightarrow> yields k V0 ro R Q' m"
  unfolding yields_def using running_le resting_le by blast

lemma yields_return:
  "running n V0 V s \<Longrightarrow> s_ro s = ro \<Longrightarrow> Q x V (s_env s) \<Longrightarrow> yields n V0 ro R Q (return x s)"
  by (auto simp: yields_def return_def)

lemma yields_retry:
  "TransactionRetry \<in> faults \<Longrightarrow> s_aborted s \<Longrightarrow> resting n V0 s \<Longrightarrow> R (s_env s) \<Longrightarrow>
     yields n V0 ro R Q (Some (Inl TransactionRetry, s))"
  by (auto simp: yields_def)

lemma yields_bind:
  assumes "yields n V0 ro R P m"
    and "\<And>x V s. running n V0 V s \<Longrightarrow> s_ro s = ro \<Longrightarrow> P x V (s_env s) \<Longrightarrow> yields k V0 ro R Q (f x s)"
    and "k \<le> n"
  shows "yields k V0 ro R Q (tbind m f)"
  using assms(1) unfolding yields_def [of n]
proof (elim disjE exE conjE)
  fix s assume s: "TransactionRetry \<in> faults" "m = Some (Inl TransactionRetry, s)" "s_aborted s" "R (s_env s)"
  assume "resting n V0 s"
  then have "resting k V0 s" using assms(3) by (rule resting_le)
  with s show ?thesis by (simp add: throw_def yields_retry)
next
  fix x V s assume "m = Some (Inr x, s)" "running n V0 V s" "s_ro s = ro" "P x V (s_env s)"
  with assms(2) show ?thesis by simp
qed

text \<open>A library call that answers whether the transaction goes on.\<close>

lemma call_yields:
  assumes "f (s_region s) (s_c s) = Some (ok, r', c')" and "s_local s = loc" and "\<not> s_aborted s"
    and "if ok then active n V0 (s_tx s) (s_ro s) V' r' c' else TransactionRetry \<in> faults \<and> idle n V0 r' c'"
    and "R (s_env s)" and "s_ro s = ro"
    and "ok \<Longrightarrow> Q () V' (s_env s)"
  shows "yields n V0 ro R Q (tbind (lib_call f s) (\<lambda>ok s.
    if \<not> ok then throw TransactionRetry (s\<lparr>s_aborted := True\<rparr>) else return () s))"
proof (cases ok)
  case True
  have "running n V0 V' (s\<lparr>s_region := r', s_c := c'\<rparr>)"
    using assms(2-4) True by (simp add: running_def)
  then show ?thesis using assms(1,6,7) True by (auto simp: lib_call_def intro!: yields_return)
next
  case False
  then have "resting n V0 (s\<lparr>s_region := r', s_c := c', s_aborted := True\<rparr>)" "TransactionRetry \<in> faults"
    using assms(2,4) by (simp_all add: resting_def)
  then show ?thesis using assms(1,5) False by (simp add: lib_call_def throw_def yields_retry)
qed

lemma read_yields:
  assumes "running (Suc n) V0 V s" and "tl tm = L" and "aw V a = Some x" and "R (s_env s)"
  shows "yields n V0 (s_ro s) R (\<lambda>y V' e. y = x \<and> V' = V \<and> e = s_env s) (shared_read tm a s)"
proof -
  obtain ok r' c' where call: "lib_read L (s_tx s) a 8 loc (s_region s) (s_c s) = Some (ok, r', c')"
      "if ok then load (mem c') loc 8 = to_bytes 8 x \<and> active n V0 (s_tx s) (s_ro s) V r' c'
       else TransactionRetry \<in> faults \<and> idle n V0 r' c'"
    using read_ok assms(1,3) unfolding running_def by metis
  have s: "s_local s = loc" "\<not> s_aborted s" using assms(1) by (simp_all add: running_def)
  show ?thesis
  proof (cases ok)
    case True
    then have "shared_read tm a s = Some (Inr x, s\<lparr>s_region := r', s_c := c'\<rparr>)"
      using call assms(2) s by (simp add: shared_read_def tx_read_def lib_call_def return_def)
    moreover have "running n V0 V (s\<lparr>s_region := r', s_c := c'\<rparr>)"
      using call True s by (simp add: running_def)
    ultimately show ?thesis using assms(1) by (auto simp: yields_def running_def)
  next
    case False
    then have "shared_read tm a s = Some (Inl TransactionRetry, s\<lparr>s_region := r', s_c := c', s_aborted := True\<rparr>)"
      using call assms(2) s by (simp add: shared_read_def tx_read_def lib_call_def return_def throw_def)
    moreover have "resting n V0 (s\<lparr>s_region := r', s_c := c', s_aborted := True\<rparr>)" "TransactionRetry \<in> faults"
      using call False s by (simp_all add: resting_def)
    ultimately show ?thesis using assms(4) by (simp add: yields_retry)
  qed
qed

lemma write_yields:
  assumes "running (Suc n) V0 V s" and "tl tm = L" and "aw V a \<noteq> None" and "R (s_env s)" and "\<not> s_ro s"
  shows "yields n V0 False R (\<lambda>_ V' e. V' = am_write a x V \<and> e = s_env s) (shared_write tm a x s)"
proof -
  let ?c = "s_c (set_local x s)"
  have "active (Suc n) V0 (s_tx s) False V (s_region s) ?c"
    using local_ok [of "Suc n" V0 "s_tx s" False V "s_region s" "s_c s" x] assms(1,5)
    by (simp add: running_def)
  moreover have "load (mem ?c) loc 8 = to_bytes 8 x"
    using load_store_same [of "to_bytes 8 x"] assms(1) by (simp add: running_def)
  ultimately obtain ok r' c' where "lib_write L (s_tx s) loc 8 a (s_region s) ?c = Some (ok, r', c')"
      "if ok then active n V0 (s_tx s) False (am_write a x V) r' c' else TransactionRetry \<in> faults \<and> idle n V0 r' c'"
    using write_ok assms(3) by metis
  then show ?thesis
    unfolding shared_write_def tx_write_def assert_mode_def using assms
    by (simp only: simp_thms if_False, intro call_yields) (auto simp: running_def)
qed

lemma alloc_yields:
  assumes "running (Suc n) V0 V s" and "tl tm = L" and "0 < k" and "k \<le> max_words" and "R (s_env s)"
    and "\<not> s_ro s"
  shows "yields n V0 False R (\<lambda>p V' e. fresh_block V p k \<and> V' = am_alloc p k V \<and> e = s_env s)
    (tx_alloc tm (8 * word_of_nat k) s)"
proof -
  obtain res target r' c' where call: "lib_alloc L (s_tx s) (8 * word_of_nat k) (s_region s) (s_c s) = Some (res, target, r', c')"
      "case res of
           success_alloc \<Rightarrow> \<exists>p. target = Some p \<and> fresh_block V p k \<and>
             active n V0 (s_tx s) False (am_alloc p k V) r' c'
         | abort_alloc \<Rightarrow> TransactionRetry \<in> faults \<and> idle n V0 r' c'
         | nomem_alloc \<Rightarrow> False"
    using alloc_ok [of n V0 "s_tx s" V "s_region s" "s_c s" k] assms(1,3,4,6) by (auto simp: running_def)
  show ?thesis
  proof (cases res)
    case success_alloc
    then obtain p where p: "target = Some p" "fresh_block V p k" "active n V0 (s_tx s) False (am_alloc p k V) r' c'"
      using call by auto
    have "running n V0 (am_alloc p k V) (s\<lparr>s_region := r', s_c := c'\<rparr>)"
      using p assms(1,6) by (simp add: running_def)
    moreover have "tx_alloc tm (8 * word_of_nat k) s = Some (Inr p, s\<lparr>s_region := r', s_c := c'\<rparr>)"
      using call(1) success_alloc p assms(2) by (simp add: tx_alloc_def return_def assert_mode_def)
    ultimately show ?thesis using p assms(6) by (auto simp: yields_def)
  next
    case abort_alloc
    then have "tx_alloc tm (8 * word_of_nat k) s = Some (Inl TransactionRetry, s\<lparr>s_region := r', s_c := c', s_aborted := True\<rparr>)"
      using call(1) assms(2) by (simp add: tx_alloc_def throw_def assert_mode_def)
    moreover have "resting n V0 (s\<lparr>s_region := r', s_c := c', s_aborted := True\<rparr>)" "TransactionRetry \<in> faults"
      using call(2) abort_alloc assms(1) by (simp_all add: resting_def running_def)
    ultimately show ?thesis using assms(5) by (simp add: yields_retry)
  next
    case nomem_alloc
    with call(2) show ?thesis by simp
  qed
qed

lemma free_yields:
  assumes "running (Suc n) V0 V s" and "tl tm = L" and "asg V p = Some k" and "R (s_env s)" and "\<not> s_ro s"
  shows "yields n V0 False R (\<lambda>_ V' e. V' = am_free p k V \<and> e = s_env s) (tx_free tm p s)"
proof -
  obtain ok r' c' where "lib_free L (s_tx s) p (s_region s) (s_c s) = Some (ok, r', c')"
      "if ok then active n V0 (s_tx s) False (am_free p k V) r' c' else TransactionRetry \<in> faults \<and> idle n V0 r' c'"
    using free_ok [of n V0 "s_tx s" V "s_region s" "s_c s" p k] assms(1,3,5) by (auto simp: running_def)
  then show ?thesis
    unfolding tx_free_def assert_mode_def using assms
    by (simp only: simp_thms if_False, intro call_yields) (auto simp: running_def)
qed

text \<open>The rules for a call followed by the rest of the transaction.\<close>

lemma read_bind:
  assumes "running (Suc n) V0 V s" and "tl tm = L" and "aw V a = Some x" and "R (s_env s)"
    and "\<And>s'. running n V0 V s' \<Longrightarrow> s_ro s' = s_ro s \<Longrightarrow> s_env s' = s_env s \<Longrightarrow>
      yields k V0 (s_ro s) R Q (f x s')"
    and "k \<le> n"
  shows "yields k V0 (s_ro s) R Q (tbind (shared_read tm a s) f)"
  by (rule yields_bind [OF read_yields [where R = R, OF assms(1-4)]]) (use assms(5,6) in auto)

lemma write_bind:
  assumes "running (Suc n) V0 V s" and "tl tm = L" and "aw V a \<noteq> None" and "R (s_env s)" and "\<not> s_ro s"
    and "\<And>s'. running n V0 (am_write a x V) s' \<Longrightarrow> \<not> s_ro s' \<Longrightarrow> s_env s' = s_env s \<Longrightarrow>
      yields k V0 False R Q (f () s')"
    and "k \<le> n"
  shows "yields k V0 False R Q (tbind (shared_write tm a x s) f)"
  by (rule yields_bind [OF write_yields [where R = R, OF assms(1-5)]]) (use assms(6,7) in auto)

lemma ptr_alloc_yields:
  fixes s :: "('r, 'e) session"
  assumes "running (Suc (Suc n)) V0 V s" and "tl tm = L" and "aw V a \<noteq> None" and "R (s_env s)"
    and "\<not> s_ro s" and "0 < k" and "k \<le> max_words" and "8 * k < 2 ^ 64"
  shows "yields n V0 False R
    (\<lambda>p V' e. fresh_block V p k \<and> V' = am_write a p (am_alloc p k V) \<and> e = s_env s)
    (shared_ptr_alloc tm tsize a (8 * word_of_nat k) s)"
proof -
  have "unat (8 * word_of_nat k :: addr) = 8 * k"
    using assms(8) unat_small [of "8 * k"] by simp
  then have "(0 :: addr) < 8 * word_of_nat k" using assms(6) by (simp add: word_less_nat_alt)
  then have "shared_ptr_alloc tm tsize a (8 * word_of_nat k) s =
      tbind (tx_alloc tm (8 * word_of_nat k) s) (\<lambda>p s. tbind (shared_write tm a p s) (\<lambda>_ s. return p s))"
    by (simp add: shared_ptr_alloc_def assert_mode_def)
  also have "yields n V0 False R
      (\<lambda>p V' e. fresh_block V p k \<and> V' = am_write a p (am_alloc p k V) \<and> e = s_env s) \<dots>"
  proof (rule yields_bind [OF alloc_yields [where R = R, OF assms(1,2,6,7,4,5)]])
    fix p V' and s' :: "('r, 'e) session"
    assume r: "running (Suc n) V0 V' s'" "s_ro s' = False"
      and p: "fresh_block V p k \<and> V' = am_alloc p k V \<and> s_env s' = s_env s"
    then have "aw V' a \<noteq> None" using assms(3) by (simp add: am_alloc_def)
    with r p assms(2,4) show "yields n V0 False R
      (\<lambda>p V' e. fresh_block V p k \<and> V' = am_write a p (am_alloc p k V) \<and> e = s_env s)
      (tbind (shared_write tm a p s') (\<lambda>_ s. return p s))"
      by (intro write_bind [where V = V' and n = n]) (auto intro!: yields_return)
  qed simp
  finally show ?thesis .
qed

lemma ptr_free_yields:
  fixes s :: "('r, 'e) session"
  assumes "running (Suc (Suc (Suc n))) V0 V s" and "tl tm = L" and "aw V a = Some p" and "asg V p = Some k"
    and "a \<notin> set (words_at p k)" and "R (s_env s)" and "\<not> s_ro s"
  shows "yields n V0 False R (\<lambda>_ V' e. V' = am_write a NULL (am_free p k V) \<and> e = s_env s)
    (shared_ptr_free tm a s)"
proof -
  have "shared_ptr_free tm a s =
      tbind (shared_read tm a s) (\<lambda>p s. tbind (tx_free tm p s) (\<lambda>_ s. shared_write tm a NULL s))"
    by (simp add: shared_ptr_free_def assert_mode_def)
  also have "yields n V0 (s_ro s) R (\<lambda>_ V' e. V' = am_write a NULL (am_free p k V) \<and> e = s_env s) \<dots>"
  proof (rule read_bind [where R = R, OF assms(1,2,3,6)])
    fix s' :: "('r, 'e) session"
    assume s': "running (Suc (Suc n)) V0 V s'" "s_ro s' = s_ro s" "s_env s' = s_env s"
    show "yields n V0 (s_ro s) R (\<lambda>_ V' e. V' = am_write a NULL (am_free p k V) \<and> e = s_env s)
      (tbind (tx_free tm p s') (\<lambda>_ s. shared_write tm a NULL s))"
    proof (rule yields_bind)
      show "yields (Suc n) V0 (s_ro s) R (\<lambda>_ V' e. V' = am_free p k V \<and> e = s_env s') (tx_free tm p s')"
        using free_yields [OF s'(1) assms(2,4)] assms(6,7) s' by simp
    next
      fix x V' and t :: "('r, 'e) session"
      assume t: "running (Suc n) V0 V' t" "s_ro t = s_ro s" "V' = am_free p k V \<and> s_env t = s_env s'"
      have "aw V' a \<noteq> None" using t assms(3,5) by (simp add: am_free_def)
      with write_yields [OF t(1) assms(2)] t s' assms(6,7)
      show "yields n V0 (s_ro s) R (\<lambda>_ V' e. V' = am_write a NULL (am_free p k V) \<and> e = s_env s)
        (shared_write tm a NULL t)" by simp
    qed simp
  qed simp
  finally show ?thesis using assms(7) by simp
qed

text \<open>
  The same rules with the mode and the captured variables in view, as the client proofs use them.
\<close>

definition at_point ::
  "nat \<Rightarrow> amem \<Rightarrow> bool \<Rightarrow> amem \<Rightarrow> 'e \<Rightarrow> ('r, 'e) session \<Rightarrow> bool" where
  "at_point n V0 ro V e s \<longleftrightarrow> running n V0 V s \<and> s_ro s = ro \<and> s_env s = e"

lemma at_less: "at_point n V0 ro V e s \<Longrightarrow> k \<le> n \<Longrightarrow> at_point k V0 ro V e s"
  using running_le by (auto simp: at_point_def)

lemma at_env: "at_point n V0 ro V e s \<Longrightarrow> at_point n V0 ro V e' (s\<lparr>s_env := e'\<rparr>)"
  by (auto simp: at_point_def running_def)

lemma at_return: "at_point n V0 ro V e s \<Longrightarrow> Q x V e \<Longrightarrow> k \<le> n \<Longrightarrow> yields k V0 ro R Q (return x s)"
  using at_less by (fastforce simp: at_point_def intro: yields_return)

lemma at_read:
  "at_point (Suc n) V0 ro V e s \<Longrightarrow> tl tm = L \<Longrightarrow> aw V a = Some x \<Longrightarrow> R e \<Longrightarrow>
   (\<And>s'. at_point n V0 ro V e s' \<Longrightarrow> yields k V0 ro R Q (f x s')) \<Longrightarrow> k \<le> n \<Longrightarrow>
   yields k V0 ro R Q (tbind (shared_read tm a s) f)"
  using read_bind [of n V0 V s tm a x R k Q f] by (auto simp: at_point_def)

lemma at_write:
  "at_point (Suc n) V0 False V e s \<Longrightarrow> tl tm = L \<Longrightarrow> aw V a \<noteq> None \<Longrightarrow> R e \<Longrightarrow>
   (\<And>s'. at_point n V0 False (am_write a x V) e s' \<Longrightarrow> yields k V0 False R Q (f () s')) \<Longrightarrow> k \<le> n \<Longrightarrow>
   yields k V0 False R Q (tbind (shared_write tm a x s) f)"
  using write_bind [of n V0 V s tm a R x k Q f] by (auto simp: at_point_def)

lemma at_last_write:
  assumes "at_point (Suc n) V0 False V e s" and "tl tm = L" and "aw V a \<noteq> None" and "R e"
    and "Q () (am_write a x V) e" and "k \<le> n"
  shows "yields k V0 False R Q (shared_write tm a x s)"
  using write_yields [of n V0 V s tm a R x] assms
  by (auto simp: at_point_def elim!: yields_mono)

lemma at_ptr_alloc:
  assumes "at_point (Suc (Suc n)) V0 False V e s" and "tl tm = L" and "aw V a \<noteq> None" and "R e"
    and "0 < k" and "k \<le> max_words" and "8 * k < 2 ^ 64"
    and "\<And>p s'. at_point n V0 False (am_write a p (am_alloc p k V)) e s' \<Longrightarrow> fresh_block V p k \<Longrightarrow>
      yields j V0 False R Q (f p s')" and "j \<le> n"
  shows "yields j V0 False R Q (tbind (shared_ptr_alloc tm tsize a (8 * word_of_nat k) s) f)"
  by (rule yields_bind [OF ptr_alloc_yields [where R = R]]) (use assms in \<open>auto simp: at_point_def\<close>)

lemma at_ptr_free:
  assumes "at_point (Suc (Suc (Suc n))) V0 False V e s" and "tl tm = L" and "aw V a = Some p" and "asg V p = Some k"
    and "a \<notin> set (words_at p k)" and "R e"
    and "\<And>s'. at_point n V0 False (am_write a NULL (am_free p k V)) e s' \<Longrightarrow> yields j V0 False R Q (f () s')"
    and "j \<le> n"
  shows "yields j V0 False R Q (tbind (shared_ptr_free tm a s) f)"
  by (rule yields_bind [OF ptr_free_yields [where R = R]]) (use assms in \<open>auto simp: at_point_def\<close>)

lemma at_bind:
  assumes "yields n V0 ro R P m"
    and "\<And>x V e s. at_point n V0 ro V e s \<Longrightarrow> P x V e \<Longrightarrow> yields k V0 ro R Q (f x s)" and "k \<le> n"
  shows "yields k V0 ro R Q (tbind m f)"
  using assms(2) by (intro yields_bind [OF assms(1) _ assms(3)]) (auto simp: at_point_def)

text \<open>
  One round of the retry loop: either the transaction commits, with its postcondition, or it
  throws \<open>TransactionRetry\<close>, with the memory as it was.
\<close>

lemma attempt_yields:
  assumes "resting (Suc n) V s" and "tl tm = L"
    and "\<And>s'. running n V V s' \<Longrightarrow> s_ro s' = ro \<Longrightarrow> s_env s' = s_env s \<Longrightarrow>
      yields (Suc k) V ro R Q (func s')"
  shows "\<exists>r s'. attempt tm ro func s = Some (r, s') \<and>
    ((\<exists>x V'. r = Inr x \<and> Q x V' (s_env s') \<and> resting k V' s') \<or>
     (TransactionRetry \<in> faults \<and> r = Inl TransactionRetry \<and> resting k V s' \<and> (R (s_env s') \<or> (\<exists>x V'. Q x V' (s_env s')))))"
proof -
  obtain t r' c' where b: "lib_begin L ro (s_region s) (s_c s) = Some (t, r', c')" "t \<noteq> invalid_tx"
      "active n V t ro V r' c'"
    using begin_ok assms(1) unfolding resting_def by metis
  let ?s = "s\<lparr>s_region := r', s_c := c', s_tx := t, s_aborted := False, s_ro := ro\<rparr>"
  have run: "running n V V ?s" using b assms(1) by (simp add: running_def resting_def)
  have att: "attempt tm ro func s = (case func ?s of
         None \<Rightarrow> None
       | Some (Inr x, s) \<Rightarrow> tbind (tx_dtor tm s) (\<lambda>_ s. return x s)
       | Some (Inl e, s) \<Rightarrow>
           (case tx_dtor tm s of
              None \<Rightarrow> None
            | Some (Inr _, s) \<Rightarrow> throw e s
            | Some (Inl _, s) \<Rightarrow> throw Terminated s))"
    using b assms(2) by (simp add: attempt_def tx_ctor_def lib_call_def return_def)
  have "yields (Suc k) V ro R Q (func ?s)" using assms(3) [OF run] by simp
  then show ?thesis unfolding yields_def
  proof (elim disjE exE conjE)
    fix s' assume may: "TransactionRetry \<in> faults" and s': "func ?s = Some (Inl TransactionRetry, s')" "s_aborted s'" "resting (Suc k) V s'"
      "R (s_env s')"
    then have "attempt tm ro func s = Some (Inl TransactionRetry, s')"
      by (simp add: att tx_dtor_def return_def throw_def)
    with s' may resting_le [of "Suc k" V s' k] show ?thesis by auto
  next
    fix x V' s' assume s': "func ?s = Some (Inr x, s')" "running (Suc k) V V' s'" "Q x V' (s_env s')"
    obtain ok r2 c2 where e: "lib_end L (s_tx s') (s_region s') (s_c s') = Some (ok, r2, c2)"
        "ok \<or> TransactionRetry \<in> faults"
        "idle k (if ok then V' else V) r2 c2"
      using end_ok s'(2) unfolding running_def by metis
    have "attempt tm ro func s =
        Some (if ok then Inr x else Inl TransactionRetry, s'\<lparr>s_region := r2, s_c := c2\<rparr>)"
      using s' e assms(2) by (simp add: att tx_dtor_def lib_call_def running_def return_def throw_def)
    with s' e show ?thesis by (cases ok) (auto simp: running_def resting_def)
  qed
qed

end

section \<open>Libraries that never abort\<close>

text \<open>Then the retry loop returns after its first round.\<close>

locale reliable_stm = stm L loc idle active max_words "{}"
  for L :: "'r library" and loc idle active max_words
begin

lemma transactional_once:
  assumes "resting (Suc n) V s" and "tl tm = L"
    and "\<And>s'. running n V V s' \<Longrightarrow> s_ro s' = ro \<Longrightarrow> s_env s' = s_env s \<Longrightarrow>
      yields (Suc k) V ro R Q (func s')"
  shows "\<exists>x V' s'. transactional tm ro func s = Some (Inr x, s') \<and> Q x V' (s_env s') \<and> resting k V' s'"
proof -
  obtain x V' s' where "attempt tm ro func s = Some (Inr x, s')" "Q x V' (s_env s')" "resting k V' s'"
    using attempt_yields [of n V s tm ro k R Q func] assms by auto
  then show ?thesis by (subst transactional.simps) auto
qed

end

end
