(* ===== verification/Word_View.thy ===== *)
theory Word_View
  imports Stm_Contract
begin

text \<open>
  What the interpretations of the contract share: words of eight bytes in the flat memory
  (\<open>holds_words\<close>), and an allocator whose answers are blocks nothing else uses (\<open>pool\<close>), which is
  what the C standard and POSIX promise of \<open>malloc\<close> and \<open>posix_memalign\<close>.
\<close>

definition holds_words :: "addr \<Rightarrow> (addr \<Rightarrow> 64 word option) \<Rightarrow> (addr \<Rightarrow> byte) \<Rightarrow> bool" where
  "holds_words loc w m \<longleftrightarrow>
     (\<forall>a x. w a = Some x \<longrightarrow> aligned 8 a \<and> a \<noteq> loc \<and> load m a 8 = to_bytes 8 x)"

definition pool :: "nat \<Rightarrow> addr \<Rightarrow> (addr \<Rightarrow> 64 word option) \<Rightarrow> addr list \<Rightarrow> bool" where
  "pool W loc w ps \<longleftrightarrow>
     (\<forall>p \<in> set ps. aligned 8 p \<and> unat p + 8 * W < 2 ^ 64 \<and>
        (\<forall>a \<in> set (words_at p W). w a = None \<and> a \<noteq> loc)) \<and>
     (\<forall>p \<in> set ps. \<forall>q \<in> set ps. p \<noteq> q \<longrightarrow> set (words_at p W) \<inter> set (words_at q W) = {})"

lemma word_size_eight: "word_size 8"
  by (simp add: word_size_def)

lemma holds_wordsD:
  "holds_words loc w m \<Longrightarrow> w a = Some x \<Longrightarrow> aligned 8 a \<and> a \<noteq> loc \<and> load m a 8 = to_bytes 8 x"
  by (simp add: holds_words_def)

text \<open>Storing one aligned word changes that word only.\<close>

lemma holds_words_store:
  assumes "holds_words loc w m" and "aligned 8 b" and "length bs = 8" and "w b = None"
  shows "holds_words loc w (store m b bs)"
  unfolding holds_words_def
proof (intro allI impI)
  fix a x assume a: "w a = Some x"
  then have "a \<noteq> b" using assms(4) by auto
  with holds_wordsD [OF assms(1) a] load_store_other [OF word_size_eight assms(2) _ _ assms(3)]
  show "aligned 8 a \<and> a \<noteq> loc \<and> load (store m b bs) a 8 = to_bytes 8 x" by auto
qed

lemma holds_words_local:
  assumes "holds_words loc w m" and "aligned 8 loc" and "length bs = 8"
  shows "holds_words loc w (store m loc bs)"
proof (rule holds_words_store [OF assms])
  show "w loc = None" using assms(1) by (cases "w loc") (auto simp: holds_words_def)
qed

lemma holds_words_write:
  assumes "holds_words loc w m" and "w b \<noteq> None"
  shows "holds_words loc (w(b \<mapsto> x)) (store m b (to_bytes 8 x))"
proof -
  obtain y where y: "w b = Some y" using assms(2) by blast
  note b = holds_wordsD [OF assms(1) y]
  have "holds_words loc (w(b := None)) m" using assms(1) by (auto simp: holds_words_def)
  then have "holds_words loc (w(b := None)) (store m b (to_bytes 8 x))"
    by (rule holds_words_store) (use b in simp_all)
  moreover have "load (store m b (to_bytes 8 x)) b 8 = to_bytes 8 x"
    by (rule load_store_word [OF word_size_eight]) simp
  ultimately show ?thesis using b by (auto simp: holds_words_def split: if_splits)
qed

lemma holds_words_read:
  assumes "holds_words loc w m" and "aligned 8 loc" and "w a = Some x"
  shows "load (store m loc (load m a 8)) loc 8 = to_bytes 8 x"
    and "holds_words loc w (store m loc (load m a 8))"
proof -
  show "load (store m loc (load m a 8)) loc 8 = to_bytes 8 x"
    using load_store_word [OF word_size_eight, of "load m a 8" m loc] holds_wordsD [OF assms(1,3)] by simp
  show "holds_words loc w (store m loc (load m a 8))"
    by (rule holds_words_local [OF assms(1,2)]) simp
qed

lemma holds_words_restrict:
  "holds_words loc w m \<Longrightarrow> (\<And>a x. w' a = Some x \<Longrightarrow> w a = Some x) \<Longrightarrow> holds_words loc w' m"
  by (auto simp: holds_words_def)

section \<open>Blocks of words\<close>

lemma in_words_at: "a \<in> set (words_at p n) \<longleftrightarrow> (\<exists>i<n. a = p + 8 * word_of_nat i)"
  by (auto simp: words_at_def)

lemma words_at_mono: "m \<le> n \<Longrightarrow> set (words_at p m) \<subseteq> set (words_at p n)"
  by (auto simp: words_at_def)

lemma words_at_shift: "set (words_at (p + 16) n) \<subseteq> set (words_at p (n + 2))"
proof
  fix a assume "a \<in> set (words_at (p + 16) n)"
  then obtain i where "i < n" "a = p + 16 + 8 * word_of_nat i" by (auto simp: in_words_at)
  then have "i + 2 < n + 2" "a = p + 8 * word_of_nat (i + 2)" by (simp_all add: algebra_simps)
  then show "a \<in> set (words_at p (n + 2))" unfolding in_words_at by blast
qed

lemma store_append: "store m a (xs @ ys) = store (store m a xs) (a + word_of_nat (length xs)) ys"
  by (induction xs arbitrary: m a) (simp_all add: algebra_simps)

lemma aligned_word_at:
  assumes "aligned 8 p" and "unat p + 8 * n < 2 ^ 64" and "i \<le> n"
  shows "unat (p + 8 * word_of_nat i) = unat p + 8 * i" and "aligned 8 (p + 8 * word_of_nat i)"
proof -
  have "unat (p + word_of_nat (8 * i)) = unat p + 8 * i"
    by (rule unat_plus_offset) (use assms(2,3) in simp)
  then show u: "unat (p + 8 * word_of_nat i) = unat p + 8 * i" by simp
  show "aligned 8 (p + 8 * word_of_nat i)" using assms(1) unfolding aligned_def u by simp
qed

text \<open>Clearing a block nothing in the view uses adds its words, all zero.\<close>

lemma holds_words_zero:
  assumes "holds_words loc w m" and "aligned 8 p" and "unat p + 8 * n < 2 ^ 64"
    and "\<forall>a \<in> set (words_at p n). w a = None \<and> a \<noteq> loc"
  shows "holds_words loc (\<lambda>a. if a \<in> set (words_at p n) then Some 0 else w a) (store m p (replicate (8 * n) 0))"
  using assms
proof (induction n)
  case 0
  then show ?case by (simp add: words_at_def)
next
  case (Suc n)
  let ?b = "p + 8 * word_of_nat n" and ?w = "\<lambda>a. if a \<in> set (words_at p n) then Some 0 else w a"
  have IH: "holds_words loc ?w (store m p (replicate (8 * n) 0))"
    by (rule Suc.IH) (use Suc.prems words_at_mono [of n "Suc n" p] in auto)
  have st: "store m p (replicate (8 * Suc n) 0) = store (store m p (replicate (8 * n) 0)) ?b (to_bytes 8 0)"
    using store_append [of m p "replicate (8 * n) 0" "replicate 8 0"] by (simp flip: replicate_add add: add.commute)
  have b: "w ?b = None" "?b \<noteq> loc" "aligned 8 ?b"
    using Suc.prems(4) aligned_word_at(2) [OF Suc.prems(2,3), of n] by (auto simp: words_at_def)
  have "?b \<notin> set (words_at p n)"
  proof
    assume "?b \<in> set (words_at p n)"
    then obtain i where i: "i < n" "?b = p + 8 * word_of_nat i" by (auto simp: in_words_at)
    then have "unat p + 8 * n = unat p + 8 * i"
      using aligned_word_at(1) [OF Suc.prems(2,3), of n] aligned_word_at(1) [OF Suc.prems(2,3), of i] by simp
    with i show False by simp
  qed
  then have "?w ?b = None" using b by simp
  then have "holds_words loc ?w (store m p (replicate (8 * Suc n) 0))"
    unfolding st by (intro holds_words_store [OF IH b(3)]) simp_all
  moreover have "load (store m p (replicate (8 * Suc n) 0)) ?b 8 = to_bytes 8 0"
    unfolding st by (rule load_store_word [OF word_size_eight]) simp
  ultimately show ?case using b(2,3) by (auto simp: holds_words_def words_at_def less_Suc_eq)
qed

text \<open>Taking an answer of the pool.\<close>

lemma pool_take:
  assumes "pool W loc w (p # ps)" and "p \<notin> set ps" and "n + 2 \<le> W"
  shows "aligned 8 p" and "unat p + 8 * W < 2 ^ 64"
    and "\<forall>a \<in> set (words_at (p + 16) n). w a = None \<and> a \<noteq> loc"
    and "pool W loc (\<lambda>a. if a \<in> set (words_at (p + 16) n) then Some x else w a) ps"
proof -
  have sub: "set (words_at (p + 16) n) \<subseteq> set (words_at p W)"
    using words_at_shift [of p n] words_at_mono [OF assms(3), of p] by blast
  show "aligned 8 p" "unat p + 8 * W < 2 ^ 64" using assms(1) by (simp_all add: pool_def)
  show "\<forall>a \<in> set (words_at (p + 16) n). w a = None \<and> a \<noteq> loc"
    using assms(1) sub by (auto simp: pool_def)
  have "a \<notin> set (words_at (p + 16) n)" if "q \<in> set ps" "a \<in> set (words_at q W)" for a q
  proof -
    have "q \<noteq> p" using that(1) assms(2) by blast
    then have "set (words_at q W) \<inter> set (words_at p W) = {}" using assms(1) that(1) by (simp add: pool_def)
    with that(2) sub show ?thesis by blast
  qed
  then show "pool W loc (\<lambda>a. if a \<in> set (words_at (p + 16) n) then Some x else w a) ps"
    using assms(1) by (auto simp: pool_def)
qed

lemma pool_tail: "pool W loc w (p # ps) \<Longrightarrow> pool W loc w ps"
  by (simp add: pool_def)

lemma pool_restrict:
  "pool W loc w ps \<Longrightarrow> (\<And>a. w a = None \<Longrightarrow> w' a = None) \<Longrightarrow> pool W loc w' ps"
  by (simp add: pool_def)

lemma pool_write: "pool W loc w ps \<Longrightarrow> w a \<noteq> None \<Longrightarrow> pool W loc (w(a \<mapsto> x)) ps"
  by (erule pool_restrict) auto

lemma aligned_16: "unat (p + 16) = unat p + 16 \<Longrightarrow> aligned 8 p \<Longrightarrow> aligned 8 (p + 16)"
  unfolding aligned_def by presburger

end
