(* ===== verification/Bank.thy ===== *)
theory Bank
  imports Transactional
begin

text \<open>
  The bank workload of \<open>grading/workload.hpp\<close>, over the accessors of \<open>Transactional\<close>: the layout
  of a segment of accounts and the closures of \<open>long_tx\<close>, \<open>alloc_tx\<close>, \<open>short_tx\<close> and \<open>init\<close>,
  loop for loop. A \<open>while\<close> over shared memory is a partial function, since a cyclic list would keep
  it running. Balances are 64-bit words, read as signed where the code compares them, and
  their sums wrap around (C++ leaves a signed overflow undefined); the
  variables a closure captures by reference and assigns are the session's \<open>s_env\<close>. The random
  choices of \<open>run\<close> are its argument.
\<close>

record segment_view =
  seg_count :: addr
  seg_next :: addr
  seg_parity :: addr
  seg_accounts :: addr

definition segment_size :: "csize \<Rightarrow> csize" where
  "segment_size nb = 24 + nb * 8"

definition segment_align :: csize where
  "segment_align = 8"

definition account_segment :: "'r tmem \<Rightarrow> addr \<Rightarrow> ('r, 'e) session \<Rightarrow> ('r, 'e, segment_view) outcome" where
  "account_segment tm address s =
     tbind (shared_ctor tm 8 address s) (\<lambda>cnt s.
     tbind (shared_ptr_ctor tm 8 (shared_after cnt) s) (\<lambda>nxt s.
     tbind (shared_ctor tm 8 (shared_ptr_after nxt) s) (\<lambda>parity s.
     tbind (shared_array_ctor tm 8 (shared_after parity) s) (\<lambda>accounts s.
     return \<lparr>seg_count = cnt, seg_next = nxt, seg_parity = parity, seg_accounts = accounts\<rparr> s))))"

record 'r bank =
  b_tm :: "'r tmem"
  nbworkers :: csize
  nbtxperwrk :: csize
  nbaccounts :: csize
  expnbaccounts :: csize
  init_balance :: "64 word"

definition bank_ctor ::
  "bool \<Rightarrow> 'r library \<Rightarrow> csize \<Rightarrow> csize \<Rightarrow> csize \<Rightarrow> csize \<Rightarrow> 64 word \<Rightarrow> cstate \<Rightarrow>
   ((exn + 'r bank \<times> addr \<times> 'r) \<times> cstate) option" where
  "bank_ctor in_time L nw nt na ne ib c = do {
     (r, c) \<leftarrow> tmem_ctor in_time L segment_align (segment_size na) c;
     (case r of
        Inl e \<Rightarrow> Some (Inl e, c)
      | Inr (tm, shared, rg) \<Rightarrow>
          Some (Inr (\<lparr>b_tm = tm, nbworkers = nw, nbtxperwrk = nt, nbaccounts = na, expnbaccounts = ne,
                      init_balance = ib\<rparr>, shared, rg), c))
   }"

section \<open>The long transaction\<close>

text \<open>\<open>None\<close> is the early \<open>return false\<close> on a negative balance.\<close>

partial_function (option) long_accounts ::
  "'r tmem \<Rightarrow> addr \<Rightarrow> csize \<Rightarrow> csize \<Rightarrow> 64 word \<Rightarrow> ('r, 'e) session \<Rightarrow> ('r, 'e, 64 word option) outcome" where
  "long_accounts tm accounts segment_count i money s =
     (if i < segment_count
      then tbind (shared_array_cell tm accounts i s) (\<lambda>cell s.
           tbind (shared_read tm cell s) (\<lambda>local s.
             if sint local < 0 then return None s
             else long_accounts tm accounts segment_count (i + 1) (money + local) s))
      else return (Some money) s)"

partial_function (option) long_segments ::
  "'r tmem \<Rightarrow> addr \<Rightarrow> csize \<Rightarrow> 64 word \<Rightarrow> ('r, 'e) session \<Rightarrow> ('r, 'e, (csize \<times> 64 word) option) outcome" where
  "long_segments tm here count money s =
     (if here \<noteq> NULL
      then tbind (account_segment tm here s) (\<lambda>segment s.
           tbind (shared_read tm (seg_count segment) s) (\<lambda>segment_count s.
           tbind (shared_read tm (seg_parity segment) s) (\<lambda>parity s.
           tbind (long_accounts tm (seg_accounts segment) segment_count 0 (money + parity) s) (\<lambda>r s.
             case r of
               None \<Rightarrow> return None s
             | Some money \<Rightarrow>
                 tbind (shared_ptr_read tm (seg_next segment) s) (\<lambda>here s.
                   long_segments tm here (count + segment_count) money s)))))
      else return (Some (count, money)) s)"

definition long_body :: "'r bank \<Rightarrow> ('r, csize) session \<Rightarrow> ('r, csize, bool) outcome" where
  "long_body b s =
     tbind (long_segments (b_tm b) (start_addr (b_tm b)) 0 0 s) (\<lambda>r s.
       case r of
         None \<Rightarrow> return False s
       | Some (count, money) \<Rightarrow> return (money = init_balance b * count) (s\<lparr>s_env := count\<rparr>))"

definition long_tx :: "'r bank \<Rightarrow> ('r, csize) session \<Rightarrow> ('r, csize, bool) outcome" where
  "long_tx b s = transactional (b_tm b) True (long_body b) s"

section \<open>The allocating transaction\<close>

text \<open>What happens at the last segment; the class has 64 bytes, four accessors.\<close>

definition alloc_last ::
  "'r bank \<Rightarrow> csize \<Rightarrow> segment_view \<Rightarrow> csize \<Rightarrow> addr \<Rightarrow> csize \<Rightarrow> ('r, 'e) session \<Rightarrow> ('r, 'e, unit) outcome" where
  "alloc_last b trigger segment segment_count prev count s =
     (let tm = b_tm b in
      if trigger < count \<and> 2 < count
      then let segment_count = segment_count - 1 in
        tbind (shared_read tm (seg_parity segment) s) (\<lambda>parity s.
        tbind (shared_array_cell tm (seg_accounts segment) segment_count s) (\<lambda>cell s.
        tbind (shared_read tm cell s) (\<lambda>acc s.
          let new_parity = parity + acc - init_balance b in
          if 0 < segment_count
          then tbind (shared_write tm (seg_count segment) segment_count s) (\<lambda>_ s.
                 shared_write tm (seg_parity segment) new_parity s)
          else if assert_mode \<and> prev = NULL then throw TransactionNotLastSegment s
          else tbind (account_segment tm prev s) (\<lambda>prev_segment s.
               tbind (shared_ptr_free tm (seg_next prev_segment) s) (\<lambda>_ s.
               tbind (shared_read tm (seg_parity prev_segment) s) (\<lambda>prev_parity s.
                 shared_write tm (seg_parity prev_segment) (prev_parity + new_parity) s))))))
      else if segment_count < nbaccounts b
      then tbind (shared_array_cell tm (seg_accounts segment) segment_count s) (\<lambda>cell s.
           tbind (shared_write tm cell (init_balance b) s) (\<lambda>_ s.
             shared_write tm (seg_count segment) (segment_count + 1) s))
      else tbind (shared_ptr_alloc tm 64 (seg_next segment) (segment_size (nbaccounts b)) s) (\<lambda>p s.
           tbind (account_segment tm p s) (\<lambda>next_segment s.
           tbind (shared_write tm (seg_count next_segment) 1 s) (\<lambda>_ s.
           tbind (shared_array_cell tm (seg_accounts next_segment) 0 s) (\<lambda>cell s.
             shared_write tm cell (init_balance b) s)))))"

partial_function (option) alloc_loop ::
  "'r bank \<Rightarrow> csize \<Rightarrow> csize \<Rightarrow> addr \<Rightarrow> addr \<Rightarrow> ('r, 'e) session \<Rightarrow> ('r, 'e, unit) outcome" where
  "alloc_loop b trigger count prev here s =
     tbind (account_segment (b_tm b) here s) (\<lambda>segment s.
     tbind (shared_read (b_tm b) (seg_count segment) s) (\<lambda>segment_count s.
     tbind (shared_ptr_read (b_tm b) (seg_next segment) s) (\<lambda>segment_next s.
       if segment_next = NULL
       then alloc_last b trigger segment segment_count prev (count + segment_count) s
       else alloc_loop b trigger (count + segment_count) here segment_next s)))"

definition alloc_body :: "'r bank \<Rightarrow> csize \<Rightarrow> ('r, 'e) session \<Rightarrow> ('r, 'e, unit) outcome" where
  "alloc_body b trigger s = alloc_loop b trigger 0 NULL (start_addr (b_tm b)) s"

definition alloc_tx :: "'r bank \<Rightarrow> csize \<Rightarrow> ('r, 'e) session \<Rightarrow> ('r, 'e, unit) outcome" where
  "alloc_tx b trigger s = transactional (b_tm b) False (alloc_body b trigger) s"

section \<open>The short transaction\<close>

text \<open>
  One of the two searches of the loop: the pointer found so far and whether the loop is left. The
  index is a variable of \<open>short_tx\<close>, captured by reference.
\<close>

definition find_account ::
  "'r tmem \<Rightarrow> segment_view \<Rightarrow> csize \<Rightarrow> csize \<Rightarrow> (csize \<Rightarrow> 'e \<Rightarrow> 'e) \<Rightarrow> addr \<Rightarrow> addr \<Rightarrow>
   ('r, 'e) session \<Rightarrow> ('r, 'e, addr \<times> bool) outcome" where
  "find_account tm segment segment_count acc_id set_id ptr other s =
     (if ptr = NULL
      then if acc_id < segment_count
           then tbind (shared_array_cell tm (seg_accounts segment) acc_id s) (\<lambda>cell s.
                  return (cell, other \<noteq> NULL) s)
           else return (NULL, False) (s\<lparr>s_env := set_id (acc_id - segment_count) (s_env s)\<rparr>)
      else return (ptr, False) s)"

partial_function (option) short_find ::
  "'r tmem \<Rightarrow> addr \<Rightarrow> addr \<Rightarrow> addr \<Rightarrow> ('r, csize \<times> csize) session \<Rightarrow> ('r, csize \<times> csize, (addr \<times> addr) option) outcome" where
  "short_find tm send_ptr recv_ptr here s =
     tbind (account_segment tm here s) (\<lambda>segment s.
     tbind (shared_read tm (seg_count segment) s) (\<lambda>segment_count s.
     tbind (find_account tm segment segment_count (fst (s_env s)) (\<lambda>i e. (i, snd e)) send_ptr recv_ptr s) (\<lambda>r s.
       if snd r then return (Some (fst r, recv_ptr)) s
       else tbind (find_account tm segment segment_count (snd (s_env s)) (\<lambda>i e. (fst e, i)) recv_ptr (fst r) s) (\<lambda>q s.
         if snd q then return (Some (fst r, fst q)) s
         else tbind (shared_ptr_read tm (seg_next segment) s) (\<lambda>here s.
           if here = NULL then return None s
           else short_find tm (fst r) (fst q) here s)))))"

definition transfer :: "'r tmem \<Rightarrow> addr \<Rightarrow> addr \<Rightarrow> ('r, 'e) session \<Rightarrow> ('r, 'e, unit) outcome" where
  "transfer tm send_ptr recv_ptr s =
     tbind (shared_ctor tm 8 send_ptr s) (\<lambda>sender s.
     tbind (shared_ctor tm 8 recv_ptr s) (\<lambda>recver s.
     tbind (shared_read tm sender s) (\<lambda>send_val s.
       if 0 < sint send_val
       then tbind (shared_write tm sender (send_val - 1) s) (\<lambda>_ s.
            tbind (shared_read tm recver s) (\<lambda>recv_val s.
              shared_write tm recver (recv_val + 1) s))
       else return () s)))"

definition short_body :: "'r bank \<Rightarrow> ('r, csize \<times> csize) session \<Rightarrow> ('r, csize \<times> csize, bool) outcome" where
  "short_body b s =
     tbind (short_find (b_tm b) NULL NULL (start_addr (b_tm b)) s) (\<lambda>r s.
       case r of
         None \<Rightarrow> return False s
       | Some (send_ptr, recv_ptr) \<Rightarrow>
           tbind (transfer (b_tm b) send_ptr recv_ptr s) (\<lambda>_ s. return True s))"

definition short_tx :: "'r bank \<Rightarrow> csize \<Rightarrow> csize \<Rightarrow> ('r, csize \<times> csize) session \<Rightarrow> ('r, csize \<times> csize, bool) outcome" where
  "short_tx b send_id recv_id s =
     transactional (b_tm b) False (short_body b) (s\<lparr>s_env := (send_id, recv_id)\<rparr>)"

section \<open>Initialisation\<close>

text \<open>A report is \<open>None\<close> (\<open>nullptr\<close>) or one of the error messages of the workload.\<close>

datatype report =
    ViolatedVisibility | ViolatedConsistency | ViolatedIsolationOrAtomicity | ViolatedDuringInitialization
  | ViolatedConsistencyIsolationOrAtomicity

partial_function (option) init_accounts ::
  "'r bank \<Rightarrow> addr \<Rightarrow> csize \<Rightarrow> ('r, 'e) session \<Rightarrow> ('r, 'e, unit) outcome" where
  "init_accounts b accounts i s =
     (if i < nbaccounts b
      then tbind (shared_array_cell (b_tm b) accounts i s) (\<lambda>cell s.
           tbind (shared_write (b_tm b) cell (init_balance b) s) (\<lambda>_ s.
             init_accounts b accounts (i + 1) s))
      else return () s)"

definition init_body :: "'r bank \<Rightarrow> ('r, 'e) session \<Rightarrow> ('r, 'e, unit) outcome" where
  "init_body b s =
     tbind (account_segment (b_tm b) (start_addr (b_tm b)) s) (\<lambda>segment s.
     tbind (shared_write (b_tm b) (seg_count segment) (nbaccounts b) s) (\<lambda>_ s.
       init_accounts b (seg_accounts segment) 0 s))"

definition init_check_body :: "'r bank \<Rightarrow> ('r, 'e) session \<Rightarrow> ('r, 'e, bool) outcome" where
  "init_check_body b s =
     tbind (account_segment (b_tm b) (start_addr (b_tm b)) s) (\<lambda>segment s.
     tbind (shared_array_cell (b_tm b) (seg_accounts segment) 0 s) (\<lambda>cell s.
     tbind (shared_read (b_tm b) cell s) (\<lambda>x s. return (x = init_balance b) s)))"

definition init :: "'r bank \<Rightarrow> ('r, 'e) session \<Rightarrow> ('r, 'e, report option) outcome" where
  "init b s =
     tbind (transactional (b_tm b) False (init_body b) s) (\<lambda>_ s.
     tbind (transactional (b_tm b) True (init_check_body b) s) (\<lambda>correct s.
       return (if \<not> correct then Some ViolatedVisibility else None) s))"

section \<open>The random transactions\<close>

text \<open>
  The engine and the distributions of the standard library are a parameter: what each of them
  draws from the state of the engine, an account number from the current number of accounts.
  A block with captured variables of its own runs by \<open>run_in\<close>.
\<close>

record 'g dice =
  long_dist :: "'g \<Rightarrow> bool \<times> 'g"
  alloc_dist :: "'g \<Rightarrow> bool \<times> 'g"
  alloc_trigger :: "'g \<Rightarrow> csize \<times> 'g"
  account_dist :: "csize \<Rightarrow> 'g \<Rightarrow> csize \<times> 'g"

definition with_env :: "'e \<Rightarrow> ('r, 'd) session \<Rightarrow> ('r, 'e) session" where
  "with_env e s = \<lparr>s_tx = s_tx s, s_aborted = s_aborted s, s_ro = s_ro s, s_env = e, s_local = s_local s,
                   s_region = s_region s, s_c = s_c s\<rparr>"

definition run_in :: "'d \<Rightarrow> (('r, 'd) session \<Rightarrow> ('r, 'd, 'a) outcome) \<Rightarrow> ('r, 'e) session \<Rightarrow> ('r, 'e, 'a \<times> 'd) outcome" where
  "run_in d f s = (case f (with_env d s) of
     None \<Rightarrow> None
   | Some (Inl e, t) \<Rightarrow> throw e (with_env (s_env s) t)
   | Some (Inr x, t) \<Rightarrow> return (x, s_env t) (with_env (s_env s) t))"

text \<open>Short transactions until one does useful work.\<close>

partial_function (option) short_until ::
  "'g dice \<Rightarrow> 'r bank \<Rightarrow> csize \<Rightarrow> 'g \<Rightarrow> ('r, 'e) session \<Rightarrow> ('r, 'e, 'g) outcome" where
  "short_until d b count g s =
     (let (i, g) = account_dist d count g; (j, g) = account_dist d count g in
      tbind (run_in (i, j) (short_tx b i j) s) (\<lambda>r s.
        if fst r then return g s else short_until d b count g s))"

text \<open>\<open>Inr\<close> is the end of the loop, with the state of the engine, \<open>Inl\<close> the early return of a report.\<close>

partial_function (option) run_loop ::
  "'g dice \<Rightarrow> 'r bank \<Rightarrow> csize \<Rightarrow> csize \<Rightarrow> 'g \<Rightarrow> ('r, 'e) session \<Rightarrow> ('r, 'e, report + 'g) outcome" where
  "run_loop d b cntr count g s =
     (if cntr < nbtxperwrk b
      then (let (long, g) = long_dist d g in
        if long
        then tbind (run_in count (long_tx b) s) (\<lambda>r s.
               if \<not> fst r then return (Inl ViolatedIsolationOrAtomicity) s
               else run_loop d b (cntr + 1) (snd r) g s)
        else (let (al, g) = alloc_dist d g in
          if al
          then (let (trigger, g) = alloc_trigger d g in
            tbind (alloc_tx b trigger s) (\<lambda>_ s. run_loop d b (cntr + 1) count g s))
          else tbind (short_until d b count g s) (\<lambda>g s. run_loop d b (cntr + 1) count g s)))
      else return (Inr g) s)"

definition run :: "'g dice \<Rightarrow> 'g \<Rightarrow> 'r bank \<Rightarrow> ('r, 'e) session \<Rightarrow> ('r, 'e, report option) outcome" where
  "run d seed b s =
     tbind (run_loop d b 0 (nbaccounts b) seed s) (\<lambda>r s.
       case r of
         Inl e \<Rightarrow> return (Some e) s
       | Inr _ \<Rightarrow>
           tbind (run_in 0 (long_tx b) s) (\<lambda>r s.
             return (if \<not> fst r then Some ViolatedIsolationOrAtomicity else None) s))"

section \<open>The correctness check\<close>

text \<open>
  A counter in the first word of the region, decreased by all the workers. \<open>sync\<close> is what waiting
  at the barrier does to the worker's world: everything the other workers do meanwhile.
\<close>

definition check_tx :: nat where
  "check_tx = 100"

definition read_counter :: "'r bank \<Rightarrow> ('r, 'e) session \<Rightarrow> ('r, 'e, 64 word) outcome" where
  "read_counter b s =
     tbind (shared_ctor (b_tm b) 8 (start_addr (b_tm b)) s) (\<lambda>counter s. shared_read (b_tm b) counter s)"

definition write_counter :: "'r bank \<Rightarrow> 64 word \<Rightarrow> ('r, 'e) session \<Rightarrow> ('r, 'e, unit) outcome" where
  "write_counter b x s =
     tbind (shared_ctor (b_tm b) 8 (start_addr (b_tm b)) s) (\<lambda>counter s. shared_write (b_tm b) counter x s)"

definition counter_is :: "'r bank \<Rightarrow> 64 word \<Rightarrow> ('r, 'e) session \<Rightarrow> ('r, 'e, bool) outcome" where
  "counter_is b x s = tbind (read_counter b s) (\<lambda>v s. return (v = x) s)"

definition decrease :: "'r bank \<Rightarrow> 64 word \<Rightarrow> ('r, 'e) session \<Rightarrow> ('r, 'e, bool) outcome" where
  "decrease b last_value s =
     tbind (shared_ctor (b_tm b) 8 (start_addr (b_tm b)) s) (\<lambda>counter s.
     tbind (shared_read (b_tm b) counter s) (\<lambda>v s.
       if last_value < v then return False s
       else tbind (shared_write (b_tm b) counter (v - 1) s) (\<lambda>_ s. return True s)))"

definition check_init :: "'r bank \<Rightarrow> ('r, 'e) session \<Rightarrow> ('r, 'e, bool) outcome" where
  "check_init b s =
     (let init_counter = word_of_nat check_tx * nbworkers b in
      tbind (transactional (b_tm b) False (write_counter b init_counter) s) (\<lambda>_ s.
        transactional (b_tm b) True (counter_is b init_counter) s))"

primrec check_rounds :: "'r bank \<Rightarrow> nat \<Rightarrow> ('r, 'e) session \<Rightarrow> ('r, 'e, bool) outcome" where
  "check_rounds b 0 s = return True s"
| "check_rounds b (Suc n) s =
     tbind (transactional (b_tm b) True (read_counter b) s) (\<lambda>last_value s.
     tbind (transactional (b_tm b) False (decrease b last_value) s) (\<lambda>correct s.
       if \<not> correct then return False s else check_rounds b n s))"

definition check ::
  "(('r, 'e) session \<Rightarrow> ('r, 'e) session) \<Rightarrow> 'r bank \<Rightarrow> nat \<Rightarrow> ('r, 'e) session \<Rightarrow> ('r, 'e, report option) outcome" where
  "check sync b uid s =
     tbind (if uid = 0 then check_init b (sync s) else return True (sync s)) (\<lambda>correct s.
       if \<not> correct then return (Some ViolatedDuringInitialization) (sync (sync s))
       else tbind (check_rounds b check_tx (sync s)) (\<lambda>correct s.
         if \<not> correct then return (Some ViolatedConsistencyIsolationOrAtomicity) (sync s)
         else if uid = 0
         then tbind (transactional (b_tm b) True (counter_is b 0) (sync s)) (\<lambda>correct s.
                return (if \<not> correct then Some ViolatedConsistency else None) s)
         else return None (sync s)))"

end
