(* ===== verification/Bank_Spec.thy ===== *)
theory Bank_Spec
  imports Bank Stm_Contract
begin

text \<open>
  The bank as a list of segments (address, parity, accounts) and its representation in the
  abstract memory; the specifications of the long, short and allocating transactions on it. Inside
  the contract \<open>stm\<close>, the closures of \<open>Bank\<close> are proved to implement the specifications.
\<close>

type_synonym bseg = "addr \<times> 64 word \<times> 64 word list"

definition accs_of :: "bseg list \<Rightarrow> 64 word list" where
  "accs_of segs = concat (map (\<lambda>(q, par, accs). accs) segs)"

definition parity_of :: "bseg list \<Rightarrow> 64 word" where
  "parity_of segs = sum_list (map (\<lambda>(q, par, accs). par) segs)"

definition acc_addr :: "addr \<Rightarrow> nat \<Rightarrow> addr" where
  "acc_addr q i = q + 24 + 8 * word_of_nat i"

text \<open>The list in memory, every segment with room for \<open>nb\<close> accounts.\<close>

fun bank_list :: "nat \<Rightarrow> (addr \<Rightarrow> 64 word option) \<Rightarrow> addr \<Rightarrow> bseg list \<Rightarrow> bool" where
  "bank_list nb w p [] \<longleftrightarrow> p = NULL"
| "bank_list nb w p ((q, par, accs) # segs) \<longleftrightarrow>
     p = q \<and> q \<noteq> NULL \<and> unat q + 24 + 8 * nb < 2 ^ 64 \<and>
     w q = Some (word_of_nat (length accs)) \<and> w (q + 16) = Some par \<and>
     length accs \<le> nb \<and> (\<forall>i < nb. w (acc_addr q i) \<noteq> None) \<and>
     (\<forall>i < length accs. w (acc_addr q i) = Some (accs ! i)) \<and>
     (\<exists>nx. w (q + 8) = Some nx \<and> bank_list nb w nx segs)"

definition bank_words :: "nat \<Rightarrow> bseg list \<Rightarrow> addr list" where
  "bank_words nb segs = concat (map (\<lambda>(q, par, accs). words_at q (3 + nb)) segs)"

lemma accs_of_simps [simp]:
  "accs_of [] = []" "accs_of ((q, par, accs) # segs) = accs @ accs_of segs"
  "accs_of (xs @ ys) = accs_of xs @ accs_of ys"
  by (simp_all add: accs_of_def)

lemma parity_of_simps [simp]:
  "parity_of [] = 0" "parity_of ((q, par, accs) # segs) = par + parity_of segs"
  "parity_of (xs @ ys) = parity_of xs + parity_of ys"
  by (simp_all add: parity_of_def)

lemma bank_words_simps [simp]:
  "bank_words nb [] = []" "bank_words nb ((q, par, accs) # segs) = words_at q (3 + nb) @ bank_words nb segs"
  "bank_words nb (xs @ ys) = bank_words nb xs @ bank_words nb ys"
  by (simp_all add: bank_words_def)

text \<open>The address of an account by its number.\<close>

fun locate :: "bseg list \<Rightarrow> nat \<Rightarrow> addr option" where
  "locate [] i = None"
| "locate ((q, par, accs) # segs) i =
     (if i < length accs then Some (acc_addr q i) else locate segs (i - length accs))"

fun upd_acc :: "bseg list \<Rightarrow> nat \<Rightarrow> 64 word \<Rightarrow> bseg list" where
  "upd_acc [] i x = []"
| "upd_acc ((q, par, accs) # segs) i x =
     (if i < length accs then (q, par, accs[i := x]) # segs
      else (q, par, accs) # upd_acc segs (i - length accs) x)"

lemma account_segment_simps [simp]:
  "account_segment tm a s =
     return \<lparr>seg_count = a, seg_next = a + 8, seg_parity = a + 16, seg_accounts = a + 24\<rparr> s"
  by (simp add: account_segment_def shared_after_def shared_ptr_after_def elem_def add.commute)

lemma elem_acc: "elem (q + 24) (word_of_nat i) = acc_addr q i"
  by (simp add: elem_def acc_addr_def)

lemma bank_list_cong:
  "(\<And>a. a \<in> set (bank_words nb segs) \<Longrightarrow> w a = w' a) \<Longrightarrow> bank_list nb w p segs \<Longrightarrow> bank_list nb w' p segs"
proof (induction segs arbitrary: p)
  case (Cons sg segs)
  obtain q par accs where sg: "sg = (q, par, accs)" by (cases sg) auto
  have in_words: "q + 8 * word_of_nat i \<in> set (words_at q (3 + nb))" if "i < 3 + nb" for i
    using that by (auto simp: words_at_def)
  have same: "w a = w' a" if "a \<in> set (words_at q (3 + nb))" for a
    using Cons.prems(1) that by (simp add: sg)
  have "acc_addr q i = q + 8 * word_of_nat (3 + i)" for i by (simp add: acc_addr_def algebra_simps)
  then have accs: "w (acc_addr q i) = w' (acc_addr q i)" if "i < nb" for i
    using same in_words [of "3 + i"] that by simp
  have "w q = w' q" "w (q + 8) = w' (q + 8)" "w (q + 16) = w' (q + 16)"
    using same in_words [of 0] in_words [of 1] in_words [of 2] by simp_all
  moreover have "\<And>p. bank_list nb w p segs \<Longrightarrow> bank_list nb w' p segs"
    using Cons.IH Cons.prems(1) by (simp add: sg)
  ultimately show ?case using Cons.prems(2) accs by (auto simp: sg)
qed simp

lemma locate_None: "locate segs i = None \<longleftrightarrow> length (accs_of segs) \<le> i"
  by (induction segs i rule: locate.induct) auto

lemma locate_value:
  "bank_list nb w p segs \<Longrightarrow> locate segs i = Some a \<Longrightarrow> w a = Some (accs_of segs ! i) \<and> a \<noteq> NULL"
proof (induction segs i arbitrary: p rule: locate.induct)
  case (2 q par accs segs i)
  show ?case
  proof (cases "i < length accs")
    case True
    then have "unat (q + (24 + 8 * word_of_nat i)) = unat q + (24 + 8 * i)"
      using "2.prems"(1) unat_plus_offset [of q "24 + 8 * i"] by simp
    with True "2.prems" show ?thesis by (auto simp: nth_append acc_addr_def add.assoc)
  next
    case False
    with 2 show ?thesis by (auto simp: nth_append)
  qed
qed simp

lemma accs_upd: "accs_of (upd_acc segs i x) = (accs_of segs)[i := x]"
  by (induction segs i x rule: upd_acc.induct) (auto simp: list_update_append)

lemma upd_simps [simp]:
  "parity_of (upd_acc segs i x) = parity_of segs" "bank_words nb (upd_acc segs i x) = bank_words nb segs"
  "map fst (upd_acc segs i x) = map fst segs" "locate (upd_acc segs i x) j = locate segs j"
  by (induction segs i x arbitrary: j rule: upd_acc.induct) auto

lemma word_in: "k < n \<Longrightarrow> q + 8 * word_of_nat k \<in> set (words_at q n)"
  by (auto simp: words_at_def)

text \<open>The words of one segment are different.\<close>

lemma words_inj:
  fixes q :: addr
  assumes "unat q + 24 + 8 * nb < 2 ^ 64" and "i < 3 + nb" and "j < 3 + nb"
    and "q + 8 * word_of_nat i = q + 8 * word_of_nat j"
  shows "i = j"
proof -
  have "q + word_of_nat (8 * i) = q + word_of_nat (8 * j)" using assms(4) by simp
  then have "8 * i = 8 * j" using assms(1-3) by (intro word_offset_inj [of q]) simp_all
  then show ?thesis by simp
qed

lemma acc_addr_word: "acc_addr q i = q + 8 * word_of_nat (3 + i)"
  by (simp add: acc_addr_def algebra_simps)

lemma acc_addr_in: "i < nb \<Longrightarrow> acc_addr q i \<in> set (words_at q (3 + nb))"
  unfolding acc_addr_word by (rule word_in) simp

lemma acc_addr_ne:
  assumes "unat q + 24 + 8 * nb < 2 ^ 64" and "i < nb"
  shows "acc_addr q i \<noteq> q" and "acc_addr q i \<noteq> q + 8" and "acc_addr q i \<noteq> q + 16"
    and "j < nb \<Longrightarrow> acc_addr q i = acc_addr q j \<longleftrightarrow> i = j"
  using words_inj [OF assms(1), of "3 + i" 0] words_inj [OF assms(1), of "3 + i" 1]
    words_inj [OF assms(1), of "3 + i" 2] words_inj [OF assms(1), of "3 + i" "3 + j"] assms(2)
  by (auto simp: acc_addr_word)

lemma locate_in:
  "bank_list nb w p segs \<Longrightarrow> locate segs i = Some a \<Longrightarrow> a \<in> set (bank_words nb segs)"
  by (induction segs i arbitrary: p rule: locate.induct) (auto split: if_splits intro: acc_addr_in)

lemma bank_list_upd:
  "bank_list nb w p segs \<Longrightarrow> distinct (bank_words nb segs) \<Longrightarrow> locate segs i = Some a \<Longrightarrow>
     bank_list nb (w(a \<mapsto> x)) p (upd_acc segs i x)"
proof (induction segs i arbitrary: p rule: locate.induct)
  case (2 q par accs segs i)
  have q: "unat q + 24 + 8 * nb < 2 ^ 64" "length accs \<le> nb" using "2.prems"(1) by simp_all
  obtain nx where nx: "w (q + 8) = Some nx" "bank_list nb w nx segs" using "2.prems"(1) by auto
  show ?case
  proof (cases "i < length accs")
    case True
    then have a: "a = acc_addr q i" "i < nb" using "2.prems"(3) q by simp_all
    have "a \<in> set (words_at q (3 + nb))" using acc_addr_in [OF a(2)] a(1) by simp
    then have "a \<notin> set (bank_words nb segs)" using "2.prems"(2) by auto
    then have "bank_list nb (w(a \<mapsto> x)) nx segs"
      by (intro bank_list_cong [OF _ nx(2)]) auto
    moreover have "(w(a \<mapsto> x)) q = w q" "(w(a \<mapsto> x)) (q + 8) = w (q + 8)" "(w(a \<mapsto> x)) (q + 16) = w (q + 16)"
      using acc_addr_ne(1-3) [OF q(1) a(2)] a(1) by auto
    moreover have "(w(a \<mapsto> x)) (acc_addr q k) = (if k = i then Some x else w (acc_addr q k))" if "k < nb" for k
      using acc_addr_ne(4) [OF q(1) a(2) that] a(1) by auto
    ultimately show ?thesis
      using "2.prems"(1) True nx(1) q(2) by (auto simp: nth_list_update simp del: fun_upd_apply)
  next
    case False
    then have loc: "locate segs (i - length accs) = Some a" using "2.prems"(3) by simp
    have "bank_list nb (w(a \<mapsto> x)) nx (upd_acc segs (i - length accs) x)"
      using "2.IH" [OF False nx(2)] "2.prems"(2) loc by (simp del: fun_upd_apply)
    moreover have "a \<in> set (bank_words nb segs)"
      using locate_in [OF nx(2) loc] .
    then have "a \<notin> set (words_at q (3 + nb))" using "2.prems"(2) by auto
    then have other: "a \<noteq> q + 8 * word_of_nat k" if "k < 3 + nb" for k
      using that by (auto simp: words_at_def)
    have "(w(a \<mapsto> x)) (acc_addr q k) = w (acc_addr q k)" if "k < nb" for k
      unfolding acc_addr_word using other [of "3 + k"] that by simp
    moreover have "(w(a \<mapsto> x)) q = w q" "(w(a \<mapsto> x)) (q + 8) = w (q + 8)" "(w(a \<mapsto> x)) (q + 16) = w (q + 16)"
      using other [of 0] other [of 1] other [of 2] by auto
    ultimately show ?thesis
      using "2.prems"(1) False nx(1) q(2) by (auto simp del: fun_upd_apply)
  qed
qed simp

section \<open>The long transaction\<close>

definition long_cost :: "bseg list \<Rightarrow> nat" where
  "long_cost segs = sum_list (map (\<lambda>(q, par, accs). 3 + length accs) segs)"

lemma long_cost_simps [simp]:
  "long_cost [] = 0" "long_cost ((q, par, accs) # segs) = 3 + length accs + long_cost segs"
  by (simp_all add: long_cost_def)

definition overdrawn :: "64 word list \<Rightarrow> bool" where
  "overdrawn xs \<longleftrightarrow> list_ex (\<lambda>x. sint x < 0) xs"

lemma overdrawn_simps [simp]:
  "\<not> overdrawn []" "overdrawn (x # xs) \<longleftrightarrow> sint x < 0 \<or> overdrawn xs"
  "overdrawn (xs @ ys) \<longleftrightarrow> overdrawn xs \<or> overdrawn ys"
  by (simp_all add: overdrawn_def)

definition bank_money :: "bseg list \<Rightarrow> 64 word" where
  "bank_money segs = parity_of segs + sum_list (accs_of segs)"

lemma bank_money_simps [simp]:
  "bank_money [] = 0"
  "bank_money ((q, par, accs) # segs) = par + sum_list accs + bank_money segs"
  by (simp_all add: bank_money_def algebra_simps)

text \<open>What the long transaction computes: \<open>None\<close> if an account is overdrawn.\<close>

definition long_result :: "bseg list \<Rightarrow> (csize \<times> 64 word) option" where
  "long_result segs = (if overdrawn (accs_of segs) then None
     else Some (word_of_nat (length (accs_of segs)), bank_money segs))"

lemma of_nat_less: "i \<le> n \<Longrightarrow> n < 2 ^ 64 \<Longrightarrow> (word_of_nat i :: csize) < word_of_nat n \<longleftrightarrow> i < n"
  by (simp add: word_less_nat_alt unat_small)

context stm
begin

lemma long_accounts_yields:
  assumes "at_point (k + (length accs - j)) V0 ro V e s" and "tl tm = L" and "R e"
    and "\<And>i. i < length accs \<Longrightarrow> aw V (acc_addr q i) = Some (accs ! i)" and "length accs < 2 ^ 64"
    and "j \<le> length accs"
  shows "yields k V0 ro R
    (\<lambda>r V' e'. V' = V \<and> e' = e \<and>
       r = (if overdrawn (drop j accs) then None else Some (m + sum_list (drop j accs))))
    (long_accounts tm (q + 24) (word_of_nat (length accs)) (word_of_nat j) m s)"
  using assms(1,6)
proof (induction "length accs - j" arbitrary: j m s)
  case 0
  then have j: "j = length accs" by simp
  show ?case
    by (subst long_accounts.simps, simp add: j) (rule at_return, use 0 j in auto)
next
  case (Suc n)
  then have j: "j < length accs" by simp
  then have lt: "(word_of_nat j :: csize) < word_of_nat (length accs)"
    using of_nat_less [of j "length accs"] assms(5) by simp
  have drop: "drop j accs = accs ! j # drop (Suc j) accs" using j by (simp add: Cons_nth_drop_Suc)
  have here: "at_point (Suc (k + (length accs - Suc j))) V0 ro V e s"
    using Suc.prems(1) j by (simp add: Suc_diff_Suc)
  have suc: "(word_of_nat j + 1 :: csize) = word_of_nat (Suc j)" by simp
  show ?case
  proof (subst long_accounts.simps, simp only: lt if_True shared_ctor_simps tbind_simps elem_acc,
      rule at_read [where R = R, OF here assms(2) assms(4) [OF j] assms(3)])
    fix s' assume s': "at_point (k + (length accs - Suc j)) V0 ro V e s'"
    have IH: "yields k V0 ro R (\<lambda>r V' e'. V' = V \<and> e' = e \<and>
           r = (if overdrawn (drop (Suc j) accs) then None
                else Some ((m + accs ! j) + sum_list (drop (Suc j) accs))))
        (long_accounts tm (q + 24) (word_of_nat (length accs)) (word_of_nat (Suc j)) (m + accs ! j) s')"
      by (rule Suc.hyps(1)) (use Suc j s' in auto)
    show "yields k V0 ro R (\<lambda>r V' e'. V' = V \<and> e' = e \<and>
         r = (if overdrawn (drop j accs) then None else Some (m + sum_list (drop j accs))))
        (if sint (accs ! j) < 0 then return None s'
         else long_accounts tm (q + 24) (word_of_nat (length accs)) (word_of_nat j + 1) (m + accs ! j) s')"
    proof (cases "sint (accs ! j) < 0")
      case True
      with s' show ?thesis by (auto simp: drop intro: at_return)
    next
      case False
      then show ?thesis unfolding suc
        by (simp only: if_False) (rule yields_mono [OF IH order.refl], auto simp: drop add.assoc)
    qed
  qed simp
qed

lemma long_segments_yields:
  assumes "at_point (k + long_cost segs) V0 ro V e s" and "tl tm = L" and "R e"
    and "bank_list nb (aw V) p segs"
  shows "yields k V0 ro R
    (\<lambda>r V' e'. V' = V \<and> e' = e \<and> r = (if overdrawn (accs_of segs) then None
       else Some (cnt + word_of_nat (length (accs_of segs)), m + bank_money segs)))
    (long_segments tm p cnt m s)"
  using assms(1,4)
proof (induction segs arbitrary: p cnt m s)
  case Nil
  then show ?case by (subst long_segments.simps) (auto intro: at_return)
next
  case (Cons sg segs)
  obtain q par accs where sg: "sg = (q, par, accs)" by (cases sg) auto
  obtain nx where b: "p = q" "q \<noteq> NULL" "unat q + 24 + 8 * nb < 2 ^ 64" "length accs \<le> nb"
      "aw V q = Some (word_of_nat (length accs))" "aw V (q + 16) = Some par"
      "\<And>i. i < length accs \<Longrightarrow> aw V (acc_addr q i) = Some (accs ! i)"
      "aw V (q + 8) = Some nx" "bank_list nb (aw V) nx segs"
    using Cons.prems(2) by (auto simp: sg)
  have len: "length accs < 2 ^ 64" using b(3,4) by simp
  have "k + long_cost (sg # segs) = Suc (Suc (Suc (k + long_cost segs) + length accs))" by (simp add: sg)
  with Cons.prems(1) have s0: "at_point (Suc (Suc (Suc (k + long_cost segs) + length accs))) V0 ro V e s"
    by simp
  let ?Q = "\<lambda>r V' e'. V' = V \<and> e' = e \<and> r = (if overdrawn (accs_of (sg # segs)) then None
       else Some (cnt + word_of_nat (length (accs_of (sg # segs))), m + bank_money (sg # segs)))"
  have rest: "yields k V0 ro R ?Q (case r of None \<Rightarrow> return None s
      | Some money \<Rightarrow> tbind (shared_read tm (q + 8) s) (\<lambda>here s.
          long_segments tm here (cnt + word_of_nat (length accs)) money s))"
    if s: "at_point (Suc (k + long_cost segs)) V0 ro V e s"
      and r: "r = (if overdrawn accs then None else Some (m + par + sum_list accs))" for r s
  proof (cases "overdrawn accs")
    case True
    with r s show ?thesis by (auto simp: sg intro!: at_return)
  next
    case False
    then have some: "r = Some (m + par + sum_list accs)" using r by simp
    show ?thesis unfolding some option.case
      by (rule at_read [where R = R, OF s assms(2) b(8) assms(3)], rule yields_mono [OF Cons.IH [OF _ b(9)] order.refl])
        (use False in \<open>auto simp: sg algebra_simps\<close>)
  qed
  have accs: "yields (Suc (k + long_cost segs)) V0 ro R
      (\<lambda>r V' e'. V' = V \<and> e' = e \<and> r = (if overdrawn accs then None else Some (m + par + sum_list accs)))
      (long_accounts tm (q + 24) (word_of_nat (length accs)) 0 (m + par) s)"
    if "at_point (Suc (k + long_cost segs) + length accs) V0 ro V e s" for s
    using long_accounts_yields [of "Suc (k + long_cost segs)" accs 0 V0 ro V e s tm R q "m + par"]
      that assms(2,3) b(7) len by (simp split del: if_split cong: if_cong)
  show ?case
    by (subst long_segments.simps, simp only: b(1,2) if_True simp_thms account_segment_simps tbind_simps
        segment_view.simps shared_ptr_simps)
      (rule at_read [where R = R, OF s0 assms(2) b(5) assms(3)],
       rule at_read [where R = R, OF _ assms(2) b(6) assms(3)], assumption,
       rule at_bind [OF accs], use rest in auto)
qed

lemma long_body_yields:
  assumes "at_point (k + long_cost segs) V0 ro V e s" and "tl (b_tm b) = L" and "R e"
    and "bank_list nb (aw V) (start_addr (b_tm b)) segs"
  shows "yields k V0 ro R
    (\<lambda>r V' e'. V' = V \<and> (if overdrawn (accs_of segs) then \<not> r
       else r = (bank_money segs = init_balance b * word_of_nat (length (accs_of segs))) \<and>
         e' = word_of_nat (length (accs_of segs))))
    (long_body b s)"
  unfolding long_body_def
proof (rule at_bind [OF long_segments_yields [where R = R, OF assms]])
  fix r :: "(csize \<times> 64 word) option" and V' e' s'
  assume s': "at_point k V0 ro V' e' s'" and "V' = V \<and> e' = e \<and>
      r = (if overdrawn (accs_of segs) then None
        else Some (0 + word_of_nat (length (accs_of segs)), 0 + bank_money segs))"
  then show "yields k V0 ro R
    (\<lambda>r V' e'. V' = V \<and> (if overdrawn (accs_of segs) then \<not> r
       else r = (bank_money segs = init_balance b * word_of_nat (length (accs_of segs))) \<and>
         e' = word_of_nat (length (accs_of segs))))
    (case r of None \<Rightarrow> return False s'
     | Some (count, money) \<Rightarrow> return (money = init_balance b * count) (s'\<lparr>s_env := count\<rparr>))"
    using at_env [OF s'] by (auto intro: at_return)
qed simp

end

section \<open>The short transaction\<close>

text \<open>One step of a search: the pointer and the number of the account left to look for.\<close>

definition step_ptr :: "addr \<Rightarrow> csize \<Rightarrow> addr \<Rightarrow> csize \<Rightarrow> addr" where
  "step_ptr q n ptr i = (if ptr \<noteq> NULL then ptr else if i < n then acc_addr q (unat i) else NULL)"

definition step_id :: "csize \<Rightarrow> addr \<Rightarrow> csize \<Rightarrow> csize" where
  "step_id n ptr i = (if ptr = NULL \<and> \<not> i < n then i - n else i)"

lemma find_account_step:
  "find_account tm \<lparr>seg_count = q, seg_next = q + 8, seg_parity = q + 16, seg_accounts = q + 24\<rparr>
     n i set_id ptr other s =
   return (step_ptr q n ptr i, ptr = NULL \<and> i < n \<and> other \<noteq> NULL)
     (s\<lparr>s_env := (if ptr = NULL \<and> \<not> i < n then set_id (i - n) (s_env s) else s_env s)\<rparr>)"
  by (simp add: find_account_def step_ptr_def elem_def acc_addr_def)

definition find_res :: "addr \<Rightarrow> bseg list \<Rightarrow> nat \<Rightarrow> addr option" where
  "find_res ptr segs i = (if ptr \<noteq> NULL then Some ptr else locate segs i)"

lemma find_res_step:
  assumes "bank_list nb w p ((q, par, accs) # segs)"
  shows "find_res ptr ((q, par, accs) # segs) (unat i) =
    find_res (step_ptr q (word_of_nat (length accs)) ptr i) segs
      (unat (step_id (word_of_nat (length accs)) ptr i))"
    and "ptr = NULL \<Longrightarrow> i < word_of_nat (length accs) \<Longrightarrow> step_ptr q (word_of_nat (length accs)) ptr i \<noteq> NULL"
proof -
  have n: "unat (word_of_nat (length accs) :: csize) = length accs"
    using assms by (intro unat_small) simp
  have "i < word_of_nat (length accs) \<longleftrightarrow> unat i < length accs"
    using n by (simp add: word_less_nat_alt)
  moreover have "acc_addr q (unat i) \<noteq> NULL" if "unat i < length accs"
    using locate_value [OF assms, of "unat i" "acc_addr q (unat i)"] that by simp
  moreover have "unat (i - word_of_nat (length accs)) = unat i - length accs" if "\<not> unat i < length accs"
    using that n by (simp add: unat_sub word_le_nat_alt)
  ultimately show "find_res ptr ((q, par, accs) # segs) (unat i) =
    find_res (step_ptr q (word_of_nat (length accs)) ptr i) segs
      (unat (step_id (word_of_nat (length accs)) ptr i))"
    and "ptr = NULL \<Longrightarrow> i < word_of_nat (length accs) \<Longrightarrow> step_ptr q (word_of_nat (length accs)) ptr i \<noteq> NULL"
    by (auto simp: find_res_def step_ptr_def step_id_def)
qed

text \<open>One unit goes from account \<open>i\<close> to account \<open>j\<close>, if there is one.\<close>

definition paid :: "bseg list \<Rightarrow> nat \<Rightarrow> nat \<Rightarrow> bseg list" where
  "paid segs i j =
     (if 0 < sint (accs_of segs ! i)
      then let segs = upd_acc segs i (accs_of segs ! i - 1) in
        upd_acc segs j (accs_of segs ! j + 1)
      else segs)"

lemma accs_paid:
  "accs_of (paid segs i j) =
     (if 0 < sint (accs_of segs ! i)
      then (accs_of segs)[i := accs_of segs ! i - 1,
                          j := (accs_of segs)[i := accs_of segs ! i - 1] ! j + 1]
      else accs_of segs)"
  by (simp add: paid_def Let_def accs_upd)

lemma paid_simps [simp]:
  "parity_of (paid segs i j) = parity_of segs" "bank_words nb (paid segs i j) = bank_words nb segs"
  "length (accs_of (paid segs i j)) = length (accs_of segs)" "map fst (paid segs i j) = map fst segs"
  by (simp_all add: paid_def Let_def accs_upd)

lemma sum_list_upd:
  fixes xs :: "64 word list"
  shows "i < length xs \<Longrightarrow> sum_list (xs[i := x]) = sum_list xs - xs ! i + x"
proof (induction xs arbitrary: i)
  case (Cons a xs)
  then show ?case by (cases i) (simp_all add: algebra_simps)
qed simp

text \<open>A transfer neither creates nor destroys money, and overdraws nobody.\<close>

lemma paid_money:
  "i < length (accs_of segs) \<Longrightarrow> j < length (accs_of segs) \<Longrightarrow> bank_money (paid segs i j) = bank_money segs"
  by (simp add: bank_money_def accs_paid sum_list_upd)

lemma sint_bounds: "- (2 ^ 63) \<le> sint (x :: 64 word)" "sint x < 2 ^ 63"
  using sint_ge [of x] sint_lt [of x] by simp_all

lemma sint_pred: "0 < sint x \<Longrightarrow> sint (x - 1 :: 64 word) = sint x - 1"
  using sint_bounds [of x] by (simp add: sint_word_ariths signed_take_bit_int_eq_self)

lemma sint_succ: "sint x < 2 ^ 63 - 1 \<Longrightarrow> sint (x + 1 :: 64 word) = sint x + 1"
  using sint_bounds [of x] by (simp add: sint_word_ariths signed_take_bit_int_eq_self)

lemma overdrawn_nth: "overdrawn xs \<longleftrightarrow> (\<exists>i < length xs. sint (xs ! i) < 0)"
  by (simp add: overdrawn_def list_ex_length)

lemma paid_overdrawn:
  assumes "\<not> overdrawn (accs_of segs)" and "i < length (accs_of segs)" and "j < length (accs_of segs)"
    and "sint (accs_of segs ! j) < 2 ^ 63 - 1"
  shows "\<not> overdrawn (accs_of (paid segs i j))"
proof -
  let ?A = "accs_of segs"
  have pos: "0 \<le> sint (?A ! k)" if "k < length ?A" for k
    using assms(1) that unfolding overdrawn_nth by (meson not_less)
  have "0 \<le> sint (accs_of (paid segs i j) ! k)" if k: "k < length ?A" for k
  proof (cases "0 < sint (?A ! i)")
    case True
    have "0 \<le> sint (?A ! i - 1)" "0 \<le> sint (?A ! j + 1)"
      using sint_pred [OF True] True sint_succ [OF assms(4)] pos [OF assms(3)] by simp_all
    moreover have "accs_of (paid segs i j) ! k =
        (if k = j then if i = j then ?A ! i else ?A ! j + 1 else if k = i then ?A ! i - 1 else ?A ! k)"
      using True assms(2,3) k by (simp add: accs_paid nth_list_update)
    ultimately show ?thesis using pos assms(2,3) k by simp
  next
    case False
    with k show ?thesis by (simp add: accs_paid pos)
  qed
  then show ?thesis by (auto simp: overdrawn_nth not_less [symmetric])
qed

text \<open>Both accounts, or nothing.\<close>

definition found :: "addr option \<Rightarrow> addr option \<Rightarrow> (addr \<times> addr) option" where
  "found x y = (case x of None \<Rightarrow> None | Some a \<Rightarrow> (case y of None \<Rightarrow> None | Some b \<Rightarrow> Some (a, b)))"

lemma found_simps [simp]: "found None y = None" "found x None = None" "found (Some a) (Some b) = Some (a, b)"
  by (simp_all add: found_def split: option.split)

context stm
begin

lemma short_find_yields:
  assumes "at_point (k + 2 * length segs) V0 ro V (i, j) s" and "tl tm = L"
    and "bank_list nb (aw V) p segs" and "p \<noteq> NULL" and "ps = NULL \<or> pr = NULL"
  shows "yields k V0 ro (\<lambda>_. True)
    (\<lambda>r V' e. V' = V \<and> r = found (find_res ps segs (unat i)) (find_res pr segs (unat j)))
    (short_find tm ps pr p s)"
  using assms(1,3-)
proof (induction segs arbitrary: p ps pr i j s)
  case (Cons sg segs)
  obtain q par accs where sg: "sg = (q, par, accs)" by (cases sg) auto
  let ?n = "word_of_nat (length accs) :: csize"
  let ?ps = "step_ptr q ?n ps i" and ?pr = "step_ptr q ?n pr j"
  let ?i = "step_id ?n ps i" and ?j = "step_id ?n pr j"
  let ?sg = "\<lparr>seg_count = q, seg_next = q + 8, seg_parity = q + 16, seg_accounts = q + 24\<rparr>"
  obtain nx where b: "p = q" "q \<noteq> NULL" "aw V q = Some ?n" "aw V (q + 8) = Some nx" "bank_list nb (aw V) nx segs"
    using Cons.prems(2) by (auto simp: sg)
  note res = find_res_step [OF Cons.prems(2) [unfolded sg]]
  let ?Q = "\<lambda>r V' e. V' = V \<and> r = found (find_res ps (sg # segs) (unat i)) (find_res pr (sg # segs) (unat j))"
  let ?found = "found (find_res ps (sg # segs) (unat i)) (find_res pr (sg # segs) (unat j))"
  have F: "?found = found (find_res ?ps segs (unat ?i)) (find_res ?pr segs (unat ?j))"
    using res(1) by (simp add: sg)
  then have Q: "?Q = (\<lambda>r V' e. V' = V \<and> r = found (find_res ?ps segs (unat ?i)) (find_res ?pr segs (unat ?j)))"
    by simp
  have s0: "at_point (Suc (Suc (k + 2 * length segs))) V0 ro V (i, j) s" using Cons.prems(1) by simp
  have tail: "yields k V0 ro (\<lambda>_. True) ?Q (tbind (shared_read tm (q + 8) t) (\<lambda>here s.
      if here = NULL then return None s else short_find tm ?ps ?pr here s))"
    if t: "at_point (Suc (k + 2 * length segs)) V0 ro V (?i, ?j) t" and one: "?ps = NULL \<or> ?pr = NULL" for t
  proof (rule at_read [OF t assms(2) b(4)])
    fix t' assume t': "at_point (k + 2 * length segs) V0 ro V (?i, ?j) t'"
    show "yields k V0 ro (\<lambda>_. True) ?Q (if nx = NULL then return None t' else short_find tm ?ps ?pr nx t')"
    proof (cases "nx = NULL")
      case True
      then have "segs = []" using b(5) by (cases segs) auto
      with True t' one show ?thesis unfolding Q
        by (auto simp: find_res_def intro!: at_return)
    next
      case False
      then show ?thesis unfolding Q using Cons.IH [OF t' b(5) False one] by simp
    qed
  qed simp_all
  have go: "yields k V0 ro (\<lambda>_. True) ?Q (tbind (find_account tm ?sg ?n (fst (s_env t)) (\<lambda>i e. (i, snd e)) ps pr t) (\<lambda>r s.
       if snd r then return (Some (fst r, pr)) s
       else tbind (find_account tm ?sg ?n (snd (s_env s)) (\<lambda>i e. (fst e, i)) pr (fst r) s) (\<lambda>q' s.
         if snd q' then return (Some (fst r, fst q')) s
         else tbind (shared_read tm (q + 8) s) (\<lambda>here s.
           if here = NULL then return None s else short_find tm (fst r) (fst q') here s))))"
    if t: "at_point (Suc (k + 2 * length segs)) V0 ro V (i, j) t" for t
  proof -
    have e: "s_env t = (i, j)" using t by (simp add: at_point_def)
    have t1: "t\<lparr>s_env := (if ps = NULL \<and> \<not> i < ?n then (i - ?n, j) else (i, j))\<rparr> = t\<lparr>s_env := (?i, j)\<rparr>"
      by (simp add: step_id_def)
    have t2: "t\<lparr>s_env := (?i, j)\<rparr>\<lparr>s_env := (if pr = NULL \<and> \<not> j < ?n then (?i, j - ?n) else (?i, j))\<rparr>
        = t\<lparr>s_env := (?i, ?j)\<rparr>"
      by (simp add: step_id_def)
    have at1: "at_point (Suc (k + 2 * length segs)) V0 ro V (?i, j) (t\<lparr>s_env := (?i, j)\<rparr>)"
      and at2: "at_point (Suc (k + 2 * length segs)) V0 ro V (?i, ?j) (t\<lparr>s_env := (?i, ?j)\<rparr>)"
      using at_env [OF t] by simp_all
    have first: "Some (?ps, pr) = ?found" if "ps = NULL \<and> i < ?n \<and> pr \<noteq> NULL"
      unfolding F using that res(2) [of ps i] by (simp add: find_res_def step_ptr_def)
    have both: "Some (?ps, ?pr) = ?found" if "pr = NULL \<and> j < ?n \<and> ?ps \<noteq> NULL"
      unfolding F using that res(2) [of pr j] by (simp add: find_res_def)
    have one: "?ps = NULL \<or> ?pr = NULL"
      if "\<not> (ps = NULL \<and> i < ?n \<and> pr \<noteq> NULL)" "\<not> (pr = NULL \<and> j < ?n \<and> ?ps \<noteq> NULL)"
      using that Cons.prems(4) by (auto simp: step_ptr_def split: if_splits)
    let ?c1 = "ps = NULL \<and> i < ?n \<and> pr \<noteq> NULL" and ?c2 = "pr = NULL \<and> j < ?n \<and> ?ps \<noteq> NULL"
    have env: "s_env (t\<lparr>s_env := (?i, j)\<rparr>) = (?i, j)" by simp
    consider "?c1" | "\<not> ?c1" "?c2" | "\<not> ?c1" "\<not> ?c2" by blast
    then show ?thesis
    proof cases
      case 1
      show ?thesis
        by (simp only: e find_account_step tbind_simps fst_conv snd_conv t1 eqTrueI [OF 1] if_True)
          (rule at_return [OF at1], use first 1 in auto)
    next
      case 2
      show ?thesis
        by (simp only: e find_account_step tbind_simps fst_conv snd_conv t1 env t2 2(1) eqTrueI [OF 2(2)]
            if_True if_False)
          (rule at_return [OF at2], use both 2 in auto)
    next
      case 3
      show ?thesis
        by (simp only: e find_account_step tbind_simps fst_conv snd_conv t1 env t2 3 if_False)
          (rule tail [OF at2 one [OF 3]])
    qed
  qed
  show ?case
    by (subst short_find.simps, simp only: b(1) account_segment_simps tbind_simps segment_view.simps
        shared_ptr_simps)
      (rule at_read [OF s0 assms(2) b(3)], use go in auto)
qed simp

lemma transfer_yields:
  assumes "at_point (k + 4) V0 False V e s" and "tl tm = L" and "R e"
    and "bank_list nb (aw V) p segs" and "distinct (bank_words nb segs)"
    and "locate segs i = Some a" and "locate segs j = Some c"
  shows "yields k V0 False R
    (\<lambda>_ V' e'. e' = e \<and> asg V' = asg V \<and> bank_list nb (aw V') p (paid segs i j))
    (transfer tm a c s)"
proof -
  let ?x = "accs_of segs ! i"
  let ?segs = "upd_acc segs i (?x - 1)" and ?V = "am_write a (?x - 1) V"
  let ?y = "accs_of ?segs ! j"
  have x: "aw V a = Some ?x" using locate_value [OF assms(4,6)] by simp
  have V1: "bank_list nb (aw ?V) p ?segs"
    using bank_list_upd [OF assms(4-6)] by (simp add: am_write_def)
  have c1: "locate ?segs j = Some c" using assms(7) by simp
  have y: "aw ?V c = Some ?y" using locate_value [OF V1 c1] by simp
  have V2: "bank_list nb (aw (am_write c (?y + 1) ?V)) p (upd_acc ?segs j (?y + 1))"
    using bank_list_upd [OF V1 _ c1, of "?y + 1"] assms(5) by (simp add: am_write_def)
  have s0: "at_point (Suc (k + 3)) V0 False V e s" using assms(1) by (simp add: eval_nat_numeral)
  have w: "aw V a \<noteq> None" "aw ?V c \<noteq> None" using x y by simp_all
  let ?Q = "\<lambda>_ V' e'. e' = e \<and> asg V' = asg V \<and> bank_list nb (aw V') p (paid segs i j)"
  have pay: "yields k V0 False R ?Q (tbind (shared_write tm a (?x - 1) t) (\<lambda>_ s.
      tbind (shared_read tm c s) (\<lambda>v s. shared_write tm c (v + 1) s)))"
    if t: "at_point (Suc (Suc (Suc k))) V0 False V e t" and pos: "0 < sint ?x" for t
  proof (rule at_write [where R = R, OF t assms(2) w(1) assms(3)])
    fix t1 assume t1: "at_point (Suc (Suc k)) V0 False ?V e t1"
    have Q: "?Q () (am_write c (?y + 1) ?V) e"
      using V2 pos by (simp add: paid_def Let_def am_write_def)
    show "yields k V0 False R ?Q (tbind (shared_read tm c t1) (\<lambda>v s. shared_write tm c (v + 1) s))"
      by (rule at_read [where R = R, OF t1 assms(2) y assms(3)],
          rule at_last_write [where R = R, OF _ assms(2) w(2) assms(3)], assumption, rule Q) simp_all
  qed simp
  show ?thesis
    unfolding transfer_def shared_ctor_simps tbind_simps
  proof (rule at_read [where R = R, OF s0 assms(2) x assms(3)])
    fix t assume t: "at_point (k + 3) V0 False V e t"
    then have t': "at_point (Suc (Suc (Suc k))) V0 False V e t" by (simp add: eval_nat_numeral)
    show "yields k V0 False R ?Q (if 0 < sint ?x then tbind (shared_write tm a (?x - 1) t) (\<lambda>_ s.
      tbind (shared_read tm c s) (\<lambda>v s. shared_write tm c (v + 1) s)) else return () t)"
      using pay [OF t'] t assms(4) by (auto simp: paid_def intro: at_return)
  qed simp
qed

lemma short_body_yields:
  assumes "at_point (k + 4 + 2 * length segs) V0 False V (i, j) s" and "tl (b_tm b) = L"
    and "bank_list nb (aw V) (start_addr (b_tm b)) segs" and "segs \<noteq> []" and "distinct (bank_words nb segs)"
  shows "yields k V0 False (\<lambda>_. True) (\<lambda>r V' e.
      if unat i < length (accs_of segs) \<and> unat j < length (accs_of segs)
      then r \<and> asg V' = asg V \<and> bank_list nb (aw V') (start_addr (b_tm b)) (paid segs (unat i) (unat j))
      else \<not> r \<and> V' = V)
    (short_body b s)"
  unfolding short_body_def
proof (rule at_bind)
  let ?p = "start_addr (b_tm b)" and ?tm = "b_tm b"
  have "?p \<noteq> NULL" using assms(3,4) by (cases segs) auto
  with assms(1) show "yields (k + 4) V0 False (\<lambda>_. True)
      (\<lambda>r V' e. V' = V \<and> r = found (find_res NULL segs (unat i)) (find_res NULL segs (unat j)))
      (short_find ?tm NULL NULL ?p s)"
    using short_find_yields [of "k + 4" segs V0 False V i j s ?tm nb ?p NULL NULL] assms(2,3) by simp
  fix r :: "(addr \<times> addr) option" and V' e s'
  assume s': "at_point (k + 4) V0 False V' e s'"
    and r: "V' = V \<and> r = found (find_res NULL segs (unat i)) (find_res NULL segs (unat j))"
  let ?Q = "\<lambda>r V' e.
      if unat i < length (accs_of segs) \<and> unat j < length (accs_of segs)
      then r \<and> asg V' = asg V \<and> bank_list nb (aw V') ?p (paid segs (unat i) (unat j))
      else \<not> r \<and> V' = V"
  show "yields k V0 False (\<lambda>_. True) ?Q (case r of None \<Rightarrow> return False s'
       | Some (send_ptr, recv_ptr) \<Rightarrow> tbind (transfer ?tm send_ptr recv_ptr s') (\<lambda>_ s. return True s))"
  proof (cases "unat i < length (accs_of segs) \<and> unat j < length (accs_of segs)")
    case True
    then obtain a c where ac: "locate segs (unat i) = Some a" "locate segs (unat j) = Some c"
      using locate_None [of segs "unat i"] locate_None [of segs "unat j"] by fastforce
    have s1: "at_point (k + 4) V0 False V e s'" using s' r by simp
    have "yields k V0 False (\<lambda>_. True) ?Q (tbind (transfer ?tm a c s') (\<lambda>_ s. return True s))"
      by (rule at_bind [OF transfer_yields [OF s1 assms(2) _ assms(3,5) ac]])
        (use True in \<open>auto intro: at_return\<close>)
    then show ?thesis using r ac by (simp add: find_res_def)
  next
    case False
    then have "r = None" using r locate_None [of segs "unat i"] locate_None [of segs "unat j"]
      by (auto simp: find_res_def not_less)
    then show ?thesis using False s' r by (auto intro!: at_return)
  qed
qed simp

end

end
