(* ===== verification/Bank_Alloc.thy ===== *)
theory Bank_Alloc
  imports Bank_Spec
begin

text \<open>
  The invariant of the bank and the allocating transaction: what it does to the list of
  segments (\<open>alloc_segs\<close>), that this keeps the invariant, and, inside the contract, that the
  closure of \<open>alloc_tx\<close> does it.
\<close>

section \<open>The invariant\<close>

text \<open>
  The shape of the list: disjoint segments, none of them empty, all but the first one dynamic
  segments of the library.
\<close>

definition bank_shape :: "nat \<Rightarrow> 'r bank \<Rightarrow> amem \<Rightarrow> bseg list \<Rightarrow> bool" where
  "bank_shape nb b V segs \<longleftrightarrow>
     nbaccounts b = word_of_nat nb \<and> 0 < nb \<and> segs \<noteq> [] \<and>
     bank_list nb (aw V) (start_addr (b_tm b)) segs \<and> distinct (bank_words nb segs) \<and>
     (\<forall>sg \<in> set segs. snd (snd sg) \<noteq> []) \<and> (\<forall>sg \<in> set (drop 1 segs). asg V (fst sg) = Some (3 + nb))"

text \<open>No money was created or destroyed, and no account is overdrawn.\<close>

definition balanced :: "64 word \<Rightarrow> bseg list \<Rightarrow> bool" where
  "balanced ib segs \<longleftrightarrow> bank_money segs = ib * word_of_nat (length (accs_of segs)) \<and> \<not> overdrawn (accs_of segs)"

lemma words_at_length [simp]: "length (words_at q n) = n"
  by (simp add: words_at_def)

lemma bank_list_length: "bank_list nb w p segs \<Longrightarrow> length (accs_of segs) \<le> nb * length segs"
  by (induction segs arbitrary: p) (auto, fastforce)

lemma bank_words_length: "length (bank_words nb segs) = (3 + nb) * length segs"
  by (induction segs) auto

text \<open>The number of accounts fits a machine word, since their addresses are different.\<close>

lemma accs_length:
  assumes "bank_list nb w p segs" and "distinct (bank_words nb segs)" and "segs \<noteq> []"
  shows "length (accs_of segs) < 2 ^ 64"
proof -
  have "length (bank_words nb segs) = card (set (bank_words nb segs))"
    using assms(2) by (simp add: distinct_card)
  also have "\<dots> \<le> card (UNIV :: addr set)" by (rule card_mono) auto
  finally have "(3 + nb) * length segs \<le> 2 ^ 64" by (simp add: bank_words_length card_word)
  moreover have "nb * length segs < (3 + nb) * length segs" using assms(3) by simp
  ultimately show ?thesis using bank_list_length [OF assms(1)] by linarith
qed

lemma bank_words_used: "bank_list nb w p segs \<Longrightarrow> a \<in> set (bank_words nb segs) \<Longrightarrow> w a \<noteq> None"
proof (induction segs arbitrary: p)
  case (Cons sg segs)
  obtain q par accs where sg: "sg = (q, par, accs)" by (cases sg) auto
  have "w a \<noteq> None" if a: "a \<in> set (words_at q (3 + nb))"
  proof -
    obtain i where i: "i < 3 + nb" "a = q + 8 * word_of_nat i" using a by (auto simp: words_at_def)
    have "i = 3 + (i - 3) \<and> i - 3 < nb" if "\<not> i < 3" using i(1) that by arith
    then consider "i = 0" | "i = 1" | "i = 2" | k where "i = 3 + k" "k < nb" by force
    then show ?thesis
      using Cons.prems(1) i by cases (auto simp: sg acc_addr_def add.assoc)
  qed
  with Cons show ?case by (auto simp: sg)
qed simp

text \<open>The end of the list is replaced, its beginning is untouched.\<close>

lemma bank_list_suffix: "bank_list nb w p (front @ (q, par, accs) # segs) \<Longrightarrow> bank_list nb w q ((q, par, accs) # segs)"
  by (induction front arbitrary: p) auto

lemma bank_list_tail:
  "bank_list nb w p (front @ (q, par, accs) # segs) \<Longrightarrow> bank_list nb w' q segs' \<Longrightarrow>
   (\<And>a. a \<in> set (bank_words nb front) \<Longrightarrow> w' a = w a) \<Longrightarrow> bank_list nb w' p (front @ segs')"
proof (induction front arbitrary: p)
  case (Cons sg front)
  obtain r par' accs' where sg: "sg = (r, par', accs')" by (cases sg) auto
  obtain nx where nx: "w (r + 8) = Some nx" "bank_list nb w nx (front @ (q, par, accs) # segs)"
    using Cons.prems(1) by (auto simp: sg)
  have IH: "bank_list nb w' nx (front @ segs')"
    by (rule Cons.IH [OF nx(2) Cons.prems(2)]) (simp add: Cons.prems(3) sg)
  have same: "w' (r + 8 * word_of_nat i) = w (r + 8 * word_of_nat i)" if "i < 3 + nb" for i
    using Cons.prems(3) word_in [OF that] by (simp add: sg)
  have "w' (acc_addr r i) = w (acc_addr r i)" if "i < nb" for i
    unfolding acc_addr_word using same [of "3 + i"] that by simp
  with same [of 0] same [of 1] same [of 2] Cons.prems(1) nx(1) IH show ?case
    by (auto simp: sg)
qed simp

section \<open>What the transaction does to the list\<close>

text \<open>
  With more accounts than \<open>trigger\<close> (and more than two) the last account goes, and with it its
  segment if it was alone there, its money into a parity; otherwise an account is added, in a
  segment of its own at \<open>p\<close> when the last one is full.
\<close>

definition alloc_segs :: "nat \<Rightarrow> 64 word \<Rightarrow> nat \<Rightarrow> addr \<Rightarrow> bseg list \<Rightarrow> bseg list" where
  "alloc_segs nb ib trigger p segs =
     (case last segs of (q, par, accs) \<Rightarrow>
        if trigger < length (accs_of segs) \<and> 2 < length (accs_of segs)
        then if 1 < length accs then butlast segs @ [(q, par + last accs - ib, butlast accs)]
             else case last (butlast segs) of (q', par', accs') \<Rightarrow>
               butlast (butlast segs) @ [(q', par' + (par + last accs - ib), accs')]
        else if length accs < nb then butlast segs @ [(q, par, accs @ [ib])]
        else segs @ [(p, 0, [ib])])"

lemma bank_money_append [simp]: "bank_money (xs @ ys) = bank_money xs + bank_money ys"
  by (simp add: bank_money_def algebra_simps)

lemma sum_list_butlast:
  fixes xs :: "64 word list"
  shows "xs \<noteq> [] \<Longrightarrow> sum_list (butlast xs) = sum_list xs - last xs"
  by (induction xs) auto

lemma overdrawn_butlast: "\<not> overdrawn xs \<Longrightarrow> \<not> overdrawn (butlast xs)"
  by (auto simp: overdrawn_def list_ex_iff dest: in_set_butlastD)

text \<open>
  An empty last segment is merged into the one before it; there is one, as soon as there are
  more than two accounts.
\<close>

lemma alloc_segs_cases:
  assumes "segs \<noteq> []" and "\<forall>sg \<in> set segs. snd (snd sg) \<noteq> []"
  obtains (shrink) front q par accs x where
      "segs = front @ [(q, par, accs @ [x])]" "accs \<noteq> []" "trigger < length (accs_of segs)" "2 < length (accs_of segs)"
      "alloc_segs nb ib trigger p segs = front @ [(q, par + x - ib, accs)]"
  | (merge) front q' par' accs' q par x where
      "segs = front @ [(q', par', accs'), (q, par, [x])]" "trigger < length (accs_of segs)" "2 < length (accs_of segs)"
      "alloc_segs nb ib trigger p segs = front @ [(q', par' + (par + x - ib), accs')]"
  | (grow) front q par accs where
      "segs = front @ [(q, par, accs)]" "\<not> (trigger < length (accs_of segs) \<and> 2 < length (accs_of segs))" "length accs < nb"
      "alloc_segs nb ib trigger p segs = front @ [(q, par, accs @ [ib])]"
  | (extend) front q par accs where
      "segs = front @ [(q, par, accs)]" "\<not> (trigger < length (accs_of segs) \<and> 2 < length (accs_of segs))" "\<not> length accs < nb"
      "alloc_segs nb ib trigger p segs = front @ [(q, par, accs), (p, 0, [ib])]"
proof -
  obtain front q par accs where segs: "segs = front @ [(q, par, accs)]"
    using assms(1) by (metis rev_exhaust prod.exhaust)
  show thesis
  proof (cases "trigger < length (accs_of segs) \<and> 2 < length (accs_of segs)")
    case cut: True
    obtain accs0 x where accs: "accs = accs0 @ [x]" using assms(2) segs by (metis rev_exhaust in_set_conv_decomp snd_conv)
    show thesis
    proof (cases accs0)
      case Nil
      then have "front \<noteq> []" using cut segs accs by auto
      then obtain front0 q' par' accs' where "front = front0 @ [(q', par', accs')]"
        by (metis rev_exhaust prod.exhaust)
      then show thesis using merge [of front0 q' par' accs' q par x] cut segs accs Nil
        by (simp add: alloc_segs_def butlast_append)
    next
      case Cons
      then show thesis using shrink [of front q par accs0 x] cut segs accs by (auto simp: alloc_segs_def)
    qed
  next
    case False
    then show thesis using grow [of front q par accs] extend [of front q par accs] segs
      by (cases "length accs < nb") (auto simp: alloc_segs_def)
  qed
qed

lemma alloc_segs_balanced:
  assumes "balanced ib segs" and "segs \<noteq> []" and "\<forall>sg \<in> set segs. snd (snd sg) \<noteq> []" and "0 \<le> sint ib"
  shows "balanced ib (alloc_segs nb ib trigger p segs)"
  using assms(2,3)
  by (cases rule: alloc_segs_cases [where nb = nb and ib = ib and trigger = trigger and p = p])
    (use assms(1,4) in \<open>auto simp: balanced_def algebra_simps\<close>)

lemma alloc_segs_length:
  assumes "segs \<noteq> []" and "\<forall>sg \<in> set segs. snd (snd sg) \<noteq> []"
  shows "length (accs_of (alloc_segs nb ib trigger p segs)) =
    (if trigger < length (accs_of segs) \<and> 2 < length (accs_of segs) then length (accs_of segs) - 1
     else length (accs_of segs) + 1)"
  using assms
  by (cases rule: alloc_segs_cases [where nb = nb and ib = ib and trigger = trigger and p = p]) auto

section \<open>The four ways to write it\<close>

lemma not_in_front:
  assumes "distinct (bank_words nb (front @ (q, par, accs) # segs))" and "a \<in> set (words_at q (3 + nb))"
  shows "a \<notin> set (bank_words nb front)" and "a \<notin> set (bank_words nb segs)"
  using assms by auto

lemma header_in: "q \<in> set (words_at q (3 + nb))" "q + 8 \<in> set (words_at q (3 + nb))" "q + 16 \<in> set (words_at q (3 + nb))"
  using word_in [of 0 "3 + nb" q] word_in [of 1 "3 + nb" q] word_in [of 2 "3 + nb" q] by simp_all

lemma head_in: "sg \<in> set segs \<Longrightarrow> fst sg \<in> set (bank_words nb segs)"
proof (induction segs)
  case (Cons a segs)
  then show ?case using header_in(1) by (cases a) auto
qed simp

lemma shrink_list:
  assumes "bank_list nb w p (front @ [(q, par, accs @ [x])])"
    and "distinct (bank_words nb (front @ [(q, par, accs @ [x])]))"
  shows "bank_list nb (w(q \<mapsto> word_of_nat (length accs), q + 16 \<mapsto> np)) p (front @ [(q, np, accs)])"
proof (rule bank_list_tail [OF assms(1)])
  have q: "bank_list nb w q [(q, par, accs @ [x])]" using bank_list_suffix [OF assms(1)] .
  then have b: "unat q + 24 + 8 * nb < 2 ^ 64" by simp
  show "bank_list nb (w(q \<mapsto> word_of_nat (length accs), q + 16 \<mapsto> np)) q [(q, np, accs)]"
    using q acc_addr_ne [OF b] by (auto simp: nth_append)
  fix a assume "a \<in> set (bank_words nb front)"
  then have "a \<noteq> q" "a \<noteq> q + 16" using not_in_front(1) [OF assms(2)] header_in by blast+
  then show "(w(q \<mapsto> word_of_nat (length accs), q + 16 \<mapsto> np)) a = w a" by simp
qed

lemma grow_list:
  assumes "bank_list nb w p (front @ [(q, par, accs)])" and "distinct (bank_words nb (front @ [(q, par, accs)]))"
    and "length accs < nb"
  shows "bank_list nb (w(acc_addr q (length accs) \<mapsto> x, q \<mapsto> word_of_nat (length accs) + 1)) p
    (front @ [(q, par, accs @ [x])])"
proof (rule bank_list_tail [OF assms(1)])
  have q: "bank_list nb w q [(q, par, accs)]" using bank_list_suffix [OF assms(1)] .
  then have b: "unat q + 24 + 8 * nb < 2 ^ 64" by simp
  let ?w = "w(acc_addr q (length accs) \<mapsto> x, q \<mapsto> word_of_nat (length accs) + 1)"
  have "?w q = Some (word_of_nat (length accs) + 1)" "?w (q + 8) = w (q + 8)" "?w (q + 16) = w (q + 16)"
    using acc_addr_ne(2,3) [OF b assms(3)] by auto
  moreover have "?w (acc_addr q i) = (if i = length accs then Some x else w (acc_addr q i))" if "i < nb" for i
    using acc_addr_ne(1,4) [OF b that] assms(3) by auto
  ultimately show "bank_list nb ?w q [(q, par, accs @ [x])]"
    using q assms(3) by (simp add: nth_append less_Suc_eq add.commute del: fun_upd_apply)
  fix a assume "a \<in> set (bank_words nb front)"
  then have "a \<noteq> q" "a \<noteq> acc_addr q (length accs)"
    using not_in_front(1) [OF assms(2)] header_in acc_addr_in [OF assms(3)] by blast+
  then show "(w(acc_addr q (length accs) \<mapsto> x, q \<mapsto> word_of_nat (length accs) + 1)) a = w a" by simp
qed

lemma merge_list:
  assumes "bank_list nb w p (front @ [(q', par', accs'), (q, par, accs)])"
    and "distinct (bank_words nb (front @ [(q', par', accs'), (q, par, accs)]))"
    and "\<And>a. a \<notin> set (words_at q (3 + nb)) \<Longrightarrow> a \<noteq> q' + 8 \<Longrightarrow> a \<noteq> q' + 16 \<Longrightarrow> w' a = w a"
    and "w' (q' + 8) = Some NULL" and "w' (q' + 16) = Some np"
  shows "bank_list nb w' p (front @ [(q', np, accs')])"
proof (rule bank_list_tail [OF assms(1)])
  have q: "bank_list nb w q' [(q', par', accs'), (q, par, accs)]" using bank_list_suffix [OF assms(1)] .
  then have b: "unat q' + 24 + 8 * nb < 2 ^ 64" by simp
  have other: "a \<notin> set (words_at q (3 + nb))" if "a \<in> set (words_at q' (3 + nb))" for a
    using not_in_front(2) [OF assms(2) that] by simp
  have "w' (acc_addr q' i) = w (acc_addr q' i)" if "i < nb" for i
    using assms(3) other acc_addr_in [OF that] acc_addr_ne(2,3) [OF b that] by simp
  moreover have "w' q' = w q'" using assms(3) other header_in(1) by simp
  ultimately show "bank_list nb w' q' [(q', np, accs')]" using q assms(4,5) by simp
  fix a assume a: "a \<in> set (bank_words nb front)"
  then have "a \<noteq> q' + 8" "a \<noteq> q' + 16" using not_in_front(1) [OF assms(2)] header_in by blast+
  moreover have "a \<notin> set (words_at q (3 + nb))" using assms(2) a by auto
  ultimately show "w' a = w a" using assms(3) by simp
qed

lemma extend_list:
  assumes "bank_list nb w p (front @ [(q, par, accs)])" and "distinct (bank_words nb (front @ [(q, par, accs)]))"
    and "r \<noteq> NULL" and "unat r + 24 + 8 * nb < 2 ^ 64" and "0 < nb"
    and "\<And>a. a \<in> set (words_at r (3 + nb)) \<Longrightarrow> w a = None"
    and "\<And>a. a \<notin> set (words_at r (3 + nb)) \<Longrightarrow> a \<noteq> q + 8 \<Longrightarrow> w' a = w a"
    and "w' (q + 8) = Some r" and "w' r = Some 1" and "w' (r + 8) = Some NULL" and "w' (r + 16) = Some 0"
    and "w' (acc_addr r 0) = Some x" and "\<And>a. a \<in> set (words_at r (3 + nb)) \<Longrightarrow> w' a \<noteq> None"
  shows "bank_list nb w' p (front @ [(q, par, accs), (r, 0, [x])])"
    and "distinct (bank_words nb (front @ [(q, par, accs), (r, 0, [x])]))"
proof -
  have used: "a \<notin> set (words_at r (3 + nb))" if "a \<in> set (bank_words nb (front @ [(q, par, accs)]))" for a
    using bank_words_used [OF assms(1) that] assms(6) [of a] by auto
  have "distinct (words_at r (3 + nb))"
    using words_inj [OF assms(4)] by (auto simp: words_at_def distinct_map inj_on_def)
  then show "distinct (bank_words nb (front @ [(q, par, accs), (r, 0, [x])]))"
    using assms(2) used by auto
  show "bank_list nb w' p (front @ [(q, par, accs), (r, 0, [x])])"
  proof (rule bank_list_tail [OF assms(1)])
    have q: "bank_list nb w q [(q, par, accs)]" using bank_list_suffix [OF assms(1)] .
    then have b: "unat q + 24 + 8 * nb < 2 ^ 64" by simp
    have "w' (acc_addr q i) = w (acc_addr q i)" if "i < nb" for i
      using assms(7) used acc_addr_in [OF that] acc_addr_ne(2) [OF b that] by simp
    moreover have "w' q = w q" "w' (q + 16) = w (q + 16)" using assms(7) used header_in by simp_all
    moreover have "w' (acc_addr r i) \<noteq> None" if "i < nb" for i using assms(13) acc_addr_in [OF that] by simp
    ultimately show "bank_list nb w' q [(q, par, accs), (r, 0, [x])]"
      using q assms(3-5,8-12) by (simp add: Suc_le_eq)
    fix a assume a: "a \<in> set (bank_words nb front)"
    then have "a \<noteq> q + 8" using not_in_front(1) [OF assms(2)] header_in by blast
    moreover have "a \<notin> set (words_at r (3 + nb))" using used a by simp
    ultimately show "w' a = w a" using assms(7) by simp
  qed
qed

section \<open>The closure does it\<close>

lemma alloc_guard:
  fixes trigger :: csize
  assumes "bank_shape nb b V segs"
  shows "(trigger < word_of_nat (length (accs_of segs)) \<and> 2 < (word_of_nat (length (accs_of segs)) :: csize)) =
    (unat trigger < length (accs_of segs) \<and> 2 < length (accs_of segs))"
proof -
  have "length (accs_of segs) < 2 ^ 64" using assms accs_length unfolding bank_shape_def by blast
  then show ?thesis using unat_small [of "length (accs_of segs)"] by (simp add: word_less_nat_alt)
qed

text \<open>The facts about the last segment that the four cases read.\<close>

lemma last_segment:
  assumes "bank_shape nb b V (front @ [(q, par, accs)])"
  shows "aw V q = Some (word_of_nat (length accs))" "aw V (q + 8) = Some NULL" "aw V (q + 16) = Some par"
    "i < length accs \<Longrightarrow> aw V (acc_addr q i) = Some (accs ! i)" "i < nb \<Longrightarrow> aw V (acc_addr q i) \<noteq> None"
    "unat q + 24 + 8 * nb < 2 ^ 64" "length accs \<le> nb" "q \<noteq> NULL"
proof -
  have "bank_list nb (aw V) q [(q, par, accs)]"
    using assms bank_list_suffix unfolding bank_shape_def by blast
  then show "aw V q = Some (word_of_nat (length accs))" "aw V (q + 8) = Some NULL" "aw V (q + 16) = Some par"
    "i < length accs \<Longrightarrow> aw V (acc_addr q i) = Some (accs ! i)" "i < nb \<Longrightarrow> aw V (acc_addr q i) \<noteq> None"
    "unat q + 24 + 8 * nb < 2 ^ 64" "length accs \<le> nb" "q \<noteq> NULL" by auto
qed

lemma bank_shape_last:
  "bank_shape nb b V (front @ [(q, par, accs)]) \<longleftrightarrow>
     nbaccounts b = word_of_nat nb \<and> 0 < nb \<and>
     bank_list nb (aw V) (start_addr (b_tm b)) (front @ [(q, par, accs)]) \<and>
     distinct (bank_words nb (front @ [(q, par, accs)])) \<and>
     (\<forall>sg \<in> set front. snd (snd sg) \<noteq> []) \<and> accs \<noteq> [] \<and>
     (\<forall>sg \<in> set (drop 1 front). asg V (fst sg) = Some (3 + nb)) \<and> (front \<noteq> [] \<longrightarrow> asg V q = Some (3 + nb))"
  by (cases front) (auto simp: bank_shape_def)

lemmas access_simps = shared_ctor_simps tbind_simps elem_acc segment_view.simps account_segment_simps shared_ptr_simps

context stm
begin

definition alloc_post :: "nat \<Rightarrow> 'b bank \<Rightarrow> csize \<Rightarrow> bseg list \<Rightarrow> amem \<Rightarrow> bool" where
  "alloc_post nb b trigger segs V \<longleftrightarrow>
     (\<exists>p. bank_shape nb b V (alloc_segs nb (init_balance b) (unat trigger) p segs))"

lemma shrink_yields:
  assumes s: "at_point (k + 4) V0 False V e s" and L: "tl (b_tm b) = L" and e: "R e"
    and shape: "bank_shape nb b V (front @ [(q, par, accs @ [x])])" and accs: "accs \<noteq> []"
    and cut: "trigger < count \<and> 2 < count"
  shows "yields k V0 False R
    (\<lambda>_ V' e'. e' = e \<and> bank_shape nb b V' (front @ [(q, par + x - init_balance b, accs)]))
    (alloc_last b trigger \<lparr>seg_count = q, seg_next = q + 8, seg_parity = q + 16, seg_accounts = q + 24\<rparr>
       (word_of_nat (length (accs @ [x]))) prev count s)"
proof -
  let ?np = "par + x - init_balance b" and ?n = "word_of_nat (length accs) :: csize"
  let ?V = "am_write (q + 16) ?np (am_write q ?n V)"
  note last = last_segment [OF shape]
  have n: "word_of_nat (length (accs @ [x])) - 1 = ?n" by simp
  have "length accs < 2 ^ 64" using last(6,7) by simp
  then have pos: "0 < ?n" using accs by (simp add: word_less_nat_alt unat_small)
  have cell: "aw V (acc_addr q (length accs)) = Some x" using last(4) [of "length accs"] by simp
  have "bank_list nb (aw ?V) (start_addr (b_tm b)) (front @ [(q, ?np, accs)])"
    using shrink_list [of nb "aw V" "start_addr (b_tm b)" front q par accs x ?np] shape
    unfolding bank_shape_last by (simp add: am_write_def)
  then have post: "bank_shape nb b ?V (front @ [(q, ?np, accs)])"
    using shape accs unfolding bank_shape_last by (simp add: am_write_def)
  have s': "at_point (Suc (Suc (Suc (Suc k)))) V0 False V e s" using s by (simp add: eval_nat_numeral)
  have w: "aw V q \<noteq> None" "aw (am_write q ?n V) (q + 16) \<noteq> None" using last by (simp_all add: am_write_def)
  show ?thesis
    unfolding alloc_last_def Let_def n
    by (simp only: cut if_True simp_thms pos access_simps)
      (rule at_read [where R = R, OF s' L last(3) e],
       rule at_read [where R = R, OF _ L cell e], assumption,
       rule at_write [where R = R, OF _ L w(1) e], assumption,
       rule at_last_write [where R = R, OF _ L w(2) e], assumption, use post in auto)
qed

lemma grow_yields:
  assumes s: "at_point (k + 2) V0 False V e s" and L: "tl (b_tm b) = L" and e: "R e"
    and shape: "bank_shape nb b V (front @ [(q, par, accs)])" and room: "length accs < nb"
    and cut: "\<not> (trigger < count \<and> 2 < count)"
  shows "yields k V0 False R
    (\<lambda>_ V' e'. e' = e \<and> bank_shape nb b V' (front @ [(q, par, accs @ [init_balance b])]))
    (alloc_last b trigger \<lparr>seg_count = q, seg_next = q + 8, seg_parity = q + 16, seg_accounts = q + 24\<rparr>
       (word_of_nat (length accs)) prev count s)"
proof -
  let ?n = "word_of_nat (length accs) :: csize" and ?a = "acc_addr q (length accs)"
  let ?V = "am_write q (?n + 1) (am_write ?a (init_balance b) V)"
  note last = last_segment [OF shape]
  have "nb < 2 ^ 64" using last(6) by simp
  then have lt: "?n < word_of_nat nb" using room of_nat_less [of "length accs" nb] by simp
  have nb: "nbaccounts b = word_of_nat nb" using shape by (simp add: bank_shape_def)
  have "bank_list nb (aw ?V) (start_addr (b_tm b)) (front @ [(q, par, accs @ [init_balance b])])"
    using grow_list [of nb "aw V" "start_addr (b_tm b)" front q par accs "init_balance b"] shape room
    unfolding bank_shape_last by (simp add: am_write_def)
  then have post: "bank_shape nb b ?V (front @ [(q, par, accs @ [init_balance b])])"
    using shape unfolding bank_shape_last by (simp add: am_write_def)
  have s': "at_point (Suc (Suc k)) V0 False V e s" using s by (simp add: eval_nat_numeral)
  have w: "aw V ?a \<noteq> None" "aw (am_write ?a (init_balance b) V) q \<noteq> None"
    using last(1) last(5) [OF room] by (simp_all add: am_write_def)
  show ?thesis
    unfolding alloc_last_def Let_def nb
    by (simp only: cut if_False if_True lt access_simps)
      (rule at_write [where R = R, OF s' L w(1) e],
       rule at_last_write [where R = R, OF _ L w(2) e], assumption, use post in auto)
qed

lemma merge_yields:
  assumes s: "at_point (k + 7) V0 False V e s" and L: "tl (b_tm b) = L" and e: "R e"
    and shape: "bank_shape nb b V (front @ [(q', par', accs'), (q, par, [x])])"
    and cut: "trigger < count \<and> 2 < count"
  shows "yields k V0 False R
    (\<lambda>_ V' e'. e' = e \<and> bank_shape nb b V' (front @ [(q', par' + (par + x - init_balance b), accs')]))
    (alloc_last b trigger \<lparr>seg_count = q, seg_next = q + 8, seg_parity = q + 16, seg_accounts = q + 24\<rparr>
       1 q' count s)"
proof -
  let ?np = "par + x - init_balance b"
  let ?V1 = "am_write (q' + 8) NULL (am_free q (3 + nb) V)"
  let ?V = "am_write (q' + 16) (par' + ?np) ?V1"
  have shape': "bank_shape nb b V ((front @ [(q', par', accs')]) @ [(q, par, [x])])" using shape by simp
  note last = last_segment [OF shape']
  have lst: "bank_list nb (aw V) (start_addr (b_tm b)) (front @ [(q', par', accs'), (q, par, [x])])"
    and dist: "distinct (bank_words nb (front @ [(q', par', accs'), (q, par, [x])]))"
    and seg: "asg V q = Some (3 + nb)"
    using shape shape' unfolding bank_shape_last by (simp_all add: bank_shape_def)
  have dyn: "\<forall>sg \<in> set (drop 1 front). asg V (fst sg) = Some (3 + nb)" "front \<noteq> [] \<longrightarrow> asg V q' = Some (3 + nb)"
    using shape by (cases front; simp add: bank_shape_def)+
  have nonempty: "\<forall>sg \<in> set front. snd (snd sg) \<noteq> []" "accs' \<noteq> []"
    and nb: "nbaccounts b = word_of_nat nb" "0 < nb"
    using shape by (simp_all add: bank_shape_def)
  have q': "aw V (q' + 8) = Some q" "aw V (q' + 16) = Some par'"
    using bank_list_suffix [OF lst] by auto
  have out: "a \<notin> set (words_at q (3 + nb))" if "a \<in> set (words_at q' (3 + nb))" for a
    using not_in_front(2) [OF dist that] by simp
  have "bank_list nb (aw ?V) (start_addr (b_tm b)) (front @ [(q', par' + ?np, accs')])"
    by (rule merge_list [OF lst dist]) (use out header_in in \<open>simp_all add: am_write_def am_free_def\<close>)
  moreover
  have other: "fst sg \<noteq> q" if "sg \<in> set (front @ [(q', par', accs')])" for sg
  proof -
    have "fst sg \<in> set (bank_words nb (front @ [(q', par', accs')]))"
      using that by (rule head_in)
    then show ?thesis using dist header_in(1) [of q nb] by auto
  qed
  moreover have "\<forall>sg \<in> set (drop 1 front). asg ?V (fst sg) = Some (3 + nb)"
  proof
    fix sg assume sg: "sg \<in> set (drop 1 front)"
    have "fst sg \<noteq> q" using other [of sg] in_set_dropD [OF sg] by simp
    then show "asg ?V (fst sg) = Some (3 + nb)" using dyn(1) sg by (simp add: am_write_def am_free_def)
  qed
  moreover have "front \<noteq> [] \<longrightarrow> asg ?V q' = Some (3 + nb)"
    using dyn other [of "(q', par', accs')"] by (simp add: am_write_def am_free_def)
  moreover have "distinct (bank_words nb (front @ [(q', par' + ?np, accs')]))" using dist by auto
  ultimately have post: "bank_shape nb b ?V (front @ [(q', par' + ?np, accs')])"
    using nonempty nb unfolding bank_shape_last by simp
  have s': "at_point (Suc (Suc (Suc (Suc (Suc (Suc (Suc k))))))) V0 False V e s" using s by (simp add: eval_nat_numeral)
  have cell: "aw V (acc_addr q 0) = Some x" using last(4) [of 0] by simp
  have e0: "elem (q + 24) 0 = acc_addr q 0" using elem_acc [of q 0] by simp
  have r: "aw ?V1 (q' + 16) = Some par'" using q' out header_in(3) by (simp add: am_write_def am_free_def)
  have w: "aw ?V1 (q' + 16) \<noteq> None" using r by simp
  have n: "\<not> (0 :: csize) < 0" "(1 :: csize) - 1 = 0" "assert_mode = False" by (simp_all add: assert_mode_def)
  show ?thesis
    unfolding alloc_last_def Let_def n
    by (simp only: cut if_True if_False simp_thms n access_simps e0)
      (rule at_read [where R = R, OF s' L last(3) e],
       rule at_read [where R = R, OF _ L cell e], assumption,
       rule at_ptr_free [where R = R, OF _ L q'(1) seg out [OF header_in(2)] e], assumption,
       rule at_read [where R = R, OF _ L r e], assumption,
       rule at_last_write [where R = R, OF _ L w e], assumption, use post in auto)
qed

lemma extend_yields:
  assumes s: "at_point (k + 4) V0 False V e s" and L: "tl (b_tm b) = L" and e: "R e"
    and shape: "bank_shape nb b V (front @ [(q, par, accs)])" and full: "\<not> length accs < nb"
    and cut: "\<not> (trigger < count \<and> 2 < count)" and max: "3 + nb \<le> max_words"
  shows "yields k V0 False R
    (\<lambda>_ V' e'. e' = e \<and> (\<exists>p. bank_shape nb b V' (front @ [(q, par, accs), (p, 0, [init_balance b])])))
    (alloc_last b trigger \<lparr>seg_count = q, seg_next = q + 8, seg_parity = q + 16, seg_accounts = q + 24\<rparr>
       (word_of_nat (length accs)) prev count s)"
proof -
  note last = last_segment [OF shape]
  let ?ib = "init_balance b" and ?Q = "\<lambda>_ V' e'. e' = e \<and>
    (\<exists>p. bank_shape nb b V' (front @ [(q, par, accs), (p, 0, [init_balance b])]))"
  have lst: "bank_list nb (aw V) (start_addr (b_tm b)) (front @ [(q, par, accs)])"
    and dist: "distinct (bank_words nb (front @ [(q, par, accs)]))"
    and nb: "nbaccounts b = word_of_nat nb" "0 < nb"
    using shape by (simp_all add: bank_shape_def)
  have len: "length accs = nb" using full last(7) by simp
  have size: "segment_size (word_of_nat nb) = 8 * word_of_nat (3 + nb)"
    by (simp add: segment_size_def algebra_simps)
  have s': "at_point (Suc (Suc (Suc (Suc k)))) V0 False V e s" using s by (simp add: eval_nat_numeral)
  have w: "aw V (q + 8) \<noteq> None" using last by simp
  have bound: "8 * (3 + nb) < 2 ^ 64" using last(6) by simp
  have rest: "yields k V0 False R ?Q (tbind (shared_write (b_tm b) r 1 t) (\<lambda>_ s.
      tbind (return (elem (r + 24) 0) s) (\<lambda>cell s. shared_write (b_tm b) cell ?ib s)))"
    if t: "at_point (Suc (Suc k)) V0 False (am_write (q + 8) r (am_alloc r (3 + nb) V)) e t"
      and fresh: "fresh_block V r (3 + nb)" for r t
  proof -
    let ?V1 = "am_write (q + 8) r (am_alloc r (3 + nb) V)"
    let ?V = "am_write (acc_addr r 0) ?ib (am_write r 1 ?V1)"
    have r: "r \<noteq> NULL" "unat r + 24 + 8 * nb < 2 ^ 64" "asg V r = None"
      and free: "\<And>a. a \<in> set (words_at r (3 + nb)) \<Longrightarrow> aw V a = None"
      using fresh by (simp_all add: fresh_block_def)
    have next_out: "q + 8 \<notin> set (words_at r (3 + nb))" using free last(2) by auto
    have acc: "acc_addr r 0 \<noteq> r" "acc_addr r 0 \<noteq> r + 8" "acc_addr r 0 \<noteq> r + 16"
      using acc_addr_ne(1-3) [OF r(2) nb(2)] by blast+
    have hd: "acc_addr r 0 \<noteq> q + 8" "r \<noteq> q + 8" "r + 8 \<noteq> q + 8" "r + 16 \<noteq> q + 8"
      using acc_addr_in [OF nb(2)] header_in next_out by metis+
    have w1: "aw ?V1 r \<noteq> None" "aw (am_write r 1 ?V1) (acc_addr r 0) \<noteq> None"
      using header_in(1) [of r nb] acc_addr_in [OF nb(2), of r] by (simp_all add: am_write_def am_alloc_def)
    note ext = extend_list [OF lst dist r(1,2) nb(2) free, of "aw ?V" ?ib]
    have "bank_list nb (aw ?V) (start_addr (b_tm b)) (front @ [(q, par, accs), (r, 0, [?ib])])
        \<and> distinct (bank_words nb (front @ [(q, par, accs), (r, 0, [?ib])]))"
      using acc hd header_in [of r nb] acc_addr_in [OF nb(2), of r]
      by (intro conjI ext) (auto simp: am_write_def am_alloc_def)
    moreover have "asg ?V = (asg V)(r \<mapsto> 3 + nb)" by (simp add: am_write_def am_alloc_def)
    ultimately have "bank_shape nb b ?V ((front @ [(q, par, accs)]) @ [(r, 0, [?ib])])"
      using shape r(3) unfolding bank_shape_def by (cases front) auto
    then have post: "?Q () ?V e" by auto
    show ?thesis
      using elem_acc [of r 0] post
      by (intro at_write [where R = R, OF t L w1(1) e])
        (auto intro!: at_last_write [where R = R, OF _ L w1(2) e])
  qed
  have lt: "\<not> (word_of_nat (length accs) :: csize) < word_of_nat nb" using len by simp
  show ?thesis
    unfolding alloc_last_def Let_def nb(1)
    by (simp only: cut if_False lt access_simps size)
      (rule at_ptr_alloc [where R = R, OF s' L w e _ max bound], simp,
       use rest in \<open>auto simp: access_simps\<close>)
qed

lemma alloc_last_yields:
  assumes s: "at_point (k + 7) V0 False V e s" and L: "tl (b_tm b) = L" and e: "R e"
    and shape: "bank_shape nb b V segs" and segs: "segs = front @ [(q, par, accs)]"
    and prev: "prev = (if front = [] then NULL else fst (last front))" and max: "3 + nb \<le> max_words"
  shows "yields k V0 False R (\<lambda>_ V' e'. e' = e \<and> alloc_post nb b trigger segs V')
    (alloc_last b trigger \<lparr>seg_count = q, seg_next = q + 8, seg_parity = q + 16, seg_accounts = q + 24\<rparr>
       (word_of_nat (length accs)) prev (word_of_nat (length (accs_of segs))) s)"
    (is "yields k V0 False R ?Q ?m")
proof -
  let ?t = "unat trigger" and ?ib = "init_balance b" and ?c = "word_of_nat (length (accs_of segs)) :: csize"
  have guard: "(trigger < ?c \<and> 2 < ?c) =
      (?t < length (accs_of segs) \<and> 2 < length (accs_of segs))"
    using alloc_guard [OF shape] .
  have ne: "segs \<noteq> []" "\<forall>sg \<in> set segs. snd (snd sg) \<noteq> []" using shape by (simp_all add: bank_shape_def)
  have s2: "at_point (k + 2) V0 False V e s" and s4: "at_point (k + 4) V0 False V e s"
    using s by (auto intro: at_less)
  from ne show ?thesis
  proof (cases rule: alloc_segs_cases [where nb = nb and ib = ?ib and trigger = ?t and p = 0])
    case (shrink front' q' par' accs' x)
    then have eq: "front' = front" "q' = q" "par' = par" "accs = accs' @ [x]" using segs by auto
    have post: "alloc_segs nb ?ib ?t 0 segs = front @ [(q, par + x - ?ib, accs')]" using shrink(5) eq by simp
    have sh: "bank_shape nb b V (front @ [(q, par, accs' @ [x])])" using shape segs eq by simp
    have cut: "trigger < ?c \<and> 2 < ?c" using guard shrink(3,4) by blast
    show ?thesis unfolding eq(4)
      by (rule yields_mono [OF shrink_yields [where R = R, OF s4 L e sh shrink(2) cut] order.refl])
        (auto simp: alloc_post_def post intro!: exI [of _ 0])
  next
    case (merge front' q' par' accs' q2 par2 x)
    then have eq: "front = front' @ [(q', par', accs')]" "q2 = q" "par2 = par" "accs = [x]" using segs by auto
    have post: "alloc_segs nb ?ib ?t 0 segs = front' @ [(q', par' + (par + x - ?ib), accs')]" using merge(4) eq by simp
    have prv: "prev = q'" using prev eq by simp
    have sh: "bank_shape nb b V (front' @ [(q', par', accs'), (q, par, [x])])" using shape segs eq by simp
    have cut: "trigger < ?c \<and> 2 < ?c" using guard merge(2,3) by blast
    have one: "word_of_nat (length [x]) = (1 :: csize)" by simp
    show ?thesis unfolding eq(4) prv one
      by (rule yields_mono [OF merge_yields [where R = R, OF s L e sh cut] order.refl])
        (auto simp: alloc_post_def post intro!: exI [of _ 0])
  next
    case (grow front' q' par' accs')
    then have eq: "front' = front" "q' = q" "par' = par" "accs' = accs" using segs by auto
    have post: "alloc_segs nb ?ib ?t 0 segs = front @ [(q, par, accs @ [?ib])]" using grow(4) eq by simp
    have sh: "bank_shape nb b V (front @ [(q, par, accs)])" and room: "length accs < nb"
      using shape segs grow(3) eq by simp_all
    have cut: "\<not> (trigger < ?c \<and> 2 < ?c)" using guard grow(2) by blast
    show ?thesis
      by (rule yields_mono [OF grow_yields [where R = R, OF s2 L e sh room cut] order.refl])
        (auto simp: alloc_post_def post intro!: exI [of _ 0])
  next
    case (extend front' q' par' accs')
    then have eq: "front' = front" "q' = q" "par' = par" "accs' = accs" using segs by auto
    have post: "alloc_segs nb ?ib ?t p segs = front @ [(q, par, accs), (p, 0, [?ib])]" for p
      using extend(2,3) segs eq by (auto simp: alloc_segs_def)
    have sh: "bank_shape nb b V (front @ [(q, par, accs)])" and full: "\<not> length accs < nb"
      using shape segs extend(3) eq by simp_all
    have cut: "\<not> (trigger < ?c \<and> 2 < ?c)" using guard extend(2) by blast
    show ?thesis
      by (rule yields_mono [OF extend_yields [where R = R, OF s4 L e sh full cut max] order.refl])
        (auto simp: alloc_post_def post)
  qed
qed

lemma alloc_loop_yields:
  assumes "at_point (k + 7 + 2 * length rest) V0 False V e s" and "tl (b_tm b) = L" and "R e"
    and "bank_shape nb b V segs" and "segs = seen @ rest" and "rest \<noteq> []" and "3 + nb \<le> max_words"
  shows "yields k V0 False R (\<lambda>_ V' e'. e' = e \<and> alloc_post nb b trigger segs V')
    (alloc_loop b trigger (word_of_nat (length (accs_of seen))) (if seen = [] then NULL else fst (last seen))
       (fst (hd rest)) s)"
  using assms(1,5,6)
proof (induction rest arbitrary: seen s)
  case (Cons sg rest)
  obtain q par accs where sg: "sg = (q, par, accs)" by (cases sg) auto
  have "bank_list nb (aw V) q ((q, par, accs) # rest)"
    using assms(4) Cons.prems(2) bank_list_suffix unfolding bank_shape_def sg by blast
  then obtain nx where b: "aw V q = Some (word_of_nat (length accs))" "aw V (q + 8) = Some nx" "bank_list nb (aw V) nx rest"
    by auto
  have s0: "at_point (Suc (Suc (k + 7 + 2 * length rest))) V0 False V e s" using Cons.prems(1) by simp
  let ?count = "word_of_nat (length (accs_of seen)) + word_of_nat (length accs) :: csize"
  let ?Q = "\<lambda>_ V' e'. e' = e \<and> alloc_post nb b trigger segs V'"
  let ?prev = "if seen = [] then NULL else fst (last seen)"
  have go: "yields k V0 False R ?Q
      (if nx = NULL
       then alloc_last b trigger \<lparr>seg_count = q, seg_next = q + 8, seg_parity = q + 16, seg_accounts = q + 24\<rparr>
         (word_of_nat (length accs)) ?prev ?count t
       else alloc_loop b trigger ?count q nx t)"
    if t: "at_point (k + 7 + 2 * length rest) V0 False V e t" for t
  proof (cases rest)
    case Nil
    then have segs: "segs = seen @ [(q, par, accs)]" "nx = NULL" using Cons.prems(2) b(3) sg by simp_all
    have "?count = word_of_nat (length (accs_of segs))" by (simp add: segs)
    then show ?thesis
      using alloc_last_yields [OF _ assms(2) _ assms(4) segs(1) refl assms(7), of k V0 e t R trigger] t assms(3) segs(2) Nil
      by simp
  next
    case (Cons sg' rest')
    then have nx: "nx = fst (hd rest)" "nx \<noteq> NULL" using b(3) by (cases sg'; simp)+
    then show ?thesis
      using Cons.IH [of t "seen @ [sg]"] t Cons.prems(2) sg Cons by simp
  qed
  show ?case
    by (subst alloc_loop.simps, simp only: sg list.sel fst_conv access_simps)
      (rule at_read [where R = R, OF s0 assms(2) b(1) assms(3)],
       rule at_read [where R = R, OF _ assms(2) b(2) assms(3)], assumption, use go in auto)
qed simp

lemma alloc_body_yields:
  assumes "at_point (k + 7 + 2 * length segs) V0 False V e s" and "tl (b_tm b) = L" and "R e"
    and "bank_shape nb b V segs" and "3 + nb \<le> max_words"
  shows "yields k V0 False R (\<lambda>_ V' e'. e' = e \<and> alloc_post nb b trigger segs V') (alloc_body b trigger s)"
proof -
  have "segs \<noteq> []" using assms(4) by (simp add: bank_shape_def)
  moreover then have "fst (hd segs) = start_addr (b_tm b)"
    using assms(4) by (cases segs) (auto simp: bank_shape_def)
  ultimately show ?thesis
    using alloc_loop_yields [where R = R, OF assms(1-4), of "[]"] assms(5) by (simp add: alloc_body_def)
qed

end

end
