(* ===== verification/Bank_Contract.thy ===== *)
theory Bank_Contract
  imports Bank_Alloc
begin

text \<open>
  The transactions of the bank, the initialisation and the check, from begin to end, over any
  library that satisfies the contract: a round of the retry loop commits what the specification
  says or retries with the memory untouched, and over a library that never aborts the
  transaction returns after one round.
\<close>

section \<open>Initialisation\<close>

definition blank :: "addr \<Rightarrow> nat \<Rightarrow> amem" where
  "blank p n = \<lparr>aw = (\<lambda>a. if a \<in> set (words_at p n) then Some 0 else None), asg = (\<lambda>_. None)\<rparr>"

lemma distinct_words: "unat q + 24 + 8 * nb < 2 ^ 64 \<Longrightarrow> distinct (words_at q (3 + nb))"
  using words_inj [of q nb] by (auto simp: words_at_def distinct_map inj_on_def)

text \<open>The first segment with \<open>j\<close> accounts written.\<close>

definition opened :: "addr \<Rightarrow> nat \<Rightarrow> 64 word \<Rightarrow> nat \<Rightarrow> bseg list" where
  "opened p nb ib j = [(p, 0, replicate j ib @ replicate (nb - j) 0)]"

lemma opened_Suc: "j < nb \<Longrightarrow> opened p nb ib (Suc j) = upd_acc (opened p nb ib j) j ib"
  by (simp add: opened_def list_update_append replicate_append_same Suc_diff_Suc [symmetric])

lemma bank_list_blank:
  assumes "p \<noteq> NULL" and "unat p + 24 + 8 * nb < 2 ^ 64"
  shows "bank_list nb (aw (am_write p (word_of_nat nb) (blank p (3 + nb)))) p (opened p nb ib 0)"
proof -
  have "acc_addr p i \<in> set (words_at p (3 + nb))" "acc_addr p i \<noteq> p" if "i < nb" for i
    using that acc_addr_in acc_addr_ne(1) [OF assms(2)] by blast+
  with assms header_in [of p nb] show ?thesis
    by (simp add: opened_def am_write_def blank_def)
qed

lemma bank_shape_opened:
  assumes "bank_list nb (aw V) (start_addr (b_tm b)) (opened (start_addr (b_tm b)) nb ib nb)"
    and "nbaccounts b = word_of_nat nb" and "0 < nb"
  shows "bank_shape nb b V (opened (start_addr (b_tm b)) nb ib nb)"
  using assms distinct_words by (simp add: bank_shape_def opened_def)

lemma opened_balanced: "0 \<le> sint ib \<Longrightarrow> balanced ib (opened p nb ib nb)"
  by (auto simp: balanced_def opened_def overdrawn_def list_ex_iff sum_list_replicate)

context stm
begin

lemma init_accounts_yields:
  assumes "at_point (k + (nb - j)) V0 False V e s" and "tl (b_tm b) = L" and "R e"
    and "bank_list nb (aw V) p (opened p nb (init_balance b) j)" and "nbaccounts b = word_of_nat nb" and "j \<le> nb"
  shows "yields k V0 False R
    (\<lambda>_ V' e'. e' = e \<and> bank_list nb (aw V') p (opened p nb (init_balance b) nb))
    (init_accounts b (p + 24) (word_of_nat j) s)"
  using assms(1,4,6)
proof (induction "nb - j" arbitrary: j V s)
  case 0
  then have j: "j = nb" by simp
  show ?case
    by (subst init_accounts.simps, simp add: j assms(5)) (rule at_return, use 0 j in auto)
next
  case (Suc n)
  have b: "unat p + 24 + 8 * nb < 2 ^ 64" using Suc.prems(2) by (simp add: opened_def)
  have j: "j < nb" using Suc.hyps(2) by simp
  then have lt: "(word_of_nat j :: csize) < word_of_nat nb" using of_nat_less [of j nb] b by simp
  have s: "at_point (Suc (k + (nb - Suc j))) V0 False V e s" using Suc.prems(1) j by (simp add: Suc_diff_Suc)
  have loc_j: "locate (opened p nb (init_balance b) j) j = Some (acc_addr p j)" using j by (simp add: opened_def)
  have w: "aw V (acc_addr p j) \<noteq> None" using locate_value [OF Suc.prems(2) loc_j] by simp
  have suc: "(word_of_nat j + 1 :: csize) = word_of_nat (Suc j)" by simp
  let ?V = "am_write (acc_addr p j) (init_balance b) V"
  have "distinct (bank_words nb (opened p nb (init_balance b) j))"
    using distinct_words [OF b] by (simp add: opened_def)
  from bank_list_upd [OF Suc.prems(2) this loc_j, of "init_balance b"]
  have V: "bank_list nb (aw ?V) p (opened p nb (init_balance b) (Suc j))"
    by (simp add: opened_Suc [OF j] am_write_def)
  show ?case
    by (subst init_accounts.simps, simp only: assms(5) lt if_True access_simps suc)
      (rule at_write [where R = R, OF s assms(2) w assms(3)], rule Suc.hyps(1), use Suc.hyps(2) V j in auto)
qed

lemma init_body_yields:
  assumes "at_point (Suc (k + nb)) V0 False (blank p (3 + nb)) e s" and "tl (b_tm b) = L" and "R e"
    and "nbaccounts b = word_of_nat nb" and "p \<noteq> NULL" and "unat p + 24 + 8 * nb < 2 ^ 64"
    and "start_addr (b_tm b) = p"
  shows "yields k V0 False R
    (\<lambda>_ V' e'. e' = e \<and> bank_list nb (aw V') p (opened p nb (init_balance b) nb)) (init_body b s)"
proof -
  have w: "aw (blank p (3 + nb)) p \<noteq> None" using header_in(1) by (simp add: blank_def)
  have rest: "yields k V0 False R (\<lambda>_ V' e'. e' = e \<and> bank_list nb (aw V') p (opened p nb (init_balance b) nb))
      (init_accounts b (p + 24) 0 t)"
    if "at_point (k + nb) V0 False (am_write p (word_of_nat nb) (blank p (3 + nb))) e t" for t
    using init_accounts_yields [of k nb 0 V0 _ e t b R p] that assms(2-4) bank_list_blank [OF assms(5,6)] by simp
  show ?thesis
    unfolding init_body_def
    by (simp only: access_simps assms(4,7))
      (rule at_write [where R = R, OF assms(1,2) w assms(3)], use rest in auto)
qed

lemma init_check_body_yields:
  assumes "at_point (Suc k) V0 ro V e s" and "tl (b_tm b) = L" and "R e"
    and "aw V (acc_addr (start_addr (b_tm b)) 0) = Some x"
  shows "yields k V0 ro R (\<lambda>r V' e'. V' = V \<and> e' = e \<and> r = (x = init_balance b)) (init_check_body b s)"
proof -
  have e0: "elem (start_addr (b_tm b) + 24) 0 = acc_addr (start_addr (b_tm b)) 0"
    using elem_acc [of _ 0] by simp
  show ?thesis
    unfolding init_check_body_def
    by (simp only: access_simps e0)
      (rule at_read [where R = R, OF assms(1,2,4,3)], rule at_return, auto)
qed

section \<open>The check\<close>

lemma read_counter_yields:
  assumes "at_point (Suc k) V0 ro V e s" and "tl (b_tm b) = L" and "R e"
    and "aw V (start_addr (b_tm b)) = Some x"
  shows "yields k V0 ro R (\<lambda>r V' e'. V' = V \<and> e' = e \<and> r = x) (read_counter b s)"
proof -
  have s: "running (Suc k) V0 V s" "s_ro s = ro" "s_env s = e" using assms(1) by (simp_all add: at_point_def)
  have "yields k V0 (s_ro s) R (\<lambda>y V' e. y = x \<and> V' = V \<and> e = s_env s) (shared_read (b_tm b) (start_addr (b_tm b)) s)"
    by (rule read_yields) (use s assms in auto)
  then show ?thesis unfolding read_counter_def s(2)
    by (simp only: access_simps) (erule yields_mono, use s in auto)
qed

lemma counter_is_yields:
  assumes "at_point (Suc k) V0 ro V e s" and "tl (b_tm b) = L" and "R e"
    and "aw V (start_addr (b_tm b)) = Some x"
  shows "yields k V0 ro R (\<lambda>r V' e'. V' = V \<and> e' = e \<and> r = (x = y)) (counter_is b y s)"
  unfolding counter_is_def
  by (rule at_bind [OF read_counter_yields [where R = R, OF assms]]) (auto intro: at_return)

lemma write_counter_yields:
  assumes "at_point (Suc k) V0 False V e s" and "tl (b_tm b) = L" and "R e"
    and "aw V (start_addr (b_tm b)) \<noteq> None"
  shows "yields k V0 False R (\<lambda>_ V' e'. V' = am_write (start_addr (b_tm b)) x V \<and> e' = e) (write_counter b x s)"
  unfolding write_counter_def
  by (simp only: access_simps) (rule at_last_write [where R = R, OF assms(1,2,4,3)], auto)

lemma decrease_yields:
  assumes "at_point (Suc (Suc k)) V0 False V e s" and "tl (b_tm b) = L" and "R e"
    and "aw V (start_addr (b_tm b)) = Some x"
  shows "yields k V0 False R
    (\<lambda>r V' e'. e' = e \<and> (if y < x then \<not> r \<and> V' = V else r \<and> V' = am_write (start_addr (b_tm b)) (x - 1) V))
    (decrease b y s)"
proof -
  have w: "aw V (start_addr (b_tm b)) \<noteq> None" using assms(4) by simp
  show ?thesis
  proof (cases "y < x")
    case True
    then show ?thesis
      unfolding decrease_def
      by (simp only: access_simps)
        (rule at_read [where R = R, OF assms(1,2,4,3)], auto intro: at_return)
  next
    case False
    then show ?thesis
      unfolding decrease_def
      by (simp only: access_simps)
        (rule at_read [where R = R, OF assms(1,2,4,3)], simp only: if_False,
         rule at_write [where R = R, OF _ assms(2) w assms(3)], auto intro: at_return)
  qed
qed

end


section \<open>One round of each transaction\<close>

lemma transactional_commits:
  "attempt tm ro func s = Some (Inr x, s') \<Longrightarrow> transactional tm ro func s = Some (Inr x, s')"
  by (subst transactional.simps) simp

lemma upd_acc_nonempty:
  "(\<forall>sg \<in> set (upd_acc segs i x). snd (snd sg) \<noteq> []) = (\<forall>sg \<in> set segs. snd (snd sg) \<noteq> [])"
  by (induction segs i x rule: upd_acc.induct) auto

lemma dynamic_cong:
  assumes "map fst segs' = map fst segs"
  shows "(\<forall>sg \<in> set (drop 1 segs'). P (fst sg)) = (\<forall>sg \<in> set (drop 1 segs). P (fst sg))"
proof -
  have "map fst (drop 1 segs') = map fst (drop 1 segs)" by (metis assms drop_map)
  then have "fst ` set (drop 1 segs') = fst ` set (drop 1 segs)" by (metis set_map)
  moreover have A: "(\<forall>sg \<in> A. P (fst sg)) = (\<forall>q \<in> fst ` A. P q)" for A by simp
  ultimately show ?thesis unfolding A by simp
qed

lemma bank_shape_paid:
  assumes "bank_shape nb b V segs" and "asg V' = asg V" and "bank_list nb (aw V') (start_addr (b_tm b)) (paid segs i j)"
  shows "bank_shape nb b V' (paid segs i j)"
proof -
  have "paid segs i j \<noteq> []" using assms(1) by (metis bank_shape_def map_is_Nil_conv paid_simps(4))
  moreover have "\<forall>sg \<in> set (paid segs i j). snd (snd sg) \<noteq> []"
    using assms(1) by (simp add: bank_shape_def paid_def Let_def upd_acc_nonempty)
  moreover have "\<forall>sg \<in> set (drop 1 (paid segs i j)). asg V' (fst sg) = Some (3 + nb)"
    using assms(1,2) dynamic_cong [OF paid_simps(4), of segs i j "\<lambda>q. asg V' q = Some (3 + nb)"]
    by (simp add: bank_shape_def)
  ultimately show ?thesis using assms(1,3) unfolding bank_shape_def by simp
qed

text \<open>The account numbers that the transaction sees are those of the last round.\<close>

definition short_done :: "nat \<Rightarrow> 'r bank \<Rightarrow> bseg list \<Rightarrow> nat \<Rightarrow> nat \<Rightarrow> amem \<Rightarrow> bool \<Rightarrow> amem \<Rightarrow> bool" where
  "short_done nb b segs i j V ok V' \<longleftrightarrow>
     (if i < length (accs_of segs) \<and> j < length (accs_of segs)
      then ok \<and> bank_shape nb b V' (paid segs i j) else \<not> ok \<and> V' = V)"

definition long_done :: "'r bank \<Rightarrow> bseg list \<Rightarrow> bool \<Rightarrow> csize \<Rightarrow> bool" where
  "long_done b segs ok count \<longleftrightarrow>
     (if overdrawn (accs_of segs) then \<not> ok
      else ok = (bank_money segs = init_balance b * word_of_nat (length (accs_of segs))) \<and>
        count = word_of_nat (length (accs_of segs)))"

lemma long_done_balanced: "balanced (init_balance b) segs \<Longrightarrow> long_done b segs ok count \<longleftrightarrow>
    ok \<and> count = word_of_nat (length (accs_of segs))"
  by (auto simp: long_done_def balanced_def)

context stm
begin

lemma long_attempt:
  assumes "resting (k + 2 + long_cost segs) V s" and "tl (b_tm b) = L" and "bank_shape nb b V segs"
  shows "\<exists>r s'. attempt (b_tm b) True (long_body b) s = Some (r, s') \<and> resting k V s' \<and>
    (TransactionRetry \<in> faults \<and> r = Inl TransactionRetry \<or>
     (\<exists>ok. r = Inr ok \<and> long_done b segs ok (s_env s')))"
proof -
  have "resting (Suc (Suc k + long_cost segs)) V s" using assms(1) by (rule resting_le) simp
  from attempt_yields [where R = "\<lambda>_. True" and Q = "\<lambda>r V' e'. V' = V \<and> long_done b segs r e'" and k = k
      and func = "long_body b" and ro = True, OF this assms(2)]
  show ?thesis
    using long_body_yields [of "Suc k" segs V True V _ _ b "\<lambda>_. True" nb] assms(2,3)
    unfolding at_point_def long_done_def bank_shape_def by blast
qed

lemma short_attempt:
  assumes "resting (k + 6 + 2 * length segs) V s" and "tl (b_tm b) = L" and "bank_shape nb b V segs"
    and "s_env s = (i, j)"
  shows "\<exists>r s' V'. attempt (b_tm b) False (short_body b) s = Some (r, s') \<and> resting k V' s' \<and>
    (TransactionRetry \<in> faults \<and> r = Inl TransactionRetry \<and> V' = V \<or>
     (\<exists>ok. r = Inr ok \<and> short_done nb b segs (unat i) (unat j) V ok V'))"
proof -
  have r: "resting (Suc (Suc k + 4 + 2 * length segs)) V s" using assms(1) by (rule resting_le) simp
  have b: "bank_list nb (aw V) (start_addr (b_tm b)) segs" "segs \<noteq> []" "distinct (bank_words nb segs)"
    using assms(3) by (simp_all add: bank_shape_def)
  have "yields (Suc k) V False (\<lambda>_. True) (\<lambda>r V' _. short_done nb b segs (unat i) (unat j) V r V') (short_body b s')"
    if "running (Suc k + 4 + 2 * length segs) V V s'" "s_ro s' = False" "s_env s' = s_env s" for s'
    by (rule yields_mono [OF short_body_yields [OF _ assms(2) b] order.refl])
      (use that assms(3,4) in \<open>auto simp: at_point_def short_done_def intro: bank_shape_paid split: if_splits\<close>)
  from attempt_yields [where func = "short_body b" and ro = False and k = k, OF r assms(2) this] show ?thesis by blast
qed

lemma alloc_attempt:
  assumes "resting (k + 9 + 2 * length segs) V s" and "tl (b_tm b) = L" and "bank_shape nb b V segs"
    and "3 + nb \<le> max_words"
  shows "\<exists>r s' V'. attempt (b_tm b) False (alloc_body b trigger) s = Some (r, s') \<and> resting k V' s' \<and>
    s_env s' = s_env s \<and>
    (TransactionRetry \<in> faults \<and> r = Inl TransactionRetry \<and> V' = V \<or>
     (\<exists>u. r = Inr u \<and> alloc_post nb b trigger segs V'))"
proof -
  have r: "resting (Suc (Suc k + 7 + 2 * length segs)) V s" using assms(1) by (rule resting_le) simp
  have "yields (Suc k) V False (\<lambda>e. e = s_env s) (\<lambda>_ V' e. e = s_env s \<and> alloc_post nb b trigger segs V') (alloc_body b trigger s')"
    if "running (Suc k + 7 + 2 * length segs) V V s'" "s_ro s' = False" "s_env s' = s_env s" for s'
    by (rule alloc_body_yields [OF _ assms(2) _ assms(3,4)]) (use that in \<open>auto simp: at_point_def\<close>)
  from attempt_yields [where func = "alloc_body b trigger" and ro = False and k = k, OF r assms(2) this] show ?thesis
    by blast
qed

end

section \<open>Over a library that never aborts\<close>

context reliable_stm
begin

lemma long_tx_once:
  assumes "resting (k + 2 + long_cost segs) V s" and "tl (b_tm b) = L" and "bank_shape nb b V segs"
  shows "\<exists>ok s'. long_tx b s = Some (Inr ok, s') \<and> resting k V s' \<and> long_done b segs ok (s_env s')"
  unfolding long_tx_def using long_attempt [OF assms] transactional_commits by fastforce

lemma short_tx_once:
  assumes "resting (k + 6 + 2 * length segs) V s" and "tl (b_tm b) = L" and "bank_shape nb b V segs"
  shows "\<exists>ok s' V'. short_tx b i j s = Some (Inr ok, s') \<and> resting k V' s' \<and>
    short_done nb b segs (unat i) (unat j) V ok V'"
proof -
  have "resting (k + 6 + 2 * length segs) V (s\<lparr>s_env := (i, j)\<rparr>)"
    using assms(1) by (simp add: resting_def)
  from short_attempt [OF this assms(2,3)] show ?thesis
    unfolding short_tx_def using transactional_commits by fastforce
qed

lemma alloc_tx_once:
  assumes "resting (k + 9 + 2 * length segs) V s" and "tl (b_tm b) = L" and "bank_shape nb b V segs"
    and "3 + nb \<le> max_words"
  shows "\<exists>s' V'. alloc_tx b trigger s = Some (Inr (), s') \<and> resting k V' s' \<and> s_env s' = s_env s \<and>
    alloc_post nb b trigger segs V'"
  unfolding alloc_tx_def using alloc_attempt [OF assms, of trigger] transactional_commits by fastforce

text \<open>The initialisation leaves \<open>nb\<close> accounts with the initial balance, and finds no violation.\<close>

lemma init_once:
  assumes "resting (k + 6 + nb) (blank p (3 + nb)) s" and "tl (b_tm b) = L"
    and "nbaccounts b = word_of_nat nb" and "0 < nb" and "p \<noteq> NULL" and "unat p + 24 + 8 * nb < 2 ^ 64"
    and "start_addr (b_tm b) = p"
  shows "\<exists>s' V'. init b s = Some (Inr None, s') \<and> resting k V' s' \<and> s_env s' = s_env s \<and>
    bank_shape nb b V' (opened p nb (init_balance b) nb)"
proof -
  let ?segs = "opened p nb (init_balance b) nb"
  have r: "resting (Suc (Suc (Suc (k + 3) + nb))) (blank p (3 + nb)) s" using assms(1) by (rule resting_le) simp
  obtain u V1 s1 where 1: "transactional (b_tm b) False (init_body b) s = Some (Inr u, s1)"
      "s_env s1 = s_env s \<and> bank_list nb (aw V1) p ?segs" "resting (k + 3) V1 s1"
  proof -
    have "yields (Suc (k + 3)) (blank p (3 + nb)) False (\<lambda>e. e = s_env s)
        (\<lambda>_ V' e'. e' = s_env s \<and> bank_list nb (aw V') p ?segs) (init_body b s')"
      if "running (Suc (Suc (k + 3) + nb)) (blank p (3 + nb)) (blank p (3 + nb)) s'" "s_ro s' = False" "s_env s' = s_env s" for s'
      by (rule init_body_yields) (use that assms(2-7) in \<open>auto simp: at_point_def\<close>)
    from transactional_once [where func = "init_body b" and ro = False and k = "k + 3", OF r assms(2) this] that
    show thesis by blast
  qed
  have list: "bank_list nb (aw V1) p ?segs" using 1(2) by blast
  have x: "aw V1 (acc_addr (start_addr (b_tm b)) 0) = Some (init_balance b)"
    using list assms(4,7) by (auto simp: opened_def nth_append)
  have r1: "resting (Suc (Suc (Suc k))) V1 s1" using 1(3) by (rule resting_le) simp
  obtain ok V2 s2 where 2: "transactional (b_tm b) True (init_check_body b) s1 = Some (Inr ok, s2)"
      "V2 = V1 \<and> s_env s2 = s_env s1 \<and> ok = (init_balance b = init_balance b)" "resting k V2 s2"
  proof -
    have "yields (Suc k) V1 True (\<lambda>e. e = s_env s1)
        (\<lambda>r V' e'. V' = V1 \<and> e' = s_env s1 \<and> r = (init_balance b = init_balance b)) (init_check_body b s')"
      if "running (Suc (Suc k)) V1 V1 s'" "s_ro s' = True" "s_env s' = s_env s1" for s'
      by (rule init_check_body_yields [OF _ assms(2) _ x]) (use that in \<open>auto simp: at_point_def\<close>)
    from transactional_once [where func = "init_check_body b" and ro = True and k = k, OF r1 assms(2) this] that
    show thesis by blast
  qed
  have "bank_shape nb b V1 ?segs"
    using bank_shape_opened [of nb V1 b] list assms(3,4,7) by simp
  moreover have "init b s = Some (Inr None, s2)"
    using 1(1) 2(1,2) by (simp add: init_def return_def)
  ultimately show ?thesis using 1(2) 2(2,3) by auto
qed

text \<open>The rounds of the check: each decreases the counter by one.\<close>

lemma am_write_write [simp]: "am_write a x (am_write a y V) = am_write a x V"
  by (simp add: am_write_def)

lemma counter_read_once:
  assumes "resting (Suc (Suc (Suc k))) V s" and "tl (b_tm b) = L" and "aw V (start_addr (b_tm b)) = Some x"
  shows "\<exists>s'. transactional (b_tm b) True (read_counter b) s = Some (Inr x, s') \<and> resting k V s' \<and> s_env s' = s_env s"
proof -
  have "yields (Suc k) V True (\<lambda>e. e = s_env s) (\<lambda>r V' e'. V' = V \<and> e' = s_env s \<and> r = x) (read_counter b s')"
    if "running (Suc (Suc k)) V V s'" "s_ro s' = True" "s_env s' = s_env s" for s'
    by (rule read_counter_yields [OF _ assms(2) _ assms(3)]) (use that in \<open>auto simp: at_point_def\<close>)
  from transactional_once [where func = "read_counter b" and ro = True and k = k, OF assms(1,2) this]
  show ?thesis by blast
qed

lemma counter_is_once:
  assumes "resting (Suc (Suc (Suc k))) V s" and "tl (b_tm b) = L" and "aw V (start_addr (b_tm b)) = Some x"
  shows "\<exists>s'. transactional (b_tm b) True (counter_is b y) s = Some (Inr (x = y), s') \<and> resting k V s' \<and> s_env s' = s_env s"
proof -
  have "yields (Suc k) V True (\<lambda>e. e = s_env s) (\<lambda>r V' e'. V' = V \<and> e' = s_env s \<and> r = (x = y)) (counter_is b y s')"
    if "running (Suc (Suc k)) V V s'" "s_ro s' = True" "s_env s' = s_env s" for s'
    by (rule counter_is_yields [OF _ assms(2) _ assms(3)]) (use that in \<open>auto simp: at_point_def\<close>)
  from transactional_once [where func = "counter_is b y" and ro = True and k = k, OF assms(1,2) this]
  show ?thesis by blast
qed

lemma counter_write_once:
  assumes "resting (Suc (Suc (Suc k))) V s" and "tl (b_tm b) = L" and "aw V (start_addr (b_tm b)) \<noteq> None"
  shows "\<exists>u s'. transactional (b_tm b) False (write_counter b x) s = Some (Inr u, s') \<and>
    resting k (am_write (start_addr (b_tm b)) x V) s' \<and> s_env s' = s_env s"
proof -
  have "yields (Suc k) V False (\<lambda>e. e = s_env s)
      (\<lambda>_ V' e'. V' = am_write (start_addr (b_tm b)) x V \<and> e' = s_env s) (write_counter b x s')"
    if "running (Suc (Suc k)) V V s'" "s_ro s' = False" "s_env s' = s_env s" for s'
    by (rule write_counter_yields [OF _ assms(2) _ assms(3)]) (use that in \<open>auto simp: at_point_def\<close>)
  from transactional_once [where func = "write_counter b x" and ro = False and k = k, OF assms(1,2) this]
  show ?thesis by blast
qed

lemma decrease_once:
  assumes "resting (Suc (Suc (Suc (Suc k)))) V s" and "tl (b_tm b) = L" and "aw V (start_addr (b_tm b)) = Some x"
    and "x \<le> y"
  shows "\<exists>s'. transactional (b_tm b) False (decrease b y) s = Some (Inr True, s') \<and>
    resting k (am_write (start_addr (b_tm b)) (x - 1) V) s' \<and> s_env s' = s_env s"
proof -
  have "yields (Suc k) V False (\<lambda>e. e = s_env s)
      (\<lambda>r V' e'. e' = s_env s \<and> r = True \<and> V' = am_write (start_addr (b_tm b)) (x - 1) V)
      (decrease b y s')"
    if "running (Suc (Suc (Suc k))) V V s'" "s_ro s' = False" "s_env s' = s_env s" for s'
  proof -
    have "at_point (Suc (Suc (Suc k))) V False V (s_env s) s'" using that by (simp add: at_point_def)
    from decrease_yields [where R = "\<lambda>e. e = s_env s", OF this assms(2) refl assms(3), of y]
    show ?thesis by (rule yields_mono) (use assms(4) in simp_all)
  qed
  from transactional_once [where func = "decrease b y" and ro = False and k = k, OF assms(1,2) this]
  show ?thesis by blast
qed

lemma decrease_refused:
  assumes "resting (Suc (Suc (Suc (Suc k)))) V s" and "tl (b_tm b) = L" and "aw V (start_addr (b_tm b)) = Some x"
    and "y < x"
  shows "\<exists>s'. transactional (b_tm b) False (decrease b y) s = Some (Inr False, s') \<and> resting k V s' \<and> s_env s' = s_env s"
proof -
  have "yields (Suc k) V False (\<lambda>e. e = s_env s) (\<lambda>r V' e'. e' = s_env s \<and> r = False \<and> V' = V) (decrease b y s')"
    if "running (Suc (Suc (Suc k))) V V s'" "s_ro s' = False" "s_env s' = s_env s" for s'
  proof -
    have "at_point (Suc (Suc (Suc k))) V False V (s_env s) s'" using that by (simp add: at_point_def)
    from decrease_yields [where R = "\<lambda>e. e = s_env s", OF this assms(2) refl assms(3), of y]
    show ?thesis by (rule yields_mono) (use assms(4) in simp_all)
  qed
  from transactional_once [where func = "decrease b y" and ro = False and k = k, OF assms(1,2) this]
  show ?thesis by blast
qed

lemma check_rounds_once:
  assumes "resting (k + 7 * n) V s" and "tl (b_tm b) = L" and "aw V (start_addr (b_tm b)) = Some x"
  shows "\<exists>s' V'. check_rounds b n s = Some (Inr True, s') \<and> resting k V' s' \<and>
    aw V' (start_addr (b_tm b)) = Some (x - word_of_nat n) \<and> s_env s' = s_env s"
  using assms(1,3)
proof (induction n arbitrary: V s x)
  case 0
  then show ?case by (auto simp: return_def)
next
  case (Suc n)
  have "resting (Suc (Suc (Suc (Suc (Suc (Suc (Suc (k + 7 * n)))))))) V s"
    using Suc.prems(1) by (rule resting_le) simp
  from counter_read_once [OF this assms(2) Suc.prems(2)]
  obtain s1 where 1: "transactional (b_tm b) True (read_counter b) s = Some (Inr x, s1)"
      "resting (Suc (Suc (Suc (Suc (k + 7 * n))))) V s1" "s_env s1 = s_env s" by blast
  let ?V = "am_write (start_addr (b_tm b)) (x - 1) V"
  from decrease_once [OF 1(2) assms(2) Suc.prems(2) order_refl]
  obtain s2 where 2: "transactional (b_tm b) False (decrease b x) s1 = Some (Inr True, s2)"
      "resting (k + 7 * n) ?V s2" "s_env s2 = s_env s1" by blast
  have "aw ?V (start_addr (b_tm b)) = Some (x - 1)" by (simp add: am_write_def)
  from Suc.IH [OF 2(2) this] 1 2 show ?case by (simp add: algebra_simps)
qed

text \<open>
  \<open>check\<close> with a barrier in which the other workers change the counter by \<open>f\<close>; what they do may
  depend on the captured state, which \<open>g\<close> moves on.
\<close>

lemma check_once:
  fixes sync :: "('r, 'e) session \<Rightarrow> ('r, 'e) session"
  assumes "resting (k + 9 + 7 * check_tx) V s" and "tl (b_tm b) = L" and "aw V (start_addr (b_tm b)) = Some x"
    and meets: "\<And>n V s x. resting n V s \<Longrightarrow> aw V (start_addr (b_tm b)) = Some x \<Longrightarrow>
      \<exists>V'. resting n V' (sync s) \<and> aw V' (start_addr (b_tm b)) = Some (f (s_env s) x) \<and> s_env (sync s) = g (s_env s)"
    and "e = s_env s" and "x1 = (if uid = 0 then word_of_nat check_tx * nbworkers b else f e x)"
    and "y = f (g (g e)) (f (g e) x1 - word_of_nat check_tx)"
  shows "\<exists>s' V'. check sync b uid s = Some (Inr (if uid = 0 \<and> y \<noteq> 0 then Some ViolatedConsistency else None), s') \<and>
    resting k V' s' \<and> aw V' (start_addr (b_tm b)) = Some y"
proof -
  let ?p = "start_addr (b_tm b)"
  obtain V0 where 0: "resting (k + 9 + 7 * check_tx) V0 (sync s)" "aw V0 ?p = Some (f e x)" "s_env (sync s) = g e"
    using meets [OF assms(1,3)] assms(5) by blast
  have "\<exists>s1 V1. (if uid = 0 then check_init b (sync s) else return True (sync s)) = Some (Inr True, s1) \<and>
      resting (k + 3 + 7 * check_tx) V1 s1 \<and> aw V1 ?p = Some x1 \<and> s_env s1 = g e"
  proof (cases "uid = 0")
    case True
    have "resting (Suc (Suc (Suc (k + 6 + 7 * check_tx)))) V0 (sync s)" using 0(1) by (rule resting_le) simp
    from counter_write_once [OF this assms(2), of x1] 0(2)
    obtain u s1 where 1: "transactional (b_tm b) False (write_counter b x1) (sync s) = Some (Inr u, s1)"
        "resting (k + 6 + 7 * check_tx) (am_write ?p x1 V0) s1" "s_env s1 = g e" using 0(3) by auto
    have a: "aw (am_write ?p x1 V0) ?p = Some x1" by (simp add: am_write_def)
    have "resting (Suc (Suc (Suc (k + 3 + 7 * check_tx)))) (am_write ?p x1 V0) s1" using 1(2) by (rule resting_le) simp
    from counter_is_once [OF this assms(2) a, of x1]
    obtain s2 where "transactional (b_tm b) True (counter_is b x1) s1 = Some (Inr True, s2)"
        "resting (k + 3 + 7 * check_tx) (am_write ?p x1 V0) s2" "s_env s2 = g e" using 1(3) by auto
    with 1(1) a True assms(6) show ?thesis by (auto simp: check_init_def)
  next
    case False
    with 0 assms(6) show ?thesis using resting_le [OF 0(1), of "k + 3 + 7 * check_tx"] by (auto simp: return_def)
  qed
  then obtain s1 V1 where 1: "(if uid = 0 then check_init b (sync s) else return True (sync s)) = Some (Inr True, s1)"
      "resting (k + 3 + 7 * check_tx) V1 s1" "aw V1 ?p = Some x1" "s_env s1 = g e" by blast
  obtain V2 where 2: "resting (k + 3 + 7 * check_tx) V2 (sync s1)" "aw V2 ?p = Some (f (g e) x1)" "s_env (sync s1) = g (g e)"
    using meets [OF 1(2,3)] 1(4) by auto
  from check_rounds_once [OF 2(1) assms(2) 2(2)]
  obtain s3 V3 where 3: "check_rounds b check_tx (sync s1) = Some (Inr True, s3)" "resting (k + 3) V3 s3"
      "aw V3 ?p = Some (f (g e) x1 - word_of_nat check_tx)" "s_env s3 = g (g e)" using 2(3) by auto
  obtain V4 where 4: "resting (k + 3) V4 (sync s3)" "aw V4 ?p = Some y" using meets [OF 3(2,3)] 3(4) assms(7) by auto
  show ?thesis
  proof (cases "uid = 0")
    case True
    have "resting (Suc (Suc (Suc k))) V4 (sync s3)" using 4(1) by (rule resting_le) simp
    from counter_is_once [OF this assms(2) 4(2), of 0]
    obtain s4 where "transactional (b_tm b) True (counter_is b 0) (sync s3) = Some (Inr (y = 0), s4)" "resting k V4 s4"
      by auto
    with 1(1) 3(1) 4(2) True show ?thesis by (auto simp: check_def return_def)
  next
    case False
    with 1(1) 3(1) 4 show ?thesis using resting_le [OF 4(1), of k] by (auto simp: check_def return_def)
  qed
qed

end

end
