(* ===== verification/Bank_Rounds.thy ===== *)
theory Bank_Rounds
  imports Bank_Contract
begin

text \<open>
  Sequences of transactions of the bank. \<open>bank_round\<close> is one round of the retry loop of one of them,
  with its answer; \<open>bank_run\<close> is what a sequence of rounds may answer and do to the bank, by the
  specification. Inside the contract every sequence of rounds implements \<open>bank_run\<close>; on the level
  of the specification, the answers are those of the committed transactions alone, and the long
  transactions of a balanced bank never report a violation.
\<close>

datatype bank_op = Long | Alloc csize | Short csize csize

text \<open>The long transaction answers its count of accounts when it finds no violation.\<close>

datatype answer = Retried | LongAnswer "csize option" | AllocDone | ShortAnswer bool

definition answered :: "('a \<Rightarrow> answer) \<Rightarrow> ('r, 'e, 'a) outcome \<Rightarrow> ('r, 'e, answer) outcome" where
  "answered f m = (case m of
     None \<Rightarrow> None
   | Some (Inr x, s) \<Rightarrow> return (f x) s
   | Some (Inl e, s) \<Rightarrow> if e = TransactionRetry then return Retried s else throw e s)"

definition long_answer :: "bool \<times> csize \<Rightarrow> answer" where
  "long_answer r = LongAnswer (if fst r then Some (snd r) else None)"

fun bank_round :: "'r bank \<Rightarrow> bank_op \<Rightarrow> ('r, 'e) session \<Rightarrow> ('r, 'e, answer) outcome" where
  "bank_round b Long s = answered long_answer (run_in 0 (attempt (b_tm b) True (long_body b)) s)"
| "bank_round b (Alloc trigger) s = answered (\<lambda>_. AllocDone) (attempt (b_tm b) False (alloc_body b trigger) s)"
| "bank_round b (Short i j) s =
     answered (\<lambda>r. ShortAnswer (fst r)) (run_in (i, j) (attempt (b_tm b) False (short_body b)) s)"

primrec bank_rounds :: "'r bank \<Rightarrow> bank_op list \<Rightarrow> ('r, 'e) session \<Rightarrow> ('r, 'e, answer list) outcome" where
  "bank_rounds b [] s = return [] s"
| "bank_rounds b (op # ops) s = tbind (bank_round b op s) (\<lambda>a s. tbind (bank_rounds b ops s) (\<lambda>as s. return (a # as) s))"

text \<open>The transactions to the end, retries included.\<close>

fun serve :: "'r bank \<Rightarrow> bank_op \<Rightarrow> ('r, 'e) session \<Rightarrow> ('r, 'e, answer) outcome" where
  "serve b Long s = tbind (run_in 0 (long_tx b) s) (\<lambda>r s. return (long_answer r) s)"
| "serve b (Alloc trigger) s = tbind (alloc_tx b trigger s) (\<lambda>_ s. return AllocDone s)"
| "serve b (Short i j) s = tbind (run_in (i, j) (short_tx b i j) s) (\<lambda>r s. return (ShortAnswer (fst r)) s)"

primrec serve_all :: "'r bank \<Rightarrow> bank_op list \<Rightarrow> ('r, 'e) session \<Rightarrow> ('r, 'e, answer list) outcome" where
  "serve_all b [] s = return [] s"
| "serve_all b (op # ops) s = tbind (serve b op s) (\<lambda>a s. tbind (serve_all b ops s) (\<lambda>as s. return (a # as) s))"

section \<open>The specification\<close>

definition audit :: "64 word \<Rightarrow> bseg list \<Rightarrow> csize option" where
  "audit ib segs =
     (if \<not> overdrawn (accs_of segs) \<and> bank_money segs = ib * word_of_nat (length (accs_of segs))
      then Some (word_of_nat (length (accs_of segs))) else None)"

fun op_spec :: "nat \<Rightarrow> 64 word \<Rightarrow> addr \<Rightarrow> bank_op \<Rightarrow> bseg list \<Rightarrow> answer \<times> bseg list" where
  "op_spec nb ib p Long segs = (LongAnswer (audit ib segs), segs)"
| "op_spec nb ib p (Alloc trigger) segs = (AllocDone, alloc_segs nb ib (unat trigger) p segs)"
| "op_spec nb ib p (Short i j) segs =
     (if unat i < length (accs_of segs) \<and> unat j < length (accs_of segs)
      then (ShortAnswer True, paid segs (unat i) (unat j)) else (ShortAnswer False, segs))"

inductive bank_run :: "nat \<Rightarrow> 64 word \<Rightarrow> bank_op list \<Rightarrow> answer list \<Rightarrow> bseg list \<Rightarrow> bseg list \<Rightarrow> bool"
  for nb ib where
  nothing: "bank_run nb ib [] [] segs segs"
| retry: "bank_run nb ib ops as segs segs' \<Longrightarrow> bank_run nb ib (op # ops) (Retried # as) segs segs'"
| commit: "op_spec nb ib p op segs = (a, segs1) \<Longrightarrow> bank_run nb ib ops as segs1 segs' \<Longrightarrow>
    bank_run nb ib (op # ops) (a # as) segs segs'"

inductive_cases bank_run_NilE: "bank_run nb ib [] as segs segs'"
inductive_cases bank_run_ConsE: "bank_run nb ib (op # ops) as segs segs'"

lemma op_spec_answer: "op_spec nb ib p op segs = (a, segs1) \<Longrightarrow> a \<noteq> Retried"
  by (cases op) (auto split: if_splits)

section \<open>Inside the contract\<close>

lemma run_in_Some:
  assumes "f (with_env d s) = Some (r, t)"
  shows "run_in d f s = Some (case r of Inl e \<Rightarrow> Inl e | Inr x \<Rightarrow> Inr (x, s_env t), with_env (s_env s) t)"
  using assms by (simp add: run_in_def throw_def return_def split: sum.split)

text \<open>What a round may cost, and a sequence of rounds: each adds at most one account and one segment.\<close>

definition round_cost :: "bseg list \<Rightarrow> nat" where
  "round_cost segs = 9 + 3 * length segs + length (accs_of segs)"

definition rounds_cost :: "nat \<Rightarrow> bseg list \<Rightarrow> nat" where
  "rounds_cost n segs = n * (round_cost segs + 4 * n)"

lemma long_cost_le: "long_cost segs = 3 * length segs + length (accs_of segs)"
  by (induction segs) auto

lemma paid_length: "length (paid segs i j) = length segs"
  by (metis length_map paid_simps(4))

lemma op_spec_length:
  assumes "op_spec nb ib p op segs = (a, segs1)" and "segs \<noteq> []" and "\<forall>sg \<in> set segs. snd (snd sg) \<noteq> []"
  shows "length segs1 \<le> Suc (length segs)" and "length (accs_of segs1) \<le> Suc (length (accs_of segs))"
proof -
  have "length (alloc_segs nb ib t p segs) \<le> Suc (length segs)" for t
    using assms(2,3)
    by (cases rule: alloc_segs_cases [where nb = nb and ib = ib and trigger = t and p = p]) simp_all
  then show "length segs1 \<le> Suc (length segs)"
    using assms(1) by (cases op) (auto simp: paid_length split: if_splits)
  show "length (accs_of segs1) \<le> Suc (length (accs_of segs))"
    using assms(1) alloc_segs_length [OF assms(2,3), of nb ib _ p] by (cases op) (auto split: if_splits)
qed

lemma rounds_cost_step:
  assumes "length segs1 \<le> Suc (length segs)" and "length (accs_of segs1) \<le> Suc (length (accs_of segs))"
  shows "round_cost segs + rounds_cost n segs1 \<le> rounds_cost (Suc n) segs"
proof -
  have "round_cost segs1 + 4 * n \<le> round_cost segs + 4 * Suc n" using assms by (simp add: round_cost_def)
  then have "n * (round_cost segs1 + 4 * n) \<le> n * (round_cost segs + 4 * Suc n)" by (rule mult_le_mono2)
  then show ?thesis unfolding rounds_cost_def mult_Suc by linarith
qed

context stm
begin

lemma resting_env [simp]: "resting n V (with_env e s) = resting n V s"
  by (simp add: resting_def with_env_def)

lemma round_step:
  assumes "resting (k + round_cost segs) V s" and "tl (b_tm b) = L" and "bank_shape nb b V segs"
    and "3 + nb \<le> max_words"
  shows "\<exists>a s' V' segs'. bank_round b op s = Some (Inr a, s') \<and> resting k V' s' \<and> bank_shape nb b V' segs' \<and>
    (TransactionRetry \<in> faults \<and> a = Retried \<and> segs' = segs \<or> (\<exists>p. op_spec nb (init_balance b) p op segs = (a, segs')))"
proof (cases op)
  case Long
  have "resting (k + 2 + long_cost segs) V (with_env 0 s)"
    unfolding resting_env using assms(1) by (rule resting_le) (simp add: round_cost_def long_cost_le)
  from long_attempt [OF this assms(2,3)]
  obtain r s' where r: "attempt (b_tm b) True (long_body b) (with_env 0 s) = Some (r, s')" "resting k V s'"
      "TransactionRetry \<in> faults \<and> r = Inl TransactionRetry \<or> (\<exists>ok. r = Inr ok \<and> long_done b segs ok (s_env s'))"
    by blast
  from r(3) show ?thesis
  proof (elim disjE exE conjE)
    assume "TransactionRetry \<in> faults" "r = Inl TransactionRetry"
    then show ?thesis using Long r(1,2) assms(3)
      by (auto simp: answered_def run_in_Some [where f = "attempt (b_tm b) True (long_body b)" and d = 0, OF r(1)] return_def)
  next
    fix ok assume ok: "r = Inr ok" "long_done b segs ok (s_env s')"
    have "long_answer (ok, s_env s') = LongAnswer (audit (init_balance b) segs)"
      using ok(2) by (cases "overdrawn (accs_of segs)") (auto simp: long_done_def long_answer_def audit_def)
    then show ?thesis using Long r(1,2) assms(3) ok(1)
      by (auto simp: answered_def run_in_Some [where f = "attempt (b_tm b) True (long_body b)" and d = 0, OF r(1)] return_def)
  qed
next
  case (Alloc trigger)
  have "resting (k + 9 + 2 * length segs) V s"
    using assms(1) by (rule resting_le) (simp add: round_cost_def)
  from alloc_attempt [OF this assms(2-4), of trigger]
  obtain r s' V' where r: "attempt (b_tm b) False (alloc_body b trigger) s = Some (r, s')" "resting k V' s'"
      "TransactionRetry \<in> faults \<and> r = Inl TransactionRetry \<and> V' = V \<or>
       (\<exists>u. r = Inr u \<and> alloc_post nb b trigger segs V')"
    by blast
  from r(3) show ?thesis
  proof (elim disjE exE conjE)
    assume "TransactionRetry \<in> faults" "r = Inl TransactionRetry" "V' = V"
    then show ?thesis using Alloc r(1,2) assms(3) by (auto simp: answered_def return_def)
  next
    fix u assume u: "r = Inr u" "alloc_post nb b trigger segs V'"
    then have "bank_round b op s = Some (Inr AllocDone, s')" using Alloc r(1) by (simp add: answered_def return_def)
    moreover obtain p where p: "bank_shape nb b V' (alloc_segs nb (init_balance b) (unat trigger) p segs)"
      using u(2) by (auto simp: alloc_post_def)
    moreover have "op_spec nb (init_balance b) p op segs = (AllocDone, alloc_segs nb (init_balance b) (unat trigger) p segs)"
      using Alloc by simp
    ultimately show ?thesis using r(2) by blast
  qed
next
  case (Short i j)
  have rest: "resting (k + 6 + 2 * length segs) V (with_env (i, j) s)"
    unfolding resting_env using assms(1) by (rule resting_le) (simp add: round_cost_def)
  have "s_env (with_env (i, j) s) = (i, j)" by (simp add: with_env_def)
  from short_attempt [OF rest assms(2,3) this] obtain r s' V' where r: "attempt (b_tm b) False (short_body b) (with_env (i, j) s) = Some (r, s')"
      "resting k V' s'"
      "TransactionRetry \<in> faults \<and> r = Inl TransactionRetry \<and> V' = V \<or>
       (\<exists>ok. r = Inr ok \<and> short_done nb b segs (unat i) (unat j) V ok V')"
    by blast
  from r(3) show ?thesis
  proof (elim disjE exE conjE)
    assume "TransactionRetry \<in> faults" "r = Inl TransactionRetry" "V' = V"
    then show ?thesis using Short r(1,2) assms(3)
      by (auto simp: answered_def run_in_Some [where f = "attempt (b_tm b) False (short_body b)" and d = "(i, j)", OF r(1)] return_def)
  next
    fix ok assume "r = Inr ok" "short_done nb b segs (unat i) (unat j) V ok V'"
    then show ?thesis using Short r(1,2) assms(3)
      by (auto simp: answered_def run_in_Some [where f = "attempt (b_tm b) False (short_body b)" and d = "(i, j)", OF r(1)] return_def short_done_def split: if_splits)
  qed
qed

text \<open>Without faults no round is retried.\<close>

lemma rounds_run:
  assumes "resting (k + rounds_cost (length ops) segs) V s" and "tl (b_tm b) = L" and "bank_shape nb b V segs"
    and "3 + nb \<le> max_words"
  shows "\<exists>as s' V' segs'. bank_rounds b ops s = Some (Inr as, s') \<and> resting k V' s' \<and> bank_shape nb b V' segs' \<and>
    bank_run nb (init_balance b) ops as segs segs' \<and> (faults = {} \<longrightarrow> Retried \<notin> set as)"
  using assms(1,3)
proof (induction ops arbitrary: s V segs)
  case Nil
  have "bank_run nb (init_balance b) [] [] segs segs" by (rule bank_run.nothing)
  moreover have "resting k V s" using Nil(1) by (rule resting_le) simp
  ultimately show ?case using Nil(2) by (auto simp: return_def)
next
  case (Cons op ops)
  let ?ib = "init_balance b"
  define m where "m = k + rounds_cost (Suc (length ops)) segs - round_cost segs"
  have shape: "segs \<noteq> []" "\<forall>sg \<in> set segs. snd (snd sg) \<noteq> []" using Cons.prems(2) by (simp_all add: bank_shape_def)
  have cost: "round_cost segs + rounds_cost (length ops) segs \<le> rounds_cost (Suc (length ops)) segs"
    by (rule rounds_cost_step) simp_all
  then have m: "k + rounds_cost (length (op # ops)) segs = m + round_cost segs" by (simp add: m_def)
  from round_step [OF Cons.prems(1) [unfolded m] assms(2) Cons.prems(2) assms(4), of op]
  obtain a s1 V1 segs1 where 1: "bank_round b op s = Some (Inr a, s1)" "resting m V1 s1" "bank_shape nb b V1 segs1"
      "TransactionRetry \<in> faults \<and> a = Retried \<and> segs1 = segs \<or> (\<exists>p. op_spec nb ?ib p op segs = (a, segs1))" by blast
  have "length segs1 \<le> Suc (length segs) \<and> length (accs_of segs1) \<le> Suc (length (accs_of segs))"
    using 1(4) op_spec_length [OF _ shape] by (elim disjE exE conjE) (simp, blast)
  then have "k + rounds_cost (length ops) segs1 \<le> m"
    using rounds_cost_step [of segs1 segs "length ops"] m by simp
  then have "resting (k + rounds_cost (length ops) segs1) V1 s1" by (rule resting_le [OF 1(2)])
  from Cons.IH [OF this 1(3)]
  obtain as s2 V2 segs2 where 2: "bank_rounds b ops s1 = Some (Inr as, s2)" "resting k V2 s2" "bank_shape nb b V2 segs2"
      "bank_run nb ?ib ops as segs1 segs2" "faults = {} \<longrightarrow> Retried \<notin> set as" by blast
  have "bank_rounds b (op # ops) s = Some (Inr (a # as), s2)" using 1(1) 2(1) by (simp add: return_def)
  moreover have "bank_run nb ?ib (op # ops) (a # as) segs segs2 \<and> (faults = {} \<longrightarrow> Retried \<notin> set (a # as))"
    using 1(4)
  proof (elim disjE exE conjE)
    assume "TransactionRetry \<in> faults" "a = Retried" "segs1 = segs"
    with 2(4) show ?thesis by (auto intro: bank_run.retry)
  next
    fix p assume p: "op_spec nb ?ib p op segs = (a, segs1)"
    with 2(4,5) op_spec_answer [OF p] show ?thesis by (auto intro: bank_run.commit)
  qed
  ultimately show ?case using 2(2,3) by blast
qed

end

text \<open>A round that is not retried is the whole transaction.\<close>

lemma run_in_answer:
  assumes "run_in d f s = Some (Inr x, s')" and "\<And>s x s'. f s = Some (Inr x, s') \<Longrightarrow> g s = Some (Inr x, s')"
  shows "run_in d g s = Some (Inr x, s')"
proof -
  obtain r t where f: "f (with_env d s) = Some (r, t)" using assms(1) by (cases "f (with_env d s)") (auto simp: run_in_def)
  then obtain y where "r = Inr y" using assms(1) by (cases r) (auto simp: run_in_def throw_def)
  with f assms show ?thesis by (simp add: run_in_def)
qed

lemma answered_Inr:
  assumes "answered f m = Some (Inr a, s')" and "a \<noteq> Retried"
  obtains x where "m = Some (Inr x, s')" "a = f x"
  using assms by (auto simp: answered_def return_def throw_def split: option.splits sum.splits if_splits)

lemma round_serve:
  assumes "bank_round b op s = Some (Inr a, s')" and "a \<noteq> Retried"
  shows "serve b op s = Some (Inr a, s')"
proof (cases op)
  case Long
  then obtain x where x: "run_in 0 (attempt (b_tm b) True (long_body b)) s = Some (Inr x, s')" "a = long_answer x"
    using assms answered_Inr by (metis bank_round.simps(1))
  have "run_in 0 (long_tx b) s = Some (Inr x, s')"
    by (rule run_in_answer [OF x(1)]) (simp add: long_tx_def transactional_commits)
  with Long x(2) show ?thesis by (simp add: return_def)
next
  case (Alloc trigger)
  then obtain x where x: "attempt (b_tm b) False (alloc_body b trigger) s = Some (Inr x, s')" "a = AllocDone"
    using assms by (auto elim: answered_Inr)
  then have "alloc_tx b trigger s = Some (Inr x, s')" by (simp add: alloc_tx_def transactional_commits)
  with Alloc x(2) show ?thesis by (simp add: return_def)
next
  case (Short i j)
  then obtain x where x: "run_in (i, j) (attempt (b_tm b) False (short_body b)) s = Some (Inr x, s')"
      "a = ShortAnswer (fst x)"
    using assms answered_Inr by (metis bank_round.simps(3))
  have "(with_env (i, j) s)\<lparr>s_env := (i, j)\<rparr> = with_env (i, j) s" by (simp add: with_env_def)
  then have "run_in (i, j) (short_tx b i j) s = run_in (i, j) (transactional (b_tm b) False (short_body b)) s"
    by (simp add: run_in_def short_tx_def)
  also have "\<dots> = Some (Inr x, s')"
    by (rule run_in_answer [OF x(1)]) (rule transactional_commits)
  finally show ?thesis using Short x(2) by (simp add: return_def)
qed

lemma rounds_serve:
  "bank_rounds b ops s = Some (Inr as, s') \<Longrightarrow> Retried \<notin> set as \<Longrightarrow> serve_all b ops s = Some (Inr as, s')"
proof (induction ops arbitrary: s as)
  case (Cons op ops)
  obtain r1 s1 where 1: "bank_round b op s = Some (r1, s1)" using Cons.prems(1) by (cases "bank_round b op s") auto
  then obtain a where a: "r1 = Inr a" using Cons.prems(1) by (cases r1) (auto simp: throw_def)
  obtain r2 s2 where 2: "bank_rounds b ops s1 = Some (r2, s2)" using Cons.prems(1) 1 a by (cases "bank_rounds b ops s1") auto
  then obtain as2 where b: "r2 = Inr as2" using Cons.prems(1) 1 a by (cases r2) (auto simp: throw_def)
  have "as = a # as2" "s' = s2" using Cons.prems(1) 1 2 a b by (simp_all add: return_def)
  then have "serve b op s = Some (Inr a, s1)" "serve_all b ops s1 = Some (Inr as2, s2)"
    using round_serve [of b op s a s1] Cons.IH [of s1 as2] Cons.prems(2) 1 2 a b by auto
  then show ?case using \<open>as = a # as2\<close> \<open>s' = s2\<close> by (simp add: return_def)
qed (simp add: return_def)

context reliable_stm
begin

text \<open>Without faults every transaction is served in one round.\<close>

lemma serve_step:
  assumes "resting (k + round_cost segs) V s" and "tl (b_tm b) = L" and "bank_shape nb b V segs"
    and "3 + nb \<le> max_words"
  shows "\<exists>a s' V' segs' p. serve b op s = Some (Inr a, s') \<and> resting k V' s' \<and> bank_shape nb b V' segs' \<and>
    op_spec nb (init_balance b) p op segs = (a, segs')"
proof -
  obtain a s' V' segs' p where r: "bank_round b op s = Some (Inr a, s')" "resting k V' s'" "bank_shape nb b V' segs'"
      "op_spec nb (init_balance b) p op segs = (a, segs')"
    using round_step [OF assms, of op] by blast
  from round_serve [OF r(1) op_spec_answer [OF r(4)]] r show ?thesis by blast
qed

end

section \<open>On the level of the specification\<close>

text \<open>The addresses of the segments do not matter.\<close>

lemma content_accs: "map snd segs = map snd segs' \<Longrightarrow> accs_of segs = accs_of segs'"
proof -
  have "accs_of segs = concat (map snd (map snd segs))" for segs
    by (simp add: accs_of_def case_prod_unfold comp_def)
  then show "map snd segs = map snd segs' \<Longrightarrow> accs_of segs = accs_of segs'" by metis
qed

lemma content_money: "map snd segs = map snd segs' \<Longrightarrow> bank_money segs = bank_money segs'"
proof -
  have "parity_of segs = sum_list (map fst (map snd segs))" for segs
    by (simp add: parity_of_def case_prod_unfold comp_def)
  then show "map snd segs = map snd segs' \<Longrightarrow> bank_money segs = bank_money segs'"
    using content_accs unfolding bank_money_def by metis
qed

lemma content_upd: "map snd segs = map snd segs' \<Longrightarrow> map snd (upd_acc segs i x) = map snd (upd_acc segs' i x)"
proof (induction segs i x arbitrary: segs' rule: upd_acc.induct)
  case (2 q par accs segs i x)
  then obtain q' rest where "segs' = (q', par, accs) # rest" by (cases segs') auto
  with 2 show ?case by auto
qed simp

lemma content_paid: "map snd segs = map snd segs' \<Longrightarrow> map snd (paid segs i j) = map snd (paid segs' i j)"
  unfolding paid_def Let_def accs_upd by (simp only: content_accs [of segs segs']) (auto intro!: content_upd)

lemma content_alloc:
  assumes "map snd segs = map snd segs'" and "segs \<noteq> []" and "\<forall>sg \<in> set segs. snd (snd sg) \<noteq> []"
  shows "map snd (alloc_segs nb ib t p segs) = map snd (alloc_segs nb ib t p' segs')"
proof -
  have A: "accs_of segs = accs_of segs'" using content_accs [OF assms(1)] .
  have ne': "segs' \<noteq> []" using assms(1,2) by auto
  have bl: "map snd (butlast segs) = map snd (butlast segs')" using assms(1) by (metis map_butlast)
  have la: "snd (last segs) = snd (last segs')" using assms(1,2) ne' by (metis last_map)
  obtain q par accs where l: "last segs = (q, par, accs)" by (cases "last segs") auto
  then obtain q' where l': "last segs' = (q', par, accs)" using la by (cases "last segs'") auto
  show ?thesis
  proof (cases "t < length (accs_of segs) \<and> 2 < length (accs_of segs) \<and> \<not> 1 < length accs")
    case True
    have segs: "segs = butlast segs @ [(q, par, accs)]" using assms(2) l by (metis append_butlast_last_id)
    have "accs_of segs = accs_of (butlast segs) @ accs" by (subst segs) simp
    then have b: "butlast segs \<noteq> []" "butlast segs' \<noteq> []" using True bl by auto
    have bb: "map snd (butlast (butlast segs)) = map snd (butlast (butlast segs'))" using bl by (metis map_butlast)
    have lb: "snd (last (butlast segs)) = snd (last (butlast segs'))" using bl b by (metis last_map)
    show ?thesis using True A l l' bb lb
      by (cases "last (butlast segs)"; cases "last (butlast segs')") (auto simp: alloc_segs_def)
  next
    case False
    then show ?thesis using A l l' bl assms(1) by (auto simp: alloc_segs_def)
  qed
qed

text \<open>Every segment holds an account; the transactions keep it so.\<close>

definition populated :: "bseg list \<Rightarrow> bool" where
  "populated segs \<longleftrightarrow> segs \<noteq> [] \<and> (\<forall>sg \<in> set segs. snd (snd sg) \<noteq> [])"

lemma bank_shape_populated: "bank_shape nb b V segs \<Longrightarrow> populated segs"
  by (simp add: bank_shape_def populated_def)

lemma populated_content: "map snd segs = map snd segs' \<Longrightarrow> populated segs = populated segs'"
proof -
  have "populated segs \<longleftrightarrow> map snd segs \<noteq> [] \<and> (\<forall>c \<in> set (map snd segs). snd c \<noteq> [])" for segs
    by (auto simp: populated_def)
  then show "map snd segs = map snd segs' \<Longrightarrow> populated segs = populated segs'" by metis
qed

lemma populated_paid: "populated (paid segs i j) = populated segs"
proof -
  have "paid segs i j = [] \<longleftrightarrow> segs = []" by (metis length_0_conv paid_length)
  then show ?thesis by (auto simp: populated_def paid_def Let_def upd_acc_nonempty)
qed

lemma populated_alloc:
  assumes "populated segs"
  shows "populated (alloc_segs nb ib t p segs)"
proof -
  have ne: "segs \<noteq> []" "\<forall>sg \<in> set segs. snd (snd sg) \<noteq> []" using assms by (simp_all add: populated_def)
  then show ?thesis
  proof (cases rule: alloc_segs_cases [where nb = nb and ib = ib and trigger = t and p = p])
    case (shrink front q par accs x)
    then show ?thesis using ne(2) unfolding populated_def by (simp only: shrink(5)) simp
  next
    case (merge front q' par' accs' q par x)
    then show ?thesis using ne(2) unfolding populated_def by (simp only: merge(4)) simp
  next
    case (grow front q par accs)
    then show ?thesis using ne(2) unfolding populated_def by (simp only: grow(4)) simp
  next
    case (extend front q par accs)
    then show ?thesis using ne(2) unfolding populated_def by (simp only: extend(4)) simp
  qed
qed

lemma populated_op: "op_spec nb ib p op segs = (a, segs1) \<Longrightarrow> populated segs \<Longrightarrow> populated segs1"
  by (cases op) (auto simp: populated_paid populated_alloc split: if_splits)

lemma content_op:
  assumes "op_spec nb ib p op segs = (a, segs1)" and "op_spec nb ib p' op segs' = (a', segs1')"
    and "map snd segs = map snd segs'" and "populated segs"
  shows "a = a' \<and> map snd segs1 = map snd segs1'"
proof (cases op)
  case Long
  have "audit ib segs = audit ib segs'"
    unfolding audit_def content_accs [OF assms(3)] content_money [OF assms(3)] by (rule refl)
  with Long assms(1-3) show ?thesis by auto
next
  case (Alloc trigger)
  then show ?thesis
    using assms(1,2,4) content_alloc [OF assms(3), of nb ib "unat trigger" p p'] by (auto simp: populated_def)
next
  case (Short i j)
  then show ?thesis
    using assms(1-3) content_accs [OF assms(3)] content_paid [OF assms(3)] by (auto split: if_splits)
qed

text \<open>The committed transactions alone give the same answers and the same bank.\<close>

fun committed :: "bank_op list \<Rightarrow> answer list \<Rightarrow> bank_op list" where
  "committed (op # ops) (a # as) = (if a = Retried then committed ops as else op # committed ops as)"
| "committed _ _ = []"

lemma bank_run_committed:
  "bank_run nb ib ops as segs segsE \<Longrightarrow> bank_run nb ib (committed ops as) bs segs' segsE' \<Longrightarrow> Retried \<notin> set bs \<Longrightarrow>
   map snd segs = map snd segs' \<Longrightarrow> populated segs \<Longrightarrow>
   bs = filter (\<lambda>a. a \<noteq> Retried) as \<and> map snd segsE = map snd segsE'"
proof (induction arbitrary: bs segs' rule: bank_run.induct)
  case (nothing segs)
  then show ?case by (auto elim: bank_run_NilE)
next
  case (retry ops as segs segsE op)
  then show ?case by simp
next
  case (commit p op segs a segs1 ops as segsE)
  have a: "a \<noteq> Retried" using op_spec_answer [OF commit.hyps(1)] .
  then have "bank_run nb ib (op # committed ops as) bs segs' segsE'" using commit.prems(1) by simp
  then obtain p' a' segs1' bs' where b: "bs = a' # bs'" "op_spec nb ib p' op segs' = (a', segs1')"
      "bank_run nb ib (committed ops as) bs' segs1' segsE'"
    using commit.prems(2) by (elim bank_run_ConsE) auto
  have "a = a' \<and> map snd segs1 = map snd segs1'"
    by (rule content_op [OF commit.hyps(1) b(2) commit.prems(3,4)])
  moreover have "populated segs1" using populated_op [OF commit.hyps(1) commit.prems(4)] .
  ultimately show ?case using commit.IH [OF b(3)] commit.prems(2) b(1) a by auto
qed

text \<open>
  The long transactions find no violation while every balance stays below the largest one that
  a balance can take: each transaction raises a balance by at most one.
\<close>

definition headroom :: "nat \<Rightarrow> 64 word list \<Rightarrow> bool" where
  "headroom h xs \<longleftrightarrow> (\<forall>x \<in> set xs. sint x + int h < 2 ^ 63)"

lemma headroom_mono: "headroom h xs \<Longrightarrow> k \<le> h \<Longrightarrow> headroom k xs"
  by (fastforce simp: headroom_def)

lemma headroom_paid:
  assumes "headroom (Suc h) (accs_of segs)" and "\<not> overdrawn (accs_of segs)"
    and "i < length (accs_of segs)" and "j < length (accs_of segs)"
  shows "headroom h (accs_of (paid segs i j))"
proof (cases "0 < sint (accs_of segs ! i)")
  case True
  let ?A = "accs_of segs"
  let ?B = "?A[i := ?A ! i - 1]"
  have A: "sint (?A ! k) + int (Suc h) < 2 ^ 63" if "k < length ?A" for k
    using assms(1) that by (simp add: headroom_def)
  have B: "sint x + int (Suc h) < 2 ^ 63" if "x \<in> set ?B" for x
  proof -
    have "x \<in> insert (?A ! i - 1) (set ?A)" by (rule subsetD [OF set_update_subset_insert that])
    then show ?thesis
    proof (elim insertE)
      assume "x = ?A ! i - 1"
      then show ?thesis using A [OF assms(3)] sint_pred [OF True] by simp
    next
      assume "x \<in> set ?A"
      then show ?thesis using assms(1) by (simp add: headroom_def)
    qed
  qed
  have "?B ! j \<in> set ?B" using assms(4) by simp
  from B [OF this] have "sint (?B ! j) < 2 ^ 63 - 1" and j: "sint (?B ! j) + int (Suc h) < 2 ^ 63" by simp_all
  then have succ: "sint (?B ! j + 1) = sint (?B ! j) + 1" by (intro sint_succ)
  have "sint x + int h < 2 ^ 63" if "x \<in> set (accs_of (paid segs i j))" for x
  proof -
    have "x \<in> insert (?B ! j + 1) (set ?B)"
      using that True set_update_subset_insert [of ?B j "?B ! j + 1"] by (auto simp: accs_paid)
    then show ?thesis
    proof (elim insertE)
      assume "x = ?B ! j + 1"
      then show ?thesis using j succ by simp
    next
      assume "x \<in> set ?B"
      from B [OF this] show ?thesis by simp
    qed
  qed
  then show ?thesis by (simp add: headroom_def)
next
  case False
  then show ?thesis using headroom_mono [OF assms(1)] by (simp add: accs_paid)
qed

lemma headroom_alloc:
  assumes "headroom h (accs_of segs)" and "sint ib + int h < 2 ^ 63" and "populated segs"
  shows "headroom h (accs_of (alloc_segs nb ib t p segs))"
proof -
  have "segs \<noteq> []" "\<forall>sg \<in> set segs. snd (snd sg) \<noteq> []" using assms(3) by (simp_all add: populated_def)
  then show ?thesis
    by (cases rule: alloc_segs_cases [where nb = nb and ib = ib and trigger = t and p = p])
      (use assms(1,2) in \<open>auto simp: headroom_def\<close>)
qed

lemma op_spec_audits:
  assumes op: "op_spec nb ib p op segs = (a, segs1)" and bal: "balanced ib segs" and pop: "populated segs"
    and head: "headroom (Suc h) (ib # accs_of segs)" and ib: "0 \<le> sint ib"
  shows "a \<noteq> LongAnswer None \<and> balanced ib segs1 \<and> headroom h (ib # accs_of segs1) \<and> populated segs1"
proof -
  have h: "headroom (Suc h) (accs_of segs)" "sint ib + int h < 2 ^ 63"
    using head by (simp_all add: headroom_def)
  have "a \<noteq> LongAnswer None \<and> balanced ib segs1 \<and> headroom h (accs_of segs1)"
  proof (cases op)
    case Long
    then show ?thesis using op bal headroom_mono [OF h(1), of h]
      by (auto simp: audit_def balanced_def)
  next
    case (Alloc trigger)
    then show ?thesis
      using op alloc_segs_balanced [OF bal _ _ ib] headroom_alloc [OF headroom_mono [OF h(1)] h(2) pop] pop
      by (auto simp: populated_def)
  next
    case (Short i j)
    have solvent: "\<not> overdrawn (accs_of segs)" using bal by (simp add: balanced_def)
    show ?thesis
    proof (cases "unat i < length (accs_of segs) \<and> unat j < length (accs_of segs)")
      case True
      then have "sint (accs_of segs ! unat j) + int (Suc h) < 2 ^ 63" using h(1) by (simp add: headroom_def)
      then have "sint (accs_of segs ! unat j) < 2 ^ 63 - 1" by simp
      then have "balanced ib (paid segs (unat i) (unat j))"
        using paid_overdrawn [OF solvent] True paid_money bal by (simp add: balanced_def)
      then show ?thesis using Short True op headroom_paid [OF h(1) solvent] by auto
    next
      case False
      then show ?thesis using Short op bal headroom_mono [OF h(1), of h] by auto
    qed
  qed
  then show ?thesis using populated_op [OF op pop] h(2) by (simp add: headroom_def)
qed

text \<open>Two accounts remain when there were two: the last but one is never taken away.\<close>

lemma op_spec_two:
  assumes "op_spec nb ib p op segs = (a, segs1)" and "populated segs" and "2 \<le> length (accs_of segs)"
  shows "2 \<le> length (accs_of segs1)"
proof -
  have "segs \<noteq> []" "\<forall>sg \<in> set segs. snd (snd sg) \<noteq> []" using assms(2) by (simp_all add: populated_def)
  with assms(1,3) alloc_segs_length [OF this] show ?thesis by (cases op) (auto split: if_splits)
qed

lemma bank_run_audits:
  "bank_run nb ib ops as segs segs' \<Longrightarrow> balanced ib segs \<Longrightarrow> populated segs \<Longrightarrow> headroom (length ops) (ib # accs_of segs) \<Longrightarrow>
   0 \<le> sint ib \<Longrightarrow> LongAnswer None \<notin> set as \<and> balanced ib segs'"
proof (induction rule: bank_run.induct)
  case (nothing segs)
  then show ?case by simp
next
  case (retry ops as segs segsE op)
  then show ?case using headroom_mono [of "length (op # ops)" "ib # accs_of segs" "length ops"] by simp
next
  case (commit p op segs a segs1 ops as segsE)
  have "headroom (Suc (length ops)) (ib # accs_of segs)" using commit.prems(3) by simp
  from op_spec_audits [OF commit.hyps(1) commit.prems(1,2) this commit.prems(4)] commit.IH commit.prems(4)
  show ?case by auto
qed

end
