(* ===== verification/Stm_Reference.thy ===== *)
theory Stm_Reference
  imports Word_View Reference_Concurrent Bank_Rounds
begin

text \<open>
  The reference implementation, called by one thread, satisfies the contract and never aborts:
  between transactions the lock is free; a running transaction holds it in its mode and the
  memory is its view.
\<close>

definition ref_common :: "nat \<Rightarrow> addr \<Rightarrow> nat \<Rightarrow> amem \<Rightarrow> ref_region \<Rightarrow> cstate \<Rightarrow> bool" where
  "ref_common W loc n V rg c \<longleftrightarrow>
     r_align rg = 8 \<and> aligned 8 loc \<and> holds_words loc (aw V) (mem c) \<and>
     can_alloc n c \<and> pool W loc (aw V) (answers c) \<and>
     (\<exists>ps. seg_list (heap c) NULL (r_allocs rg) ps \<and> (\<forall>p. asg V p \<noteq> None \<longleftrightarrow> p - 16 \<in> set ps))"

definition ref_idle :: "nat \<Rightarrow> addr \<Rightarrow> nat \<Rightarrow> amem \<Rightarrow> ref_region \<Rightarrow> cstate \<Rightarrow> bool" where
  "ref_idle W loc n V rg c \<longleftrightarrow> r_lock rg = \<lparr>readers = 0, writer = False\<rparr> \<and> ref_common W loc n V rg c"

definition ref_active :: "nat \<Rightarrow> addr \<Rightarrow> nat \<Rightarrow> amem \<Rightarrow> addr \<Rightarrow> bool \<Rightarrow> amem \<Rightarrow> ref_region \<Rightarrow> cstate \<Rightarrow> bool" where
  "ref_active W loc n V0 tx ro V rg c \<longleftrightarrow> ref_common W loc n V rg c \<and>
     (if ro then tx = read_only_tx \<and> r_lock rg = \<lparr>readers = 1, writer = False\<rparr>
      else tx = read_write_tx \<and> r_lock rg = \<lparr>readers = 0, writer = True\<rparr>)"

lemma ref_common_lock: "ref_common W loc n V (rg\<lparr>r_lock := l\<rparr>) c = ref_common W loc n V rg c"
  by (simp add: ref_common_def)

lemma ref_common_less: "ref_common W loc (Suc n) V rg c \<Longrightarrow> ref_common W loc n V rg c"
  using can_alloc_mono by (fastforce simp: ref_common_def)

lemma ref_common_mem:
  "ref_common W loc n V rg c \<Longrightarrow> holds_words loc (aw V) m \<Longrightarrow> ref_common W loc n V rg (c\<lparr>mem := m\<rparr>)"
  by (simp add: ref_common_def)

lemma ref_common_write:
  assumes "ref_common W loc n V rg c" and "aw V a \<noteq> None"
  shows "ref_common W loc n (am_write a x V) rg (c\<lparr>mem := store (mem c) a (to_bytes 8 x)\<rparr>)"
proof -
  have "holds_words loc (aw (am_write a x V)) (store (mem c) a (to_bytes 8 x))"
    using holds_words_write [of loc "aw V" "mem c" a x] assms by (simp add: ref_common_def am_write_def)
  moreover have "pool W loc (aw (am_write a x V)) (answers c)"
    using assms pool_write by (simp add: ref_common_def am_write_def)
  ultimately show ?thesis using assms(1) by (simp add: ref_common_def am_write_def)
qed

lemma ref_common_alloc:
  assumes "ref_common W loc (Suc n) V rg c" and "0 < k" and "k \<le> W - 2"
  shows "\<exists>p rg' c'. ref_tm_alloc rg (8 * word_of_nat k) c = Some (success_alloc, Some p, rg', c') \<and>
    r_lock rg' = r_lock rg \<and> fresh_block V p k \<and> ref_common W loc n (am_alloc p k V) rg' c'"
proof -
  obtain ps where ps: "seg_list (heap c) NULL (r_allocs rg) ps" "\<And>p. asg V p \<noteq> None \<longleftrightarrow> p - 16 \<in> set ps"
    using assms(1) by (auto simp: ref_common_def)
  have ca: "can_alloc (Suc n) c" and pl: "pool W loc (aw V) (answers c)" and al: "r_align rg = 8"
    using assms(1) by (simp_all add: ref_common_def)
  obtain q qs where q: "answers c = q # qs" "q \<noteq> NULL" "heap c q = None" "q \<notin> set qs"
      "\<forall>p \<in> set qs. p \<noteq> NULL \<and> heap c p = None" "n \<le> length qs" "distinct qs"
    using ca by (cases "answers c") (auto simp: can_alloc_def)
  have kW: "k + 2 \<le> W" using assms(2,3) by simp
  note take = pool_take [OF pl [unfolded q(1)] q(4) kW]
  have W: "unat q + 8 * (k + 2) < 2 ^ 64" using take(2) kW by simp
  let ?sz = "8 * word_of_nat k :: csize" and ?p = "q + 16"
  have sz: "unat ?sz = 8 * k" using unat_small [of "8 * k"] W by simp
  have p: "unat ?p = unat q + 16" using unat_plus_offset [of q 16] W by simp
  define c1 where "c1 = c\<lparr>heap := (heap c)(q := Some (Uninit (unat (16 + ?sz)))), answers := qs\<rparr>"
  have pm: "posix_memalign (if r_align rg < 8 then 8 else r_align rg) (unat (16 + ?sz)) c = (0, q, c1)"
    using al q take(1) by (simp add: posix_memalign_def power_of_two_simps c1_def)
  obtain c' where alloc: "ref_tm_alloc rg ?sz c = Some (success_alloc, Some ?p, rg\<lparr>r_allocs := q\<rparr>, c')"
      and c': "answers c' = qs" "mem c' = store (mem c) ?p (replicate (8 * k) 0)"
      "seg_list (heap c') NULL q (q # ps)" "\<And>x. x \<notin> set (q # ps) \<Longrightarrow> heap c' x = heap c x"
    using ref_tm_alloc_ok [OF pm ps(1)] by (auto simp: c1_def sz)
  have q_ps: "q \<notin> set ps" using q(3) seg_list_live [OF ps(1), of q] by auto
  have alp: "aligned 8 ?p" using aligned_16 [OF p take(1)] .
  have fresh: "fresh_block V ?p k"
    using p W alp take(3) ps(2) [of ?p] q_ps by (auto simp: fresh_block_def)
  have "heap c' x = None" if "x \<in> set qs" for x
  proof -
    have "x \<notin> set (q # ps)" using that q(4,5) seg_list_live [OF ps(1), of x] by auto
    with that q(5) c'(4) show ?thesis by simp
  qed
  then have "can_alloc n c'" using q(5-7) c'(1) by (simp add: can_alloc_def)
  moreover have "holds_words loc (aw (am_alloc ?p k V)) (mem c')"
    unfolding c'(2) am_alloc_def using holds_words_zero [OF _ alp _ take(3)] assms(1) p W
    by (simp add: ref_common_def)
  moreover have "\<forall>x. asg (am_alloc ?p k V) x \<noteq> None \<longleftrightarrow> x - 16 \<in> set (q # ps)"
    using ps(2) by (auto simp: am_alloc_def)
  ultimately have "ref_common W loc n (am_alloc ?p k V) (rg\<lparr>r_allocs := q\<rparr>) c'"
    using assms(1) c'(1,3) take(4) by (auto simp: ref_common_def am_alloc_def simp del: seg_list.simps)
  with alloc fresh show ?thesis by auto
qed

lemma ref_common_free:
  assumes "ref_common W loc (Suc n) V rg c" and "asg V p = Some k"
  shows "\<exists>rg' c'. ref_tm_free rg p c = Some (True, rg', c') \<and> r_lock rg' = r_lock rg \<and>
    ref_common W loc n (am_free p k V) rg' c'"
proof -
  obtain ps where ps: "seg_list (heap c) NULL (r_allocs rg) ps" "\<And>p. asg V p \<noteq> None \<longleftrightarrow> p - 16 \<in> set ps"
    using assms(1) by (auto simp: ref_common_def)
  then obtain xs ys where sp: "ps = xs @ (p - 16) # ys" using assms(2) split_list by (metis option.distinct(1))
  obtain a c' where fr: "ref_tm_free rg p c = Some (True, rg\<lparr>r_allocs := a\<rparr>, c')"
      "seg_list (heap c') NULL a (xs @ ys)" "heap c' (p - 16) = None"
      "\<And>x. x \<notin> set ps \<Longrightarrow> heap c' x = heap c x"
    using ref_tm_free_facts [OF ps(1) [unfolded sp]] by (auto simp: sp)
  note keep = ref_tm_free_mem [OF fr(1)]
  have dist: "distinct ps" using seg_list_distinct [OF ps(1)] .
  have "can_alloc (Suc n) c" using assms(1) by (simp add: ref_common_def)
  moreover have "heap c' x = None" if "heap c x = None" for x
    using that fr(4) [of x] seg_list_live [OF ps(1), of x] by auto
  ultimately have "can_alloc n c'" using keep by (simp add: can_alloc_def)
  moreover have "holds_words loc (aw (am_free p k V)) (mem c')"
    using assms(1) keep by (auto simp: ref_common_def am_free_def intro: holds_words_restrict split: if_splits)
  moreover have "pool W loc (aw (am_free p k V)) (answers c')"
    using assms(1) keep by (auto simp: ref_common_def am_free_def intro: pool_restrict)
  moreover have "asg (am_free p k V) x \<noteq> None \<longleftrightarrow> x - 16 \<in> set (xs @ ys)" for x
    using ps(2) [of x] dist by (auto simp: am_free_def sp)
  ultimately show ?thesis using fr(1,2) assms(1) by (auto simp: ref_common_def)
qed

lemmas ref_lock_defs =
  ref_tm_begin_def ref_tm_end_def rwlock_defs ref_active_def ref_idle_def ref_common_lock

interpretation ref_stm: reliable_stm "ref_library code" loc "ref_idle W loc" "ref_active W loc" "W - 2"
  for code W loc
proof (unfold_locales, goal_cases)
  case (1 n V r c)
  then show ?case by (simp add: ref_idle_def ref_common_less)
next
  case (2 n V0 tx ro V r c)
  then show ?case by (simp add: ref_active_def ref_common_less split: if_splits)
next
  case (3 n V r c ro)
  then show ?case
    by (cases ro) (auto simp: ref_library_def ref_lock_defs dest: ref_common_less)
next
  case (4 n V0 tx ro V r c a x)
  then have "ref_common W loc n V r c" by (simp add: ref_active_def ref_common_less)
  with holds_words_read [of loc "aw V" "mem c" a x] 4
  show ?case
    by (auto simp: ref_library_def ref_tm_read_def memcpy_def ref_active_def ref_common_def)
next
  case (5 n V0 tx ro V r c x)
  then show ?case
    using ref_common_mem [of W loc n V r c] holds_words_local [of loc "aw V" "mem c" "to_bytes 8 x"]
    by (simp add: ref_active_def ref_common_def)
next
  case (6 n V0 tx V r c a x)
  then show ?case
    using ref_common_write [of W loc n V r c a x] ref_common_less [of W loc n V r c]
    by (auto simp: ref_library_def ref_tm_write_def memcpy_def ref_active_def)
next
  case (7 n V0 tx V r c k)
  then show ?case
    using ref_common_alloc [of W loc n V r c k] by (fastforce simp: ref_library_def ref_active_def)
next
  case (8 n V0 tx V r c p k)
  then show ?case
    using ref_common_free [of W loc n V r c p k] by (fastforce simp: ref_library_def ref_active_def)
next
  case (9 n V0 tx ro V r c)
  then show ?case
    by (cases ro) (auto simp: ref_library_def ref_lock_defs dest: ref_common_less)
qed

end
