(* ===== verification/Stm_TL2.thy ===== *)
theory Stm_TL2
  imports Word_View Tm_Results Bank_Rounds
begin

text \<open>
  The TL2 implementation, called by one thread, satisfies the contract. Between transactions all
  locks are free and no version is newer than the clock; the view of a running transaction is the
  memory with its write set on top. Reads, writes, allocations and frees then never abort, but
  \<open>tm_end\<close> may fail: a write set of which two words share a lock cannot be committed.
\<close>

definition tl2_quiet :: "nat \<Rightarrow> region \<Rightarrow> bool" where
  "tl2_quiet n rg \<longleftrightarrow> align rg = 8 \<and> all_free (lock rg) \<and> \<not> segment_lock (lock rg) \<and>
     unat (clock (lock rg)) + n < 2 ^ 31 \<and> (\<forall>a. unat (ver (lock rg) a) \<le> unat (clock (lock rg)))"

text \<open>\<open>w\<close> are the words in use, \<open>segs\<close> the dynamic segments.\<close>

definition tl2_heap ::
  "nat \<Rightarrow> addr \<Rightarrow> nat \<Rightarrow> (addr \<Rightarrow> 64 word option) \<Rightarrow> (addr \<Rightarrow> bool) \<Rightarrow> region \<Rightarrow> cstate \<Rightarrow> bool" where
  "tl2_heap W loc n w segs rg c \<longleftrightarrow> aligned 8 loc \<and> can_alloc (3 * n) c \<and> pool W loc w (answers c) \<and>
     (\<exists>ps. seg_list (heap c) NULL (allocs rg) ps \<and> (\<forall>p. segs p \<longrightarrow> p - 16 \<in> set ps))"

definition tl2_view :: "addr \<Rightarrow> amem \<Rightarrow> (addr \<Rightarrow> byte) \<Rightarrow> txn \<Rightarrow> bool" where
  "tl2_view loc V m T \<longleftrightarrow>
     (\<forall>a x. aw V a = Some x \<longrightarrow> aligned 8 a \<and> a \<noteq> loc \<and> sp_value 8 m T a = to_bytes 8 x)"

definition in_use :: "amem \<Rightarrow> amem \<Rightarrow> txn \<Rightarrow> addr \<Rightarrow> 64 word option" where
  "in_use V0 V T a =
     (if a \<in> fst ` set (t_wset T) \<or> aw V a \<noteq> None \<or> aw V0 a \<noteq> None then Some 0 else None)"

definition tl2_idle :: "nat \<Rightarrow> addr \<Rightarrow> nat \<Rightarrow> amem \<Rightarrow> region \<Rightarrow> cstate \<Rightarrow> bool" where
  "tl2_idle W loc n V rg c \<longleftrightarrow> tl2_quiet n rg \<and> tl2_heap W loc n (aw V) (\<lambda>p. asg V p \<noteq> None) rg c \<and>
     holds_words loc (aw V) (mem c)"

definition tl2_active :: "nat \<Rightarrow> addr \<Rightarrow> nat \<Rightarrow> amem \<Rightarrow> addr \<Rightarrow> bool \<Rightarrow> amem \<Rightarrow> region \<Rightarrow> cstate \<Rightarrow> bool" where
  "tl2_active W loc n V0 tx ro V rg c \<longleftrightarrow> tl2_quiet n rg \<and> holds_words loc (aw V0) (mem c) \<and>
     (\<exists>fp T. tx_rel (heap c) tx fp T \<and> word_sized 8 (t_wset T) \<and> t_ro T = ro \<and>
        t_rv T = clock (lock rg) \<and> (\<forall>w \<in> set (t_wset T). aligned 8 (fst w)) \<and>
        tl2_heap W loc n (in_use V0 V T) (\<lambda>p. asg V p \<noteq> None \<or> asg V0 p \<noteq> None) rg c \<and>
        tl2_view loc V (mem c) T)"

section \<open>Resources\<close>

lemma tl2_quiet_less: "tl2_quiet (Suc n) rg \<Longrightarrow> tl2_quiet n rg"
  by (simp add: tl2_quiet_def)

lemma tl2_heap_less: "tl2_heap W loc (Suc n) w segs rg c \<Longrightarrow> tl2_heap W loc n w segs rg c"
  by (auto simp: tl2_heap_def intro: can_alloc_mono)

text \<open>The words kept in use may shrink, the allocator's answers too.\<close>

lemma tl2_heap_change:
  assumes "tl2_heap W loc m w segs rg c" and "can_alloc (3 * n) c'" and "set (answers c') \<subseteq> set (answers c)"
    and "\<And>a. w a = None \<Longrightarrow> w' a = None" and "\<And>p. segs' p \<Longrightarrow> segs p"
    and "\<And>ps. seg_list (heap c) NULL (allocs rg) ps \<Longrightarrow> seg_list (heap c') NULL (allocs rg) ps"
    and "allocs rg' = allocs rg"
  shows "tl2_heap W loc n w' segs' rg' c'"
proof -
  have "pool W loc w' (answers c')"
    using assms(1,3,4) unfolding tl2_heap_def pool_def by blast
  with assms show ?thesis unfolding tl2_heap_def by metis
qed

text \<open>What a transaction owns is never a segment.\<close>

lemma holdings_no_seg:
  assumes "tx_rel h tx fp T" and "p \<in> set (holdings tx fp)"
  shows "h p \<noteq> Some (Seg n)"
  using assms(1)
proof (rule tx_relE)
  fix t assume t: "h tx = Some (Tx t)"
    "read_set_rel h (first_read_node t) (last_read_node t) (fp_r fp) (t_rset T)"
    "write_set_rel h (first_write_node t) (last_write_node t) (fp_w fp) (fp_v fp) (t_wset T)"
  show ?thesis
    using assms(2) t(1) read_set_rel_live [OF t(2), of p] wdata_live [of h _ _ _ p] t(3)
    by (auto simp: holdings_def owned_def write_set_rel_def)
qed

lemma malloc_answers: "malloc n s = (p, s') \<Longrightarrow> set (answers s') \<subseteq> set (answers s)"
  by (auto simp: malloc_def split: list.splits if_splits)

lemma snd_malloc_answers: "x \<in> set (answers (snd (malloc n s))) \<Longrightarrow> x \<in> set (answers s)"
  using malloc_answers [of n s] by (cases "malloc n s") auto

lemma tm_begin_answers: "tm_begin rg ro s = Some (tx, s') \<Longrightarrow> set (answers s') \<subseteq> set (answers s)"
  using malloc_answers [of 40 s]
  by (cases "malloc 40 s")
    (auto simp: tm_begin_def transaction_init_def bind_simps split: if_splits dest!: heap_writes_keep_mem)

lemma tm_begin_tx:
  assumes "tm_begin rg ro s = Some (tx, s')" and "heap s tx = None" and "heap s' tx \<noteq> None"
  shows "tx \<in> set (answers s)"
proof (cases "answers s")
  case Nil
  with assms show ?thesis by (simp add: tm_begin_def malloc_none)
next
  case (Cons p ps)
  show ?thesis
  proof (cases "p = NULL \<or> heap s p \<noteq> None")
    case True
    with assms Cons show ?thesis by (auto simp: tm_begin_def malloc_def)
  next
    case False
    with assms(1) Cons show ?thesis by (auto simp: tm_begin_def malloc_def bind_simps)
  qed
qed

lemma read_node_create_answers:
  "read_node_create nn a s = Some (ok, p, s') \<Longrightarrow> set (answers s') \<subseteq> set (answers s)"
  using malloc_answers [of 16 s]
  by (cases "malloc 16 s")
    (auto simp: read_node_create_def bind_simps split: if_splits dest!: heap_writes_keep_mem)

lemma read_set_add_answers:
  "read_set_add f l a s = Some (ok, f', l', s') \<Longrightarrow> set (answers s') \<subseteq> set (answers s)"
  by (auto simp: read_set_add_def read_set_add_first_def read_set_add_next_def bind_simps
      split: if_splits dest!: read_node_create_answers heap_writes_keep_mem)

lemma buffer_answers:
  "memcpy_to_buffer p a n s = Some s' \<Longrightarrow> answers s' = answers s"
  "memcpy_from_buffer a p n s = Some s' \<Longrightarrow> answers s' = answers s"
  by (auto simp: memcpy_to_buffer_def memcpy_from_buffer_def split: option.splits obj.splits if_splits
      dest!: heap_writes_keep_mem)

lemma write_node_create_answers:
  "write_node_create nn a src n s = Some (ok, p, s') \<Longrightarrow> set (answers s') \<subseteq> set (answers s)"
  by (auto simp: write_node_create_def bind_simps split: if_splits
      dest!: heap_writes_keep_mem buffer_answers dest: subsetD [OF malloc_answers])
    (metis snd_malloc_answers)+

lemma write_set_add_answers:
  "write_set_add f l a src n s = Some (ok, f', l', s') \<Longrightarrow> set (answers s') \<subseteq> set (answers s)"
  by (auto simp: write_set_add_def write_set_add_first_def write_set_add_next_def bind_simps
      split: if_splits dest!: write_node_create_answers heap_writes_keep_mem)

text \<open>Words of eight bytes are read and written in one round.\<close>

lemma one_word:
  assumes "align rg = 8"
  shows "tm_read rg tx src 8 tgt s = Option.bind (tm_read_word rg tx src tgt s)
           (\<lambda>(ok, s). Some (ok, s))"
    and "tm_write rg tx src 8 tgt s = Option.bind (tm_write_word rg tx src tgt s) (\<lambda>(ok, s). Some (ok, s))"
proof -
  show "tm_read rg tx src 8 tgt s = Option.bind (tm_read_word rg tx src tgt s) (\<lambda>(ok, s). Some (ok, s))"
    unfolding tm_read_def using assms
    by (subst tm_read_loop.simps) (cases "tm_read_word rg tx src tgt s", auto)
  show "tm_write rg tx src 8 tgt s = Option.bind (tm_write_word rg tx src tgt s) (\<lambda>(ok, s). Some (ok, s))"
    unfolding tm_write_def using assms
    by (subst tm_write_loop.simps) (cases "tm_write_word rg tx src tgt s", auto)
qed

lemma tm_read_answers:
  assumes "align rg = 8" and "tm_read rg tx src 8 tgt s = Some (True, s')"
  shows "set (answers s') \<subseteq> set (answers s)"
proof -
  have "tm_read_word rg tx src tgt s = Some (True, s')"
    using assms by (auto simp: one_word bind_simps)
  then show ?thesis
    by (auto simp: tm_read_word_def bind_simps memcpy_def split: if_splits
        dest!: read_set_add_answers heap_writes_keep_mem buffer_answers)
qed

lemma tm_write_answers:
  assumes "align rg = 8" and "tm_write rg tx src 8 tgt s = Some (True, s')"
  shows "set (answers s') \<subseteq> set (answers s)"
proof -
  have "tm_write_word rg tx src tgt s = Some (True, s')"
    using assms by (auto simp: one_word bind_simps)
  then show ?thesis
    by (auto simp: tm_write_word_def write_node_overwrite_def bind_simps split: if_splits
        dest!: write_set_add_answers heap_writes_keep_mem buffer_answers)
qed

section \<open>Views\<close>

lemma sp_value_ro: "t_ro T \<Longrightarrow> sp_value 8 m T a = load m a 8"
  by (simp add: sp_value_def)

text \<open>Memory outside the words in view may change.\<close>

lemma tl2_view_store:
  assumes "tl2_view loc V m T" and "aligned 8 b" and "length bs = 8" and "aw V b = None"
  shows "tl2_view loc V (store m b bs) T"
  unfolding tl2_view_def
proof (intro allI impI)
  fix a x assume a: "aw V a = Some x"
  then have ab: "b \<noteq> a" using assms(4) by auto
  have al: "aligned 8 a \<and> a \<noteq> loc \<and> sp_value 8 m T a = to_bytes 8 x"
    using assms(1) a by (simp add: tl2_view_def)
  then have "load (store m b bs) a 8 = load m a 8"
    using load_store_other [OF word_size_eight assms(2) _ ab assms(3)] by simp
  then have "sp_value 8 (store m b bs) T a = sp_value 8 m T a" by (simp add: sp_value_def cong: option.case_cong)
  with al show "aligned 8 a \<and> a \<noteq> loc \<and> sp_value 8 (store m b bs) T a = to_bytes 8 x" by simp
qed

lemma tl2_view_local:
  "tl2_view loc V m T \<Longrightarrow> aligned 8 loc \<Longrightarrow> length bs = 8 \<Longrightarrow> tl2_view loc V (store m loc bs) T"
  by (rule tl2_view_store; cases "aw V loc") (auto simp: tl2_view_def)

lemma tl2_view_write:
  "tl2_view loc V m T \<Longrightarrow> \<not> t_ro T \<Longrightarrow> aw V a \<noteq> None \<Longrightarrow>
     tl2_view loc (am_write a x V) m (sp_write T a (to_bytes 8 x))"
  by (auto simp: tl2_view_def am_write_def sp_value_write)

text \<open>A cleared block of fresh words reads as zeros.\<close>

lemma tl2_view_zero:
  assumes "tl2_view loc V m T" and "t_ro T = False" and "aligned 8 p" and "unat p + 8 * n < 2 ^ 64"
    and "\<forall>a \<in> set (words_at p n). aw V a = None \<and> a \<noteq> loc \<and> a \<notin> fst ` set (t_wset T)"
  shows "tl2_view loc (V\<lparr>aw := (\<lambda>a. if a \<in> set (words_at p n) then Some 0 else aw V a), asg := sg\<rparr>)
    (store m p (replicate (8 * n) 0)) T"
proof -
  let ?w = "\<lambda>a. if map_of (t_wset T) a = None then aw V a else None"
  have v: "aligned 8 a \<and> a \<noteq> loc \<and> sp_value 8 m T a = to_bytes 8 x" if "aw V a = Some x" for a x
    using assms(1) that by (simp add: tl2_view_def)
  have "load m a 8 = to_bytes 8 x" if "map_of (t_wset T) a = None" "aw V a = Some x" for a x
    using v [OF that(2)] that(1) by (simp add: sp_value_def split: if_splits)
  then have "holds_words loc ?w m"
    using v by (simp add: holds_words_def split: if_splits)
  from holds_words_zero [OF this assms(3,4)] assms(5)
  have z: "holds_words loc (\<lambda>a. if a \<in> set (words_at p n) then Some 0 else ?w a)
      (store m p (replicate (8 * n) 0))" (is "holds_words loc ?z ?m") by simp
  show ?thesis
    unfolding tl2_view_def
  proof (intro allI impI)
    fix a x
    assume a: "aw (V\<lparr>aw := (\<lambda>a. if a \<in> set (words_at p n) then Some 0 else aw V a), asg := sg\<rparr>) a = Some x"
    show "aligned 8 a \<and> a \<noteq> loc \<and> sp_value 8 ?m T a = to_bytes 8 x"
    proof (cases "map_of (t_wset T) a")
      case None
      then have "?z a = Some x" using a by (auto split: if_splits)
      from holds_wordsD [OF z this] None assms(2) show ?thesis by (simp add: sp_value_def)
    next
      case (Some v)
      then have "a \<in> fst ` set (t_wset T)" by (metis domI dom_map_of_conv_image_fst)
      then have "a \<notin> set (words_at p n)" using assms(5) by blast
      then have "aw V a = Some x" using a by simp
      with v [OF this] assms(2) Some show ?thesis by (simp add: sp_value_def)
    qed
  qed
qed

text \<open>Committing: the memory after the write set is stored is the view.\<close>

lemma load_store_words:
  assumes "distinct (map fst ws)" and "word_sized 8 ws" and "\<forall>w \<in> set ws. aligned 8 (fst w)" and "aligned 8 a"
  shows "load (store_words m ws) a 8 = (case map_of ws a of Some v \<Rightarrow> v | None \<Rightarrow> load m a 8)"
  using assms
proof (induction ws arbitrary: m)
  case Nil
  then show ?case by (simp add: store_words_def)
next
  case (Cons w ws)
  obtain b v where w: "w = (b, v)" by fastforce
  have IH: "load (store_words (store m b v) ws) a 8 =
      (case map_of ws a of Some v \<Rightarrow> v | None \<Rightarrow> load (store m b v) a 8)"
    using Cons.prems by (intro Cons.IH) (auto simp: word_sized_def)
  have v: "length v = 8" "aligned 8 b" using Cons.prems w by (auto simp: word_sized_def)
  have "store_words m (w # ws) = store_words (store m b v) ws" by (simp add: store_words_def w)
  moreover have "map_of ws b = None" using Cons.prems(1) w by (simp add: map_of_eq_None_iff)
  ultimately show ?case
    using IH load_store_word [OF word_size_eight v(1), of m b]
      load_store_other [OF word_size_eight v(2) Cons.prems(4) _ v(1), of m]
    by (cases "a = b") (auto simp: w split: option.split)
qed

lemma tl2_view_commit:
  assumes "tl2_view loc V m T" and "distinct (map fst (t_wset T))" and "word_sized 8 (t_wset T)"
    and "\<forall>w \<in> set (t_wset T). aligned 8 (fst w)" and "\<not> t_ro T"
  shows "holds_words loc (aw V) (store_words m (t_wset T))"
  using assms load_store_words [OF assms(2-4)]
  by (auto simp: holds_words_def tl2_view_def sp_value_def)

lemma lockable_distinct: "lockable lk ws \<Longrightarrow> distinct (map fst ws)"
  by (auto simp: lockable_def distinct_map inj_on_def)

text \<open>Single-threaded, every read validates.\<close>

lemma tl2_read_ok: "tl2_quiet n rg \<Longrightarrow> t_rv T = clock (lock rg) \<Longrightarrow> sp_read_ok (lock rg) T a"
  by (simp add: sp_read_ok_def validate_iff tl2_quiet_def all_free_def int_gt_small linorder_not_less
      le_less_trans [of "unat (ver (lock rg) a)" "unat (clock (lock rg))"])

section \<open>The operations\<close>

lemma seg_list_seg: "seg_list h b p ps \<Longrightarrow> q \<in> set ps \<Longrightarrow> \<exists>n. h q = Some (Seg n)"
  by (induction ps arbitrary: b p) auto

lemma frame_segs:
  assumes "tx_frame h h' tx fp fp'" and "tx_rel h tx fp T" and "seg_list h b p ps"
  shows "seg_list h' b p ps"
proof -
  have "h q = h' q" if q: "q \<in> set ps" for q
  proof -
    obtain n where n: "h q = Some (Seg n)" using seg_list_seg [OF assms(3) q] by blast
    then have "q \<notin> set (holdings tx fp)" using holdings_no_seg [OF assms(2), of q n] by blast
    moreover have "h q \<noteq> None" using n by simp
    ultimately have "q \<notin> set (holdings tx fp')"
      using assms(1) unfolding tx_frame_def holdings_def by auto
    then show ?thesis using assms(1) by (simp add: tx_frame_def)
  qed
  then show ?thesis using assms(3) seg_list_cong by metis
qed

lemma tl2_activeE:
  assumes "tl2_active W loc n V0 tx ro V rg c"
  obtains fp T where "tx_rel (heap c) tx fp T" and "word_sized 8 (t_wset T)" and "t_ro T = ro"
    and "t_rv T = clock (lock rg)" and "\<forall>w \<in> set (t_wset T). aligned 8 (fst w)"
    and "tl2_view loc V (mem c) T" and "tl2_quiet n rg" and "holds_words loc (aw V0) (mem c)"
    and "tl2_heap W loc n (in_use V0 V T) (\<lambda>p. asg V p \<noteq> None \<or> asg V0 p \<noteq> None) rg c"
  using assms unfolding tl2_active_def by blast

lemma tl2_activeI:
  "tx_rel (heap c) tx fp T \<Longrightarrow> word_sized 8 (t_wset T) \<Longrightarrow> t_ro T = ro \<Longrightarrow>
   t_rv T = clock (lock rg) \<Longrightarrow> \<forall>w \<in> set (t_wset T). aligned 8 (fst w) \<Longrightarrow>
   tl2_view loc V (mem c) T \<Longrightarrow> tl2_quiet n rg \<Longrightarrow> holds_words loc (aw V0) (mem c) \<Longrightarrow>
   tl2_heap W loc n (in_use V0 V T) (\<lambda>p. asg V p \<noteq> None \<or> asg V0 p \<noteq> None) rg c \<Longrightarrow>
   tl2_active W loc n V0 tx ro V rg c"
  unfolding tl2_active_def by blast

lemma tl2_begin:
  assumes "tl2_idle W loc (Suc n) V rg c"
  shows "\<exists>tx c'. tm_begin rg ro c = Some (tx, c') \<and> tx \<noteq> invalid_tx \<and> tl2_active W loc n V tx ro V rg c'"
proof -
  have hp: "tl2_heap W loc (Suc n) (aw V) (\<lambda>p. asg V p \<noteq> None) rg c" using assms by (simp add: tl2_idle_def)
  have ca: "can_alloc (Suc (3 * n)) c" using hp can_alloc_mono by (fastforce simp: tl2_heap_def)
  obtain tx c' where b: "tm_begin rg ro c = Some (tx, c')"
      "tx_rel (heap c') tx no_footprint (sp_begin (lock rg) ro)"
      "heap c tx = None" "can_alloc (3 * n) c'" "mem c' = mem c"
      "\<And>p. p \<noteq> tx \<Longrightarrow> heap c' p = heap c p"
    using tm_begin_impl [OF ca] by metis
  have "seg_list (heap c') NULL (allocs rg) ps" if ps: "seg_list (heap c) NULL (allocs rg) ps" for ps
    using ps seg_list_cong [of ps "heap c" "heap c'"] b(3,6) seg_list_live [OF ps] by metis
  then have "tl2_heap W loc n (in_use V V (sp_begin (lock rg) ro)) (\<lambda>p. asg V p \<noteq> None \<or> asg V p \<noteq> None) rg c'"
    by (intro tl2_heap_change [OF hp b(4) tm_begin_answers [OF b(1)]]) (auto simp: in_use_def sp_begin_def)
  moreover have "tl2_view loc V (mem c') (sp_begin (lock rg) ro)"
    using assms b(5) by (auto simp: tl2_view_def tl2_idle_def sp_value_def sp_begin_def dest: holds_wordsD)
  moreover have "tx \<noteq> invalid_tx"
  proof
    assume "tx = invalid_tx"
    then have "unat tx mod 8 \<noteq> 0"
      by (simp add: invalid_tx_def unsigned_minus_1_eq_mask mask_eq_exp_minus_1)
    moreover have "heap c' tx \<noteq> None" using b(2) by (auto simp: tx_rel_def)
    then have "tx \<in> set (answers c)" by (rule tm_begin_tx [OF b(1,3)])
    then have "aligned 8 tx" using hp by (auto simp: tl2_heap_def pool_def)
    ultimately show False by (simp add: aligned_def)
  qed
  ultimately show ?thesis
    using b(1,2,5) assms tl2_quiet_less [of n rg]
    by (intro exI [of _ tx] exI [of _ c'] conjI tl2_activeI [of c' tx no_footprint "sp_begin (lock rg) ro"])
      (simp_all add: sp_begin_def word_sized_def tl2_idle_def)
qed

lemma tl2_read:
  assumes "tl2_active W loc (Suc n) V0 tx ro V rg c" and "aw V a = Some x"
  shows "\<exists>c'. tm_read rg tx a 8 loc c = Some (True, c') \<and> load (mem c') loc 8 = to_bytes 8 x \<and>
    tl2_active W loc n V0 tx ro V rg c'"
proof -
  obtain fp T where T: "tx_rel (heap c) tx fp T" "word_sized 8 (t_wset T)" "t_ro T = ro"
      "t_rv T = clock (lock rg)" "\<forall>w \<in> set (t_wset T). aligned 8 (fst w)"
      "tl2_view loc V (mem c) T" and q: "tl2_quiet (Suc n) rg" and V0: "holds_words loc (aw V0) (mem c)"
      and hp: "tl2_heap W loc (Suc n) (in_use V0 V T) (\<lambda>p. asg V p \<noteq> None \<or> asg V0 p \<noteq> None) rg c"
    using assms(1) by (rule tl2_activeE)
  have al: "align rg = 8" "unat (align rg) = 8" using q by (simp_all add: tl2_quiet_def)
  have loc: "aligned 8 loc" using hp by (simp add: tl2_heap_def)
  have val: "sp_value 8 (mem c) T a = to_bytes 8 x" using T(6) assms(2) by (simp add: tl2_view_def)
  have rd: "rounds 8 8 = 1" by (simp add: rounds_def)
  let ?T = "sp_note_read T a" and ?m = "store (mem c) loc (to_bytes 8 x)"
  have loop: "sp_read_loop 8 (lock rg) (mem c) T a loc 1 = (True, ?m, ?T)"
    using tl2_read_ok [OF q T(4)] val by (simp add: Let_def)
  have ca: "can_alloc (1 + 3 * n) c" using hp can_alloc_mono by (fastforce simp: tl2_heap_def)
  obtain c' fp' where r: "tm_read rg tx a 8 loc c = Some (True, c')" "mem c' = ?m" "can_alloc (3 * n) c'"
      "tx_rel (heap c') tx fp' ?T" "tx_frame (heap c) (heap c') tx fp fp'"
    using tm_read_impl [of rg 8 c tx fp T "3 * n" a loc True ?m ?T] T(1,2) al ca loop rd by auto
  have "tl2_heap W loc n (in_use V0 V ?T) (\<lambda>p. asg V p \<noteq> None \<or> asg V0 p \<noteq> None) rg c'"
    using frame_segs [OF r(5) T(1)]
    by (intro tl2_heap_change [OF hp r(3) tm_read_answers [OF al(1) r(1)]]) (auto simp: in_use_def)
  moreover have "tl2_view loc V (mem c') ?T"
    using tl2_view_local [OF T(6) loc, of "to_bytes 8 x"] by (simp add: r(2) tl2_view_def)
  moreover have "holds_words loc (aw V0) (mem c')"
    using holds_words_local [OF V0 loc, of "to_bytes 8 x"] by (simp add: r(2))
  moreover have "load (mem c') loc 8 = to_bytes 8 x"
    unfolding r(2) by (rule load_store_word [OF word_size_eight]) simp
  ultimately show ?thesis
    using r(1,4) T(2-5) tl2_quiet_less [OF q]
    by (intro exI [of _ c'] conjI tl2_activeI [of c' tx fp' ?T]) simp_all
qed

lemma tl2_write:
  assumes "tl2_active W loc (Suc n) V0 tx False V rg c" and "aw V a \<noteq> None"
    and "load (mem c) loc 8 = to_bytes 8 x"
  shows "\<exists>c'. tm_write rg tx loc 8 a c = Some (True, c') \<and>
    tl2_active W loc n V0 tx False (am_write a x V) rg c'"
proof -
  obtain fp T where T: "tx_rel (heap c) tx fp T" "word_sized 8 (t_wset T)" "t_ro T = False"
      "t_rv T = clock (lock rg)" "\<forall>w \<in> set (t_wset T). aligned 8 (fst w)"
      "tl2_view loc V (mem c) T" and q: "tl2_quiet (Suc n) rg" and V0: "holds_words loc (aw V0) (mem c)"
      and hp: "tl2_heap W loc (Suc n) (in_use V0 V T) (\<lambda>p. asg V p \<noteq> None \<or> asg V0 p \<noteq> None) rg c"
    using assms(1) by (rule tl2_activeE)
  have al: "align rg = 8" "unat (align rg) = 8" using q by (simp_all add: tl2_quiet_def)
  have rd: "rounds 8 8 = 1" by (simp add: rounds_def)
  have ca: "can_alloc (2 * 1 + 3 * n) c" using hp can_alloc_mono by (fastforce simp: tl2_heap_def)
  let ?T = "sp_write T a (to_bytes 8 x)"
  obtain c' fp' where r: "tm_write rg tx loc 8 a c = Some (True, c')" "mem c' = mem c" "can_alloc (3 * n) c'"
      "tx_rel (heap c') tx fp' ?T" "tx_frame (heap c) (heap c') tx fp fp'"
    using tm_write_impl [of rg 8 c tx fp T "3 * n" loc a] T(1,2) al ca rd assms(3) by auto
  have addrs: "fst ` set (t_wset ?T) = insert a (fst ` set (t_wset T))"
    by (simp add: sp_write_def dom_update)
  have ala: "aligned 8 a" using T(6) assms(2) by (auto simp: tl2_view_def)
  have "tl2_heap W loc n (in_use V0 (am_write a x V) ?T) (\<lambda>p. asg (am_write a x V) p \<noteq> None \<or> asg V0 p \<noteq> None) rg c'"
    using frame_segs [OF r(5) T(1)] assms(2)
    by (intro tl2_heap_change [OF hp r(3) tm_write_answers [OF al(1) r(1)]])
      (auto simp: in_use_def am_write_def addrs split: if_splits)
  moreover have "tl2_view loc (am_write a x V) (mem c') ?T"
    using tl2_view_write [OF T(6) _ assms(2)] T(3) r(2) by simp
  moreover have "word_sized 8 (t_wset ?T)"
    using word_sized_update [OF T(2)] by (simp add: sp_write_def)
  moreover have "\<forall>w \<in> set (t_wset ?T). aligned 8 (fst w)"
    using T(5) ala addrs by (metis (no_types, lifting) image_iff insert_iff)
  ultimately show ?thesis
    using r(1,2,4) T(3,4) tl2_quiet_less [OF q] V0
    by (intro exI [of _ c'] conjI tl2_activeI [of c' tx fp' ?T]) simp_all
qed

lemma tl2_alloc:
  assumes "tl2_active W loc (Suc n) V0 tx False V rg c" and "0 < k" and "k \<le> W - 2"
  shows "\<exists>p rg' c'. tm_alloc rg tx (8 * word_of_nat k) c = Some (success_alloc, Some p, rg', c') \<and>
    fresh_block V p k \<and> tl2_active W loc n V0 tx False (am_alloc p k V) rg' c'"
proof -
  obtain fp T where T: "tx_rel (heap c) tx fp T" "word_sized 8 (t_wset T)" "t_ro T = False"
      "t_rv T = clock (lock rg)" "\<forall>w \<in> set (t_wset T). aligned 8 (fst w)"
      "tl2_view loc V (mem c) T" and q: "tl2_quiet (Suc n) rg" and V0: "holds_words loc (aw V0) (mem c)"
      and hp: "tl2_heap W loc (Suc n) (in_use V0 V T) (\<lambda>p. asg V p \<noteq> None \<or> asg V0 p \<noteq> None) rg c"
    using assms(1) by (rule tl2_activeE)
  have al: "align rg = 8" using q by (simp add: tl2_quiet_def)
  have pl: "pool W loc (in_use V0 V T) (answers c)" using hp by (simp add: tl2_heap_def)
  obtain ps where ps: "seg_list (heap c) NULL (allocs rg) ps"
      "\<And>p. asg V p \<noteq> None \<or> asg V0 p \<noteq> None \<Longrightarrow> p - 16 \<in> set ps"
    using hp by (auto simp: tl2_heap_def)
  have ca: "can_alloc (Suc (3 * n)) c" using hp can_alloc_mono by (fastforce simp: tl2_heap_def)
  obtain a as where as: "answers c = a # as" "a \<noteq> NULL" "heap c a = None" "a \<notin> set as"
      "\<forall>p \<in> set as. p \<noteq> NULL \<and> heap c p = None" "3 * n \<le> length as" "distinct as"
    using ca by (cases "answers c") (auto simp: can_alloc_def)
  have kW: "k + 2 \<le> W" using assms(2,3) by simp
  note take = pool_take [OF pl [unfolded as(1)] as(4) kW]
  have W: "unat a + 8 * (k + 2) < 2 ^ 64" using take(2) kW by simp
  let ?sz = "8 * word_of_nat k :: csize" and ?p = "a + 16"
  have sz: "unat ?sz = 8 * k" using unat_small [of "8 * k"] W by simp
  have p: "unat ?p = unat a + 16" using unat_plus_offset [of a 16] W by simp
  define c1 where "c1 = c\<lparr>heap := (heap c)(a := Some (Uninit (unat (16 + ?sz)))), answers := as\<rparr>"
  have pm: "posix_memalign (if align rg < 8 then 8 else align rg) (unat (16 + ?sz)) c = (0, a, c1)"
    using al as take(1) by (simp add: posix_memalign_def power_of_two_simps c1_def)
  have sl: "\<not> segment_lock (lock rg)" using q by (simp add: tl2_quiet_def)
  obtain c' where r: "tm_alloc rg tx ?sz c = Some (success_alloc, Some ?p, rg\<lparr>allocs := a\<rparr>, c')"
      "answers c' = as" "mem c' = store (mem c) ?p (replicate (8 * k) 0)"
      "seg_list (heap c') NULL a (a # ps)" "\<And>x. x \<noteq> a \<and> x \<notin> set ps \<Longrightarrow> heap c' x = heap c x"
    using tm_alloc_facts [OF ps(1) sl pm, of tx] by (auto simp: c1_def sz)
  have a_ps: "a \<notin> set ps" using as(3) seg_list_live [OF ps(1), of a] by auto
  have alp: "aligned 8 ?p" using aligned_16 [OF p take(1)] .
  have free: "aw V x = None \<and> aw V0 x = None \<and> x \<notin> fst ` set (t_wset T) \<and> x \<noteq> loc"
    if "x \<in> set (words_at ?p k)" for x
    using take(3) that by (auto simp: in_use_def split: if_splits)
  have fresh: "fresh_block V ?p k"
    using p W alp free ps(2) [of ?p] a_ps by (cases "asg V ?p") (auto simp: fresh_block_def)
  let ?V = "am_alloc ?p k V"
  have "heap c' x = None" if "x \<in> set as" for x
    using that as(4,5) r(5) [of x] seg_list_live [OF ps(1), of x] by auto
  then have ca': "can_alloc (3 * n) c'" using as r(2) by (simp add: can_alloc_def)
  have "pool W loc (in_use V0 ?V T) as"
    by (rule pool_restrict [OF take(4) [of 0]]) (auto simp: in_use_def am_alloc_def split: if_splits)
  then have hp': "tl2_heap W loc n (in_use V0 ?V T) (\<lambda>p. asg ?V p \<noteq> None \<or> asg V0 p \<noteq> None)
      (rg\<lparr>allocs := a\<rparr>) c'"
    using ca' r(2,4) ps(2) hp
    by (auto simp: tl2_heap_def am_alloc_def simp del: seg_list.simps intro!: exI [of _ "a # ps"])
  have nowrap: "unat ?p + 8 * k < 2 ^ 64" using p W by simp
  have "tl2_view loc ?V (mem c') T"
    unfolding r(3) am_alloc_def using tl2_view_zero [OF T(6) T(3) alp nowrap] free by simp
  moreover have "holds_words loc (aw V0) (mem c')"
    unfolding r(3) using holds_words_zero [OF V0 alp nowrap] free
    by (auto intro!: holds_words_restrict [where w' = "aw V0"])
  moreover have "heap c x = heap c' x" if "x \<in> set (holdings tx fp)" for x
  proof -
    have "x \<notin> set ps" using seg_list_seg [OF ps(1)] holdings_no_seg [OF T(1) that] by blast
    moreover have "x \<noteq> a"
      using that as(3) tx_rel_owned [OF T(1), of x] T(1) by (auto simp: holdings_def tx_rel_def)
    ultimately show ?thesis using r(5) by simp
  qed
  then have "tx_rel (heap c') tx fp T"
    using T(1) tx_rel_cong [of "heap c" tx "heap c'" fp T] by (simp add: holdings_def)
  ultimately show ?thesis
    using r(1) fresh T(2-5) tl2_quiet_less [OF q] hp'
    by (intro exI [of _ ?p] exI [of _ "rg\<lparr>allocs := a\<rparr>"] exI [of _ c'] conjI tl2_activeI [of c' tx fp T])
      (simp_all add: tl2_quiet_def)
qed

lemma tl2_free:
  assumes "tl2_active W loc (Suc n) V0 tx False V rg c"
  shows "tl2_active W loc n V0 tx False (am_free p k V) rg c"
proof -
  obtain fp T where T: "tx_rel (heap c) tx fp T" "word_sized 8 (t_wset T)" "t_ro T = False"
      "t_rv T = clock (lock rg)" "\<forall>w \<in> set (t_wset T). aligned 8 (fst w)"
      "tl2_view loc V (mem c) T" and q: "tl2_quiet (Suc n) rg" and V0: "holds_words loc (aw V0) (mem c)"
      and hp: "tl2_heap W loc (Suc n) (in_use V0 V T) (\<lambda>p. asg V p \<noteq> None \<or> asg V0 p \<noteq> None) rg c"
    using assms(1) by (rule tl2_activeE)
  have "can_alloc (3 * n) c" using hp can_alloc_mono by (fastforce simp: tl2_heap_def)
  then have "tl2_heap W loc n (in_use V0 (am_free p k V) T)
      (\<lambda>q. asg (am_free p k V) q \<noteq> None \<or> asg V0 q \<noteq> None) rg c"
    by (rule tl2_heap_change [OF hp]) (auto simp: in_use_def am_free_def split: if_splits)
  moreover have "tl2_view loc (am_free p k V) (mem c) T"
    using T(6) by (auto simp: tl2_view_def am_free_def split: if_splits)
  ultimately show ?thesis using T(1-5) V0 tl2_quiet_less [OF q] by (intro tl2_activeI) simp_all
qed

lemma seg_list_without:
  assumes "tx_rel h tx fp T" and "seg_list h b p ps" and "set qs \<subseteq> set (holdings tx fp)"
  shows "seg_list (without qs h) b p ps"
proof -
  have "h q = without qs h q" if q: "q \<in> set ps" for q
    using seg_list_seg [OF assms(2) q] holdings_no_seg [OF assms(1), of q] assms(3)
    by (auto simp: without_def)
  with assms(2) seg_list_cong show ?thesis by metis
qed

lemma tl2_end:
  assumes "tl2_active W loc (Suc n) V0 tx ro V rg c"
  shows "\<exists>ok rg' c'. tm_end rg tx c = Some (ok, rg', c') \<and>
    tl2_idle W loc n (if ok then V else V0) rg' c'"
proof -
  obtain fp T where T: "tx_rel (heap c) tx fp T" "word_sized 8 (t_wset T)" "t_ro T = ro"
      "t_rv T = clock (lock rg)" "\<forall>w \<in> set (t_wset T). aligned 8 (fst w)"
      "tl2_view loc V (mem c) T" and q: "tl2_quiet (Suc n) rg" and V0: "holds_words loc (aw V0) (mem c)"
      and hp: "tl2_heap W loc (Suc n) (in_use V0 V T) (\<lambda>p. asg V p \<noteq> None \<or> asg V0 p \<noteq> None) rg c"
    using assms(1) by (rule tl2_activeE)
  have al: "unat (align rg) = 8" using q by (simp add: tl2_quiet_def)
  let ?qs = "if t_ro T then [tx] else holdings tx fp" and ?lk = "lock rg"
  have rv: "t_rv T \<noteq> INT_MAX"
  proof
    assume "t_rv T = INT_MAX"
    then have "unat (clock ?lk) = 0x7FFFFFFF" using T(4) by simp
    then show False using q by (simp add: tl2_quiet_def)
  qed
  have closed: "sp_end ?lk (mem c) T = Some
      (if t_ro T then (True, ?lk, mem c)
       else if \<not> lockable ?lk (t_wset T) then (False, ?lk, mem c)
       else (True, sp_publish ((lock_stripes ?lk (t_wset T))\<lparr>clock := clock ?lk + 1\<rparr>) (t_wset T) (clock ?lk + 1),
             store_words (mem c) (t_wset T)))"
    using rv T(4) by (simp add: sp_end_closed)
  obtain ok lk m where e: "sp_end ?lk (mem c) T = Some (ok, lk, m)"
      "tm_end rg tx c = Some (ok, rg\<lparr>lock := lk\<rparr>, c\<lparr>mem := m, heap := without ?qs (heap c)\<rparr>)"
  proof -
    obtain ok lk m where "sp_end ?lk (mem c) T = Some (ok, lk, m)" unfolding closed by (metis prod_cases3)
    with tm_end_impl [OF T(1), of rg] T(2) al that show thesis by auto
  qed
  have heap: "tl2_heap W loc n w segs (rg\<lparr>lock := lk\<rparr>) (c\<lparr>mem := m, heap := without ?qs (heap c)\<rparr>)"
    if "\<And>a. in_use V0 V T a = None \<Longrightarrow> w a = None" "\<And>p. segs p \<Longrightarrow> asg V p \<noteq> None \<or> asg V0 p \<noteq> None" for w segs
  proof (rule tl2_heap_change [OF hp])
    have "can_alloc (3 * n) c" using hp can_alloc_mono by (fastforce simp: tl2_heap_def)
    then show "can_alloc (3 * n) (c\<lparr>mem := m, heap := without ?qs (heap c)\<rparr>)"
      by (auto simp: can_alloc_def without_def)
    show "seg_list (heap (c\<lparr>mem := m, heap := without ?qs (heap c)\<rparr>)) NULL (allocs rg) ps"
      if "seg_list (heap c) NULL (allocs rg) ps" for ps
      using seg_list_without [OF T(1) that] by (simp add: holdings_def)
  qed (use that in auto)
  have clk: "unat (clock ?lk + 1) = unat (clock ?lk) + 1"
    using unat_succ_small [of "clock ?lk"] q by (simp add: tl2_quiet_def)
  have quiet: "tl2_quiet n (rg\<lparr>lock := lk\<rparr>)"
  proof (cases "t_ro T \<or> \<not> lockable ?lk (t_wset T)")
    case True
    then have "lk = ?lk" using e(1) closed by (auto split: if_splits)
    with tl2_quiet_less [OF q] show ?thesis by simp
  next
    case False
    then have lk: "lk = sp_publish ((lock_stripes ?lk (t_wset T))\<lparr>clock := clock ?lk + 1\<rparr>) (t_wset T) (clock ?lk + 1)"
      using e(1) closed by (auto split: if_splits)
    have "clock lk = clock ?lk + 1" "segment_lock lk = segment_lock ?lk"
      by (simp_all add: lk lock_sels)
    moreover have "\<not> held lk a" for a
      using q by (auto simp: lk held_def lock_sels tl2_quiet_def all_free_def)
    moreover have "unat (ver lk a) \<le> unat (clock ?lk + 1)" for a
      using q clk by (auto simp: lk ver_def lock_sels tl2_quiet_def intro: le_SucI)
    ultimately show ?thesis using q clk by (simp add: tl2_quiet_def all_free_def)
  qed
  have words: "holds_words loc (aw (if ok then V else V0)) m"
  proof (cases "t_ro T \<or> \<not> lockable ?lk (t_wset T)")
    case True
    then have "m = mem c" "ok = t_ro T" using e(1) closed by (auto split: if_splits)
    then show ?thesis
      using V0 T(6) by (auto simp: holds_words_def tl2_view_def sp_value_ro)
  next
    case False
    then have "m = store_words (mem c) (t_wset T)" "ok" using e(1) closed by (auto split: if_splits)
    then show ?thesis
      using tl2_view_commit [OF T(6) lockable_distinct [of ?lk] T(2,5)] False by simp
  qed
  have "tl2_heap W loc n (aw (if ok then V else V0)) (\<lambda>p. asg (if ok then V else V0) p \<noteq> None)
      (rg\<lparr>lock := lk\<rparr>) (c\<lparr>mem := m, heap := without ?qs (heap c)\<rparr>)"
    by (rule heap) (auto simp: in_use_def split: if_splits)
  with e(2) quiet words show ?thesis by (auto simp: tl2_idle_def)
qed

interpretation tl2_stm: stm "tl2_library junk" loc "tl2_idle W loc" "tl2_active W loc" "W - 2"
  "{TransactionRetry}" for junk W loc
proof (unfold_locales, goal_cases)
  case (1 n V r c)
  then show ?case by (simp add: tl2_idle_def tl2_quiet_less tl2_heap_less)
next
  case (2 n V0 tx ro V r c)
  then show ?case by (auto simp: tl2_active_def tl2_quiet_less dest: tl2_heap_less)
next
  case (3 n V r c ro)
  then show ?case using tl2_begin [of W loc n V r c ro] by (auto simp: tl2_library_def)
next
  case (4 n V0 tx ro V r c a x)
  then show ?case using tl2_read [of W loc n V0 tx ro V r c a x] by (auto simp: tl2_library_def)
next
  case (5 n V0 tx ro V r c x)
  then obtain fp T where T: "tx_rel (heap c) tx fp T" "word_sized 8 (t_wset T)" "t_ro T = ro"
      "t_rv T = clock (lock r)" "\<forall>w \<in> set (t_wset T). aligned 8 (fst w)"
      "tl2_view loc V (mem c) T" and q: "tl2_quiet n r" and V0: "holds_words loc (aw V0) (mem c)"
      and hp: "tl2_heap W loc n (in_use V0 V T) (\<lambda>p. asg V p \<noteq> None \<or> asg V0 p \<noteq> None) r c"
    by (rule tl2_activeE)
  have loc: "aligned 8 loc" using hp by (simp add: tl2_heap_def)
  show ?case
    using T q tl2_view_local [OF T(6) loc, of "to_bytes 8 x"] holds_words_local [OF V0 loc, of "to_bytes 8 x"] hp
    by (intro tl2_activeI [of _ tx fp T]) (simp_all add: tl2_heap_def)
next
  case (6 n V0 tx V r c a x)
  then show ?case using tl2_write [of W loc n V0 tx V r c a x] by (auto simp: tl2_library_def)
next
  case (7 n V0 tx V r c k)
  then show ?case using tl2_alloc [of W loc n V0 tx V r c k] by (fastforce simp: tl2_library_def)
next
  case (8 n V0 tx V r c p k)
  then show ?case using tl2_free [of W loc n V0 tx V r c p k] by (auto simp: tl2_library_def tm_free_def)
next
  case (9 n V0 tx ro V r c)
  then show ?case using tl2_end [of W loc n V0 tx ro V r c] by (fastforce simp: tl2_library_def)
qed

end
