(* ===== verification/Bank_Machine.thy ===== *)
theory Bank_Machine
  imports Stm_Reference Stm_TL2
begin

text \<open>
  The constructor of the workload on the two libraries: on a machine whose allocator has blocks
  to give (\<open>bank_machine\<close>), the region is created and the library is idle on a memory of zeros.
  At the end a concrete machine, for any number of blocks.
\<close>

text \<open>
  The allocator first answers the \<open>struct region\<close> and the first segment, for \<open>nb\<close> accounts, then
  \<open>n\<close> blocks of at least \<open>W\<close> words that nothing else uses; the local variable is at \<open>loc\<close>.
\<close>

definition bank_machine :: "nat \<Rightarrow> addr \<Rightarrow> nat \<Rightarrow> nat \<Rightarrow> addr \<Rightarrow> cstate \<Rightarrow> bool" where
  "bank_machine W loc nb n st c \<longleftrightarrow>
     (\<exists>shared ps. answers c = shared # st # ps \<and> distinct (shared # st # ps) \<and> n \<le> length ps \<and>
        (\<forall>p \<in> set (shared # st # ps). p \<noteq> NULL \<and> heap c p = None) \<and>
        pool W loc (aw (blank st (3 + nb))) ps) \<and>
     aligned 8 st \<and> unat st + 24 + 8 * nb < 2 ^ 64 \<and> aligned 8 loc \<and> loc \<notin> set (words_at st (3 + nb))"

lemma bank_machine_first:
  assumes "bank_machine W loc nb n st c"
  shows "st \<noteq> NULL" and "unat st + 24 + 8 * nb < 2 ^ 64"
  using assms by (auto simp: bank_machine_def)

lemma segment_bytes:
  assumes "unat st + 24 + 8 * nb < 2 ^ 64"
  shows "segment_size (word_of_nat nb) = 8 * word_of_nat (3 + nb)" and "unat (segment_size (word_of_nat nb)) = 8 * (3 + nb)"
proof -
  show "segment_size (word_of_nat nb) = 8 * word_of_nat (3 + nb)"
    by (simp add: segment_size_def algebra_simps)
  then show "unat (segment_size (word_of_nat nb)) = 8 * (3 + nb)"
    using unat_small [of "8 * (3 + nb)"] assms by simp
qed

lemma holds_blank:
  assumes "aligned 8 st" and "unat st + 24 + 8 * nb < 2 ^ 64" and "loc \<notin> set (words_at st (3 + nb))"
  shows "holds_words loc (aw (blank st (3 + nb))) (store m st (replicate (8 * (3 + nb)) 0))"
proof -
  have "holds_words loc (\<lambda>_. None) m" by (simp add: holds_words_def)
  from holds_words_zero [OF this assms(1), of "3 + nb"] assms(2,3)
  show ?thesis by (auto simp: blank_def)
qed

text \<open>Both creations begin with the same two allocations.\<close>

lemma first_answers:
  assumes "bank_machine W loc nb n st c"
  obtains shared ps c' where "malloc sz c = (shared, c\<lparr>heap := (heap c)(shared \<mapsto> Uninit sz), answers := st # ps\<rparr>)"
    "posix_memalign 8 (8 * (3 + nb)) (c\<lparr>heap := (heap c)(shared \<mapsto> Uninit sz), answers := st # ps\<rparr>) = (0, st, c')"
    "shared \<noteq> NULL" "mem c' = mem c" "answers c' = ps" "can_alloc n c'" "pool W loc (aw (blank st (3 + nb))) ps"
proof -
  from assms obtain shared ps where a: "answers c = shared # st # ps" "distinct (shared # st # ps)" "n \<le> length ps"
      "\<forall>p \<in> set (shared # st # ps). p \<noteq> NULL \<and> heap c p = None" "pool W loc (aw (blank st (3 + nb))) ps"
    by (auto simp: bank_machine_def)
  let ?c = "c\<lparr>heap := (heap c)(shared \<mapsto> Uninit sz), answers := st # ps\<rparr>"
  let ?c' = "?c\<lparr>heap := (heap ?c)(st \<mapsto> Uninit (8 * (3 + nb))), answers := ps\<rparr>"
  have "malloc sz c = (shared, ?c)" using a by (simp add: malloc_def)
  moreover have "posix_memalign 8 (8 * (3 + nb)) ?c = (0, st, ?c')"
    using a assms power_of_two_simps(1) by (auto simp: posix_memalign_def bank_machine_def)
  moreover have "can_alloc n ?c'" using a by (auto simp: can_alloc_def)
  ultimately show thesis using that [of shared ps ?c'] a by simp
qed

section \<open>Creation\<close>

definition new_bank :: "'r library \<Rightarrow> addr \<Rightarrow> nat \<Rightarrow> csize \<Rightarrow> csize \<Rightarrow> csize \<Rightarrow> 64 word \<Rightarrow> 'r bank" where
  "new_bank L st nb nw nt ne ib =
     \<lparr>b_tm = \<lparr>tl = L, start_addr = st, start_size = segment_size (word_of_nat nb), alignment = segment_align\<rparr>,
      nbworkers = nw, nbtxperwrk = nt, nbaccounts = word_of_nat nb, expnbaccounts = ne, init_balance = ib\<rparr>"

lemma new_bank_sel [simp]:
  "tl (b_tm (new_bank L st nb nw nt ne ib)) = L" "start_addr (b_tm (new_bank L st nb nw nt ne ib)) = st"
  "nbaccounts (new_bank L st nb nw nt ne ib) = word_of_nat nb" "nbworkers (new_bank L st nb nw nt ne ib) = nw"
  "init_balance (new_bank L st nb nw nt ne ib) = ib"
  by (simp_all add: new_bank_def)

lemma reference_created:
  assumes "bank_machine W loc nb n st c"
  shows "\<exists>shared rg c'. bank_ctor True (ref_library 0) nw nt (word_of_nat nb) ne ib c =
      Some (Inr (new_bank (ref_library 0) st nb nw nt ne ib, shared, rg), c') \<and>
    ref_idle W loc n (blank st (3 + nb)) rg c'"
proof -
  obtain shared ps c' where a:
      "malloc 88 c = (shared, c\<lparr>heap := (heap c)(shared \<mapsto> Uninit 88), answers := st # ps\<rparr>)"
      "posix_memalign 8 (8 * (3 + nb)) (c\<lparr>heap := (heap c)(shared \<mapsto> Uninit 88), answers := st # ps\<rparr>) = (0, st, c')"
      "shared \<noteq> NULL" "mem c' = mem c" "answers c' = ps" "can_alloc n c'" "pool W loc (aw (blank st (3 + nb))) ps"
    using first_answers [OF assms] by blast
  have st: "aligned 8 st" "unat st + 24 + 8 * nb < 2 ^ 64" "aligned 8 loc" "loc \<notin> set (words_at st (3 + nb))"
    using assms by (simp_all add: bank_machine_def)
  note bytes = segment_bytes [OF st(2)]
  let ?rg = "\<lparr>r_lock = \<lparr>readers = 0, writer = False\<rparr>, r_start = st, r_allocs = NULL,
    r_size = segment_size (word_of_nat nb), r_align = 8\<rparr>"
  have "ref_tm_create 0 (segment_size (word_of_nat nb)) 8 c =
      Some (shared, Some ?rg, memset0 st (segment_size (word_of_nat nb)) c')"
    using a by (simp add: ref_tm_create_def bytes(2) ref_shared_lock_init_def)
  then have "bank_ctor True (ref_library 0) nw nt (word_of_nat nb) ne ib c =
      Some (Inr (new_bank (ref_library 0) st nb nw nt ne ib, shared, ?rg), memset0 st (segment_size (word_of_nat nb)) c')"
    by (simp add: bank_ctor_def tmem_ctor_def segment_align_def ref_library_def bounded_run_def assert_mode_def
        new_bank_def ref_tm_start_def)
  moreover have "ref_idle W loc n (blank st (3 + nb)) ?rg (memset0 st (segment_size (word_of_nat nb)) c')"
    using a st holds_blank [OF st(1,2,4), of "mem c"]
    by (auto simp: ref_idle_def ref_common_def memset0_def bytes(2) can_alloc_def blank_def intro!: exI [of _ "[]"])
  ultimately show ?thesis by blast
qed

lemma tl2_created:
  assumes "bank_machine W loc nb (3 * n) st c" and "n < 2 ^ 31"
  shows "\<exists>shared rg c'. bank_ctor True (tl2_library junk) nw nt (word_of_nat nb) ne ib c =
      Some (Inr (new_bank (tl2_library junk) st nb nw nt ne ib, shared, rg), c') \<and>
    tl2_idle W loc n (blank st (3 + nb)) rg c'"
proof -
  obtain shared ps c' where a:
      "malloc 40072 c = (shared, c\<lparr>heap := (heap c)(shared \<mapsto> Uninit 40072), answers := st # ps\<rparr>)"
      "posix_memalign 8 (8 * (3 + nb)) (c\<lparr>heap := (heap c)(shared \<mapsto> Uninit 40072), answers := st # ps\<rparr>) = (0, st, c')"
      "shared \<noteq> NULL" "mem c' = mem c" "answers c' = ps" "can_alloc (3 * n) c'" "pool W loc (aw (blank st (3 + nb))) ps"
    using first_answers [OF assms(1)] by blast
  have st: "aligned 8 st" "unat st + 24 + 8 * nb < 2 ^ 64" "aligned 8 loc" "loc \<notin> set (words_at st (3 + nb))"
    using assms(1) by (simp_all add: bank_machine_def)
  note bytes = segment_bytes [OF st(2)]
  let ?rg = "\<lparr>lock = shared_lock_init junk, start = st, allocs = NULL,
    region_size = segment_size (word_of_nat nb), align = 8\<rparr>"
  have "tm_create junk (segment_size (word_of_nat nb)) 8 c =
      Some (shared, Some ?rg, memset0 st (segment_size (word_of_nat nb)) c')"
    using a by (simp add: tm_create_def bytes(2) Let_def)
  then have "bank_ctor True (tl2_library junk) nw nt (word_of_nat nb) ne ib c =
      Some (Inr (new_bank (tl2_library junk) st nb nw nt ne ib, shared, ?rg), memset0 st (segment_size (word_of_nat nb)) c')"
    by (simp add: bank_ctor_def tmem_ctor_def segment_align_def tl2_library_def bounded_run_def assert_mode_def
        new_bank_def tm_start_def)
  moreover have "tl2_quiet n ?rg"
    using assms(2) by (simp add: tl2_quiet_def all_free_def init_clock)
  then have "tl2_idle W loc n (blank st (3 + nb)) ?rg (memset0 st (segment_size (word_of_nat nb)) c')"
    using a st holds_blank [OF st(1,2,4), of "mem c"]
    by (auto simp: tl2_idle_def tl2_heap_def memset0_def bytes(2) can_alloc_def blank_def intro!: exI [of _ "[]"])
  ultimately show ?thesis by blast
qed

section \<open>A machine\<close>

text \<open>Blocks of eight words, one behind the other, and room for two accounts in a segment.\<close>

definition block_at :: "nat \<Rightarrow> addr" where
  "block_at i = word_of_nat (4096 + 64 * i)"

definition machine :: "nat \<Rightarrow> cstate" where
  "machine n = \<lparr>heap = Map.empty, mem = (\<lambda>_. 0), answers = 64 # 1024 # map block_at [0..<n]\<rparr>"

lemma unat_block: "i < n \<Longrightarrow> 64 * n + 8192 < 2 ^ 64 \<Longrightarrow> unat (block_at i) = 4096 + 64 * i"
  unfolding block_at_def by (rule unat_small) simp

lemma block_words:
  assumes "i < n" and "64 * n + 8192 < 2 ^ 64" and "a \<in> set (words_at (block_at i) 8)"
  shows "(unat a - 4096) div 64 = i" and "4096 \<le> unat a"
proof -
  obtain j where j: "j < 8" "a = block_at i + 8 * word_of_nat j" using assms(3) by (auto simp: words_at_def)
  have "unat (block_at i + word_of_nat (8 * j)) = unat (block_at i) + 8 * j"
    by (rule unat_plus_offset) (use unat_block [OF assms(1,2)] assms(1,2) j(1) in simp)
  then have "unat a = 4096 + 64 * i + 8 * j" using j(2) unat_block [OF assms(1,2)] by simp
  with j(1) show "(unat a - 4096) div 64 = i" "4096 \<le> unat a" by simp_all
qed

lemma machine_ok:
  assumes "64 * n + 8192 < 2 ^ 64"
  shows "bank_machine 8 8 2 n 1024 (machine n)"
proof -
  note block = unat_block [OF _ assms] and words = block_words [OF _ assms]
  have small: "1024 \<le> unat a \<and> unat a < 4096" if a: "a \<in> set (words_at 1024 5)" for a :: addr
  proof -
    obtain i where i: "i < 5" "a = 1024 + 8 * word_of_nat i" using a unfolding in_words_at by blast
    have "unat (1024 + word_of_nat (8 * i) :: addr) = 1024 + 8 * i"
      using unat_plus_offset [of 1024 "8 * i"] i(1) by simp
    with i show ?thesis by simp
  qed
  have inj: "block_at i = block_at j \<longleftrightarrow> i = j" if "i < n" "j < n" for i j
  proof
    assume "block_at i = block_at j"
    then have "unat (block_at i) = unat (block_at j)" by (rule arg_cong)
    then have "4096 + 64 * i = 4096 + 64 * j" unfolding block [OF that(1)] block [OF that(2)] .
    then show "i = j" by simp
  qed (rule arg_cong)
  have ne: "block_at i \<noteq> 0" "block_at i \<noteq> 64" "block_at i \<noteq> 1024" if "i < n" for i
    using block [OF that] by auto
  have "distinct (map block_at [0..<n])" using inj by (simp add: distinct_map inj_on_def)
  then have "distinct (64 # 1024 # map block_at [0..<n])" using ne by auto
  moreover have "pool 8 8 (aw (blank 1024 5)) (map block_at [0..<n])"
    unfolding pool_def
  proof (intro conjI ballI impI)
    fix p assume "p \<in> set (map block_at [0..<n])"
    then obtain i where i: "i < n" "p = block_at i" by auto
    show "aligned 8 p" using block [OF i(1)] i(2) by (simp add: aligned_def)
    show "unat p + 8 * 8 < 2 ^ 64" using block [OF i(1)] i assms by simp
    fix a assume a: "a \<in> set (words_at p 8)"
    have "4096 \<le> unat a" using words(2) [OF i(1)] a i(2) by simp
    then show "aw (blank 1024 5) a = None" "a \<noteq> 8" using small [of a] by (auto simp: blank_def)
  next
    fix p q assume pq: "p \<in> set (map block_at [0..<n])" "q \<in> set (map block_at [0..<n])" "p \<noteq> q"
    then obtain i j where ij: "i < n" "p = block_at i" "j < n" "q = block_at j" by auto
    then show "set (words_at p 8) \<inter> set (words_at q 8) = {}"
      using words(1) [OF ij(1)] words(1) [OF ij(3)] pq(3) by blast
  qed
  moreover have "(8 :: addr) \<notin> set (words_at 1024 5)" using small [of 8] by auto
  ultimately show ?thesis
    using ne by (auto simp: bank_machine_def machine_def aligned_def)
qed

section \<open>A bank with accounts\<close>

text \<open>A memory that holds a bank, and states of the two libraries that rest on it.\<close>

primrec filled :: "addr \<Rightarrow> nat \<Rightarrow> 64 word \<Rightarrow> nat \<Rightarrow> amem" where
  "filled p nb ib 0 = am_write p (word_of_nat nb) (blank p (3 + nb))"
| "filled p nb ib (Suc j) = am_write (acc_addr p j) ib (filled p nb ib j)"

lemma filled_words: "j \<le> nb \<Longrightarrow> aw (filled p nb ib j) a = None \<longleftrightarrow> a \<notin> set (words_at p (3 + nb))"
proof (induction j)
  case 0
  then show ?case using header_in(1) [of p nb] by (auto simp: am_write_def blank_def)
next
  case (Suc j)
  then show ?case using acc_addr_in [of j nb p] by (auto simp: am_write_def)
qed

lemma filled_asg [simp]: "asg (filled p nb ib j) = (\<lambda>_. None)"
  by (induction j) (simp_all add: am_write_def blank_def)

lemma filled_list:
  assumes "p \<noteq> NULL" and "unat p + 24 + 8 * nb < 2 ^ 64" and "j \<le> nb"
  shows "bank_list nb (aw (filled p nb ib j)) p (opened p nb ib j)"
  using assms(3)
proof (induction j)
  case 0
  then show ?case using bank_list_blank [OF assms(1,2)] by simp
next
  case (Suc j)
  have "distinct (bank_words nb (opened p nb ib j))" using distinct_words [OF assms(2)] by (simp add: opened_def)
  moreover have "locate (opened p nb ib j) j = Some (acc_addr p j)" using Suc.prems by (simp add: opened_def)
  ultimately show ?case
    using bank_list_upd [of nb "aw (filled p nb ib j)" p "opened p nb ib j" j "acc_addr p j" ib] Suc
    by (simp add: opened_Suc am_write_def del: fun_upd_apply)
qed

lemma filled_shape:
  assumes "bank_machine W loc nb n st c" and "0 < nb"
  shows "bank_shape nb (new_bank L st nb nw nt ne ib) (filled st nb ib nb) (opened st nb ib nb)"
  using bank_shape_opened [of nb "filled st nb ib nb" "new_bank L st nb nw nt ne ib" ib]
    filled_list [OF bank_machine_first [OF assms(1)], of nb ib] assms(2) by simp

lemma filled_memory:
  assumes "holds_words loc (aw (blank p (3 + nb))) m" and "j \<le> nb"
  shows "\<exists>m'. holds_words loc (aw (filled p nb ib j)) m'"
  using assms(2)
proof (induction j)
  case 0
  have "aw (blank p (3 + nb)) p \<noteq> None" using header_in(1) by (simp add: blank_def)
  from holds_words_write [OF assms(1) this, of "word_of_nat nb"] show ?case by (auto simp: am_write_def simp del: fun_upd_apply)
next
  case (Suc j)
  then obtain m' where m: "holds_words loc (aw (filled p nb ib j)) m'" by auto
  have "aw (filled p nb ib j) (acc_addr p j) \<noteq> None" using filled_words [of j nb p ib "acc_addr p j"] acc_addr_in [of j nb p] Suc.prems by auto
  from holds_words_write [OF m this, of ib] show ?case by (auto simp: am_write_def simp del: fun_upd_apply)
qed

lemma pool_filled: "pool W loc (aw (blank p (3 + nb))) ps \<Longrightarrow> pool W loc (aw (filled p nb ib nb)) ps"
  by (erule pool_restrict) (simp add: filled_words blank_def split: if_splits)

lemma reference_filled:
  assumes "bank_machine W loc nb n st c"
  shows "\<exists>rg c'. ref_idle W loc n (filled st nb ib nb) rg c'"
proof -
  obtain rg c' where i: "ref_idle W loc n (blank st (3 + nb)) rg c'" using reference_created [OF assms] by blast
  then obtain m where "holds_words loc (aw (filled st nb ib nb)) m"
    using filled_memory [of loc st nb "mem c'" nb ib] by (auto simp: ref_idle_def ref_common_def)
  with i have "ref_idle W loc n (filled st nb ib nb) rg (c'\<lparr>mem := m\<rparr>)"
    by (auto simp: ref_idle_def ref_common_def can_alloc_def blank_def [of st "3 + nb"] pool_filled)
  then show ?thesis by blast
qed

lemma tl2_filled:
  assumes "bank_machine W loc nb (3 * n) st c" and "n < 2 ^ 31"
  shows "\<exists>rg c'. tl2_idle W loc n (filled st nb ib nb) rg c'"
proof -
  obtain rg c' where i: "tl2_idle W loc n (blank st (3 + nb)) rg c'" using tl2_created [OF assms] by blast
  then obtain m where "holds_words loc (aw (filled st nb ib nb)) m"
    using filled_memory [of loc st nb "mem c'" nb ib] by (auto simp: tl2_idle_def)
  with i have "tl2_idle W loc n (filled st nb ib nb) rg (c'\<lparr>mem := m\<rparr>)"
    by (auto simp: tl2_idle_def tl2_heap_def can_alloc_def pool_filled)
  then show ?thesis by blast
qed

end
