(* ===== verification/Bank_Check.thy ===== *)
theory Bank_Check
  imports Bank
begin

text \<open>
  How often \<open>check\<close> synchronises. The workers meet at a barrier that needs every one of them, so
  each must call it equally often, on every path. The captured variables of the transactions of
  the check are not assigned; a counter of the calls of the barrier can take their place.
\<close>

definition keeps :: "(('r, 'e) session \<Rightarrow> ('r, 'e, 'a) outcome) \<Rightarrow> bool" where
  "keeps f \<longleftrightarrow> (\<forall>s r s'. f s = Some (r, s') \<longrightarrow> s_env s' = s_env s)"

lemma keepsD: "keeps f \<Longrightarrow> f s = Some (r, s') \<Longrightarrow> s_env s' = s_env s"
  by (simp add: keeps_def)

lemma keeps_return [intro]: "keeps (return x)"
  by (simp add: keeps_def return_def)

lemma keeps_bind [intro]:
  assumes "keeps f" and "\<And>x. keeps (g x)"
  shows "keeps (\<lambda>s. tbind (f s) g)"
  unfolding keeps_def
proof (intro allI impI)
  fix s r s' assume e: "tbind (f s) g = Some (r, s')"
  then obtain r1 s1 where 1: "f s = Some (r1, s1)" by (cases "f s") auto
  show "s_env s' = s_env s"
  proof (cases r1)
    case (Inl x)
    with 1 e keepsD [OF assms(1) 1] show ?thesis by (simp add: throw_def)
  next
    case (Inr x)
    then have "g x s1 = Some (r, s')" using 1 e by simp
    with keepsD [OF assms(1) 1] keepsD [OF assms(2)] show ?thesis by metis
  qed
qed

lemma keeps_call [intro]: "keeps (lib_call f)"
  by (auto simp: keeps_def lib_call_def return_def split: option.splits prod.splits)

lemma keeps_guarded:
  "keeps (\<lambda>s. tbind (lib_call f s) (\<lambda>ok s. if \<not> ok then throw e (s\<lparr>s_aborted := True\<rparr>) else return () s))"
  by (rule keeps_bind [OF keeps_call]) (auto simp: keeps_def throw_def return_def)

lemma tx_keeps: "keeps (tx_ctor tm ro)" "keeps (tx_dtor tm)" "keeps (tx_read tm a n p)" "keeps (tx_write tm a n p)"
proof -
  show "keeps (tx_ctor tm ro)" unfolding tx_ctor_def
    by (rule keeps_bind [OF keeps_call]) (auto simp: keeps_def throw_def return_def Let_def split: if_splits)
  have "keeps (\<lambda>s. tbind (lib_call (lib_end (tl tm) (s_tx s)) s) (\<lambda>ok s.
      if \<not> ok then throw TransactionRetry s else return () s))"
    unfolding keeps_def
    by (auto simp: tbind_def lib_call_def throw_def return_def bind_eq_Some_conv
        split: option.splits prod.splits sum.splits if_splits)
  then show "keeps (tx_dtor tm)" by (auto simp: keeps_def tx_dtor_def return_def split: if_splits)
  show "keeps (tx_read tm a n p)" unfolding keeps_def tx_read_def
    by (auto simp: tbind_def lib_call_def throw_def return_def bind_eq_Some_conv
        split: option.splits prod.splits sum.splits if_splits)
  show "keeps (tx_write tm a n p)" unfolding keeps_def tx_write_def
    by (auto simp: tbind_def lib_call_def throw_def return_def bind_eq_Some_conv
        split: option.splits prod.splits sum.splits if_splits)
qed

lemma shared_keeps [intro]: "keeps (shared_read tm a)" "keeps (shared_write tm a x)"
proof -
  show "keeps (shared_read tm a)" unfolding shared_read_def
    by (rule keeps_bind) (use tx_keeps(3) [of tm a 8] in \<open>auto simp: keeps_def return_def\<close>)
  show "keeps (shared_write tm a x)"
    using tx_keeps(4) [of tm _ 8 a] by (fastforce simp: keeps_def shared_write_def)
qed

lemma attempt_keeps:
  fixes f :: "('r, 'e) session \<Rightarrow> ('r, 'e, 'a) outcome"
  assumes "keeps f"
  shows "keeps (attempt tm ro f)"
  unfolding attempt_def
proof (rule keeps_bind [OF tx_keeps(1)])
  have d: "s_env s' = s_env s" if "tbind (tx_dtor tm s) (\<lambda>_. return x) = Some (r, s')"
    for s s' :: "('r, 'e) session" and r and x :: 'a
    by (rule keepsD [OF keeps_bind [OF tx_keeps(2) keeps_return] that])
  show "keeps (\<lambda>s. case f s of None \<Rightarrow> None
       | Some (Inr x, s) \<Rightarrow> tbind (tx_dtor tm s) (\<lambda>_ s. return x s)
       | Some (Inl e, s) \<Rightarrow> (case tx_dtor tm s of None \<Rightarrow> None
            | Some (Inr _, s) \<Rightarrow> throw e s
            | Some (Inl _, s) \<Rightarrow> throw Terminated s))"
    unfolding keeps_def
  proof (intro allI impI)
    fix s s' :: "('r, 'e) session" and r
    assume e: "(case f s of None \<Rightarrow> None
       | Some (Inr x, s) \<Rightarrow> tbind (tx_dtor tm s) (\<lambda>_ s. return x s)
       | Some (Inl e, s) \<Rightarrow> (case tx_dtor tm s of None \<Rightarrow> None
            | Some (Inr _, s) \<Rightarrow> throw e s
            | Some (Inl _, s) \<Rightarrow> throw Terminated s)) = Some (r, s')"
    then obtain r1 s1 where 1: "f s = Some (r1, s1)" by (cases "f s") auto
    note f = keepsD [OF assms 1]
    show "s_env s' = s_env s"
    proof (cases r1)
      case (Inr x)
      with 1 e d [of s1 x r s'] f show ?thesis by simp
    next
      case (Inl x)
      then obtain r2 s2 where 2: "tx_dtor tm s1 = Some (r2, s2)" using 1 e by (cases "tx_dtor tm s1") auto
      with Inl 1 e f keepsD [OF tx_keeps(2) 2] show ?thesis by (cases r2) (simp_all add: throw_def)
    qed
  qed
qed

lemma transactional_keeps:
  assumes "keeps f"
  shows "keeps (transactional tm ro f)"
proof -
  have "keeps f \<longrightarrow> s_env (snd p) = s_env s" if "transactional tm ro f s = Some p" for s p
  proof (rule transactional.raw_induct [where P = "\<lambda>tm ro f s p. keeps f \<longrightarrow> s_env (snd p) = s_env s", OF _ that], rule impI)
    fix trans tm ro f s p
    assume IH: "\<And>tm ro f s p. trans tm ro f s = Some p \<Longrightarrow> keeps f \<longrightarrow> s_env (snd p) = s_env s"
      and e: "attempt tm ro f s \<bind> (\<lambda>(r, s). if r = Inl TransactionRetry then trans tm ro f s else Some (r, s)) = Some p"
      and k: "keeps f"
    obtain r1 s1 where a: "attempt tm ro f s = Some (r1, s1)" using e by (cases "attempt tm ro f s") auto
    note env = keepsD [OF attempt_keeps [OF k] a]
    show "s_env (snd p) = s_env s"
    proof (cases "r1 = Inl TransactionRetry")
      case True
      then have "trans tm ro f s1 = Some p" using e a by simp
      from IH [OF this] k env show ?thesis by simp
    next
      case False
      then show ?thesis using e a env by auto
    qed
  qed
  with assms show ?thesis unfolding keeps_def by fastforce
qed

lemma check_keeps [intro]:
  "keeps (read_counter b)" "keeps (write_counter b x)" "keeps (counter_is b x)" "keeps (decrease b x)"
proof -
  show r: "keeps (read_counter b)" unfolding read_counter_def by (simp add: shared_keeps keeps_return)
  show "keeps (write_counter b x)" unfolding write_counter_def by (simp add: shared_keeps)
  show "keeps (counter_is b x)" unfolding counter_is_def using r by (intro keeps_bind) auto
  have w: "keeps (\<lambda>s. if x < v then return False s
      else tbind (shared_write (b_tm b) (start_addr (b_tm b)) (v - 1) s) (\<lambda>_. return True))" for v
  proof (cases "x < v")
    case False
    have "keeps (\<lambda>s. tbind (shared_write (b_tm b) (start_addr (b_tm b)) (v - 1) s) (\<lambda>_. return True))"
      by (intro keeps_bind) auto
    with False show ?thesis by simp
  qed (simp add: keeps_def return_def)
  show "keeps (decrease b x)" unfolding decrease_def
    using keeps_bind [OF shared_keeps(1) w] by simp
qed

lemma check_init_keeps: "keeps (check_init b)"
  unfolding check_init_def Let_def by (intro keeps_bind transactional_keeps check_keeps)

lemma check_rounds_keeps: "keeps (check_rounds b n)"
proof (induction n)
  case (Suc n)
  show ?case unfolding check_rounds.simps
    by (intro keeps_bind transactional_keeps check_keeps) (use Suc in \<open>auto simp: keeps_def return_def\<close>)
qed (simp add: keeps_def return_def)

text \<open>A call of the barrier, counted.\<close>

definition counted :: "('r, nat) session \<Rightarrow> ('r, nat) session" where
  "counted s = s\<lparr>s_env := Suc (s_env s)\<rparr>"

lemma counted_env [simp]: "s_env (counted s) = Suc (s_env s)"
  by (simp add: counted_def)

lemma tbind_Inr:
  assumes "tbind m f = Some (Inr r, s')"
  obtains x s where "m = Some (Inr x, s)" "f x s = Some (Inr r, s')"
proof (cases m)
  case (Some p)
  with assms that show thesis by (cases p; cases "fst p") (auto simp: tbind_def throw_def)
qed (use assms in simp)

lemma check_counts:
  assumes "check counted b uid s = Some (Inr r, s')"
  shows "s_env s' = s_env s + 3"
proof -
  obtain ok s1 where 1: "(if uid = 0 then check_init b (counted s) else return True (counted s)) = Some (Inr ok, s1)"
      "(if \<not> ok then return (Some ViolatedDuringInitialization) (counted (counted s1))
        else tbind (check_rounds b check_tx (counted s1)) (\<lambda>ok s.
          if \<not> ok then return (Some ViolatedConsistencyIsolationOrAtomicity) (counted s)
          else if uid = 0
          then tbind (transactional (b_tm b) True (counter_is b 0) (counted s)) (\<lambda>ok s.
                 return (if \<not> ok then Some ViolatedConsistency else None) s)
          else return None (counted s))) = Some (Inr r, s')"
    using assms unfolding check_def by (rule tbind_Inr)
  have e1: "s_env s1 = Suc (s_env s)"
    using 1(1) keepsD [OF check_init_keeps] by (cases "uid = 0") (fastforce simp: return_def)+
  show ?thesis
  proof (cases ok)
    case False
    with 1(2) e1 show ?thesis by (auto simp: return_def)
  next
    case True
    then obtain ok2 s2 where 2: "check_rounds b check_tx (counted s1) = Some (Inr ok2, s2)"
      "(if \<not> ok2 then return (Some ViolatedConsistencyIsolationOrAtomicity) (counted s2)
          else if uid = 0
          then tbind (transactional (b_tm b) True (counter_is b 0) (counted s2)) (\<lambda>ok s.
                 return (if \<not> ok then Some ViolatedConsistency else None) s)
          else return None (counted s2)) = Some (Inr r, s')"
      using 1(2) by (auto elim: tbind_Inr)
    have e2: "s_env s2 = s_env s + 2" using keepsD [OF check_rounds_keeps 2(1)] e1 by simp
    show ?thesis
    proof (cases "ok2 \<and> uid = 0")
      case True
      then obtain ok3 s3 where "transactional (b_tm b) True (counter_is b 0) (counted s2) = Some (Inr ok3, s3)" "s' = s3"
        using 2(2) by (auto elim!: tbind_Inr simp: return_def)
      then show ?thesis using keepsD [OF transactional_keeps [OF check_keeps(3)]] e2 by fastforce
    next
      case False
      with 2(2) e2 show ?thesis by (auto simp: return_def split: if_splits)
    qed
  qed
qed

end
