(* ===== verification/Bank_Results.thy ===== *)
theory Bank_Results
  imports Bank_Machine Bank_Check
begin

text \<open>
  The transactions of the bank on the two implementations, by the interpretations of the
  contract: on the reference they return after one round, with the result of the specification;
  on TL2 a round commits the same result or retries with the memory untouched.
\<close>

section \<open>A thread between two transactions\<close>

definition ref_rests :: "nat \<Rightarrow> addr \<Rightarrow> nat \<Rightarrow> amem \<Rightarrow> (ref_region, 'e) session \<Rightarrow> bool" where
  "ref_rests W loc n V s \<longleftrightarrow> s_local s = loc \<and> ref_idle W loc n V (s_region s) (s_c s)"

definition tl2_rests :: "nat \<Rightarrow> addr \<Rightarrow> nat \<Rightarrow> amem \<Rightarrow> (region, 'e) session \<Rightarrow> bool" where
  "tl2_rests W loc n V s \<longleftrightarrow> s_local s = loc \<and> tl2_idle W loc n V (s_region s) (s_c s)"

lemma ref_resting: "ref_stm.resting loc W n V s = ref_rests W loc n V s"
  by (simp add: ref_stm.resting_def ref_rests_def)

lemma tl2_resting: "tl2_stm.resting loc W n V s = tl2_rests W loc n V s"
  by (simp add: tl2_stm.resting_def tl2_rests_def)

section \<open>A bank to run on\<close>

definition session_at :: "addr \<Rightarrow> 'e \<Rightarrow> 'r \<Rightarrow> cstate \<Rightarrow> ('r, 'e) session" where
  "session_at loc e rg c =
     \<lparr>s_tx = 0, s_aborted = False, s_ro = False, s_env = e, s_local = loc, s_region = rg, s_c = c\<rparr>"

definition tl2_bank :: "region bank" where
  "tl2_bank = new_bank (tl2_library (lock sample_region)) 1024 2 1 1 2 100"

definition reference_bank :: "ref_region bank" where
  "reference_bank = new_bank (ref_library 0) 1024 2 1 1 2 100"

definition sample_ops :: "bank_op list" where
  "sample_ops = [Short 0 1, Long, Alloc 0]"

lemma machine_bank: "n < 2 ^ 32 \<Longrightarrow> bank_machine 8 8 2 n 1024 (machine n)"
  by (rule machine_ok) simp

lemma sample_banks:
  "tl (b_tm tl2_bank) = tl2_library (lock sample_region)" "tl (b_tm reference_bank) = ref_library 0"
  "bank_shape 2 tl2_bank (filled 1024 2 100 2) (opened 1024 2 100 2)"
  "bank_shape 2 reference_bank (filled 1024 2 100 2) (opened 1024 2 100 2)"
  "init_balance tl2_bank = 100" "init_balance reference_bank = 100"
  "nbworkers reference_bank = 1" "start_addr (b_tm reference_bank) = 1024"
  using filled_shape [OF machine_bank [of 0]] by (simp_all add: tl2_bank_def reference_bank_def)

lemma tl2_sample:
  assumes "n < 2 ^ 30"
  shows "\<exists>s. tl2_rests 8 8 n (filled 1024 2 100 2) s \<and> s_env s = e"
proof -
  have "bank_machine 8 8 2 (3 * n) 1024 (machine (3 * n))" using assms by (intro machine_bank) simp
  then obtain rg c where "tl2_idle 8 8 n (filled 1024 2 100 2) rg c" using tl2_filled [of 8 8 2 n] assms by fastforce
  then have "tl2_rests 8 8 n (filled 1024 2 100 2) (session_at 8 e rg c)" by (simp add: tl2_rests_def session_at_def)
  then show ?thesis by (intro exI [of _ "session_at 8 e rg c"]) (simp add: session_at_def)
qed

lemma reference_sample:
  assumes "n < 2 ^ 30"
  shows "\<exists>s. ref_rests 8 8 n (filled 1024 2 100 2) s \<and> s_env s = e"
proof -
  have "bank_machine 8 8 2 n 1024 (machine n)" using assms by (intro machine_bank) simp
  then obtain rg c where "ref_idle 8 8 n (filled 1024 2 100 2) rg c" using reference_filled by blast
  then have "ref_rests 8 8 n (filled 1024 2 100 2) (session_at 8 e rg c)" by (simp add: ref_rests_def session_at_def)
  then show ?thesis by (intro exI [of _ "session_at 8 e rg c"]) (simp add: session_at_def)
qed

lemma sample_cost: "1 + rounds_cost (length sample_ops) (opened 1024 2 100 2) = 79"
  by (simp add: rounds_cost_def round_cost_def sample_ops_def opened_def eval_nat_numeral)

lemma sample_headroom: "headroom (length sample_ops) (100 # accs_of (opened 1024 2 100 2))"
  by (simp add: headroom_def sample_ops_def opened_def)

section \<open>Sequences of rounds\<close>

lemma tl2_rounds:
  assumes "tl2_rests W loc (k + rounds_cost (length ops) segs) V s" and "tl (b_tm b) = tl2_library junk"
    and "bank_shape nb b V segs" and "nb + 5 \<le> W"
  shows "\<exists>as s' V' segs'. bank_rounds b ops s = Some (Inr as, s') \<and> tl2_rests W loc k V' s' \<and> bank_shape nb b V' segs' \<and>
    bank_run nb (init_balance b) ops as segs segs'"
proof -
  have "3 + nb \<le> W - 2" using assms(4) by simp
  from tl2_stm.rounds_run [OF assms(1) [folded tl2_resting] assms(2,3) this]
  show ?thesis unfolding tl2_resting by blast
qed

lemma reference_rounds:
  assumes "ref_rests W loc (k + rounds_cost (length ops) segs) V s" and "tl (b_tm b) = ref_library code"
    and "bank_shape nb b V segs" and "nb + 5 \<le> W"
  shows "\<exists>as s' V' segs'. serve_all b ops s = Some (Inr as, s') \<and> ref_rests W loc k V' s' \<and> bank_shape nb b V' segs' \<and>
    bank_run nb (init_balance b) ops as segs segs' \<and> Retried \<notin> set as"
proof -
  have "3 + nb \<le> W - 2" using assms(4) by simp
  from ref_stm.rounds_run [OF assms(1) [folded ref_resting] assms(2,3) this]
  obtain as s' V' segs' where "bank_rounds b ops s = Some (Inr as, s')" "ref_rests W loc k V' s'" "bank_shape nb b V' segs'"
      "bank_run nb (init_balance b) ops as segs segs'" "Retried \<notin> set as"
    unfolding ref_resting by blast
  with rounds_serve show ?thesis by blast
qed

lemma committed_length: "length (committed ops as) \<le> length ops"
  by (induction ops as rule: committed.induct) auto

lemma rounds_cost_content:
  assumes "map snd segs = map snd segs'" and "m \<le> n"
  shows "rounds_cost m segs' \<le> rounds_cost n segs"
proof -
  have "length segs = length segs'" using assms(1) by (metis length_map)
  then have "round_cost segs' = round_cost segs"
    using content_accs [OF assms(1)] by (simp add: round_cost_def)
  then show ?thesis using assms(2) by (simp add: rounds_cost_def mult_le_mono)
qed

lemma ref_rests_le: "ref_rests W loc n V s \<Longrightarrow> k \<le> n \<Longrightarrow> ref_rests W loc k V s"
  unfolding ref_resting [symmetric] by (rule ref_stm.resting_le)

text \<open>C10: TL2 and the coarse-lock reference agree. Let a thread run any sequence of rounds of the
bank's transactions on TL2, of which some commit and some are retried; the same transactions that
committed, run to their end on the reference over a bank with the same accounts, return, with the
same answers, and leave a bank with the same accounts, parities and segments (the addresses of
the segments aside). The budget of library calls covers the rounds, and the allocators have
blocks of \<open>W\<close> words.\<close>

theorem tl2_agrees_with_reference:
  assumes "tl2_rests W loc (k + rounds_cost (length ops) segs) V s" and "tl (b_tm b) = tl2_library junk"
    and "bank_shape nb b V segs"
    and "ref_rests W' loc' (k + rounds_cost (length ops) segs) U t" and "tl (b_tm b') = ref_library code"
    and "bank_shape nb b' U segs'"
    and "map snd segs = map snd segs'" and "init_balance b = init_balance b'" and "nb + 5 \<le> W" and "nb + 5 \<le> W'"
  shows "\<exists>as s' V' segs1 t' U' segs1'.
    bank_rounds b ops s = Some (Inr as, s') \<and> tl2_rests W loc k V' s' \<and> bank_shape nb b V' segs1 \<and>
    serve_all b' (committed ops as) t = Some (Inr (filter (\<lambda>a. a \<noteq> Retried) as), t') \<and>
    ref_rests W' loc' k U' t' \<and> bank_shape nb b' U' segs1' \<and> map snd segs1 = map snd segs1'"
proof -
  obtain as s' V' segs1 where 1: "bank_rounds b ops s = Some (Inr as, s')" "tl2_rests W loc k V' s'" "bank_shape nb b V' segs1"
      "bank_run nb (init_balance b) ops as segs segs1"
    using tl2_rounds [OF assms(1-3,9)] by blast
  have "ref_rests W' loc' (k + rounds_cost (length (committed ops as)) segs') U t"
    using rounds_cost_content [OF assms(7) committed_length, of ops as] by (intro ref_rests_le [OF assms(4)]) simp
  from reference_rounds [OF this assms(5,6,10)]
  obtain bs t' U' segs1' where 2: "serve_all b' (committed ops as) t = Some (Inr bs, t')" "ref_rests W' loc' k U' t'"
      "bank_shape nb b' U' segs1'" "bank_run nb (init_balance b') (committed ops as) bs segs' segs1'" "Retried \<notin> set bs"
    by blast
  have "bs = filter (\<lambda>a. a \<noteq> Retried) as \<and> map snd segs1 = map snd segs1'"
    using bank_run_committed [OF 1(4) 2(4) [folded assms(8)] 2(5) assms(7) bank_shape_populated [OF assms(3)]] .
  with 1 2 show ?thesis by blast
qed

theorem tl2_agrees_with_reference_witness:
  "\<exists>(s :: (region, unit) session) (t :: (ref_region, unit) session) as s' t'.
     bank_rounds tl2_bank sample_ops s = Some (Inr as, s') \<and>
     serve_all reference_bank (committed sample_ops as) t = Some (Inr (filter (\<lambda>a. a \<noteq> Retried) as), t')"
proof -
  obtain s :: "(region, unit) session" and t :: "(ref_region, unit) session"
    where st: "tl2_rests 8 8 79 (filled 1024 2 100 2) s" "ref_rests 8 8 79 (filled 1024 2 100 2) t"
    using tl2_sample [of 79 "()"] reference_sample [of 79 "()"] by auto
  note [simp] = sample_banks
  show ?thesis
    using tl2_agrees_with_reference [of 8 8 1 sample_ops "opened 1024 2 100 2" "filled 1024 2 100 2" s tl2_bank
        "lock sample_region" 2 8 8 "filled 1024 2 100 2" t reference_bank 0 "opened 1024 2 100 2"] st
    unfolding sample_cost by auto
qed

text \<open>C11: On TL2 no audit of the bank ever fails. From a balanced bank (the money is the initial
balance times the number of accounts, nobody is overdrawn), any sequence of rounds of long,
allocating and short transactions by one thread leaves a balanced bank, and no long transaction
that commits reports a violation, as long as no balance can reach the largest value of its type
within the sequence.\<close>

theorem tl2_audits_pass:
  assumes "tl2_rests W loc (k + rounds_cost (length ops) segs) V s" and "tl (b_tm b) = tl2_library junk"
    and "bank_shape nb b V segs" and "nb + 5 \<le> W"
    and "balanced (init_balance b) segs" and "0 \<le> sint (init_balance b)"
    and "headroom (length ops) (init_balance b # accs_of segs)"
  shows "\<exists>as s' V' segs'. bank_rounds b ops s = Some (Inr as, s') \<and> tl2_rests W loc k V' s' \<and> bank_shape nb b V' segs' \<and>
    LongAnswer None \<notin> set as \<and> balanced (init_balance b) segs'"
  using tl2_rounds [OF assms(1-4)] bank_run_audits [OF _ assms(5) bank_shape_populated [OF assms(3)] assms(7,6)] by blast

theorem tl2_audits_pass_witness:
  "\<exists>(s :: (region, unit) session) as s' V' segs'. bank_rounds tl2_bank sample_ops s = Some (Inr as, s') \<and>
     tl2_rests 8 8 1 V' s' \<and> bank_shape 2 tl2_bank V' segs' \<and> LongAnswer None \<notin> set as \<and> balanced 100 segs'"
proof -
  obtain s :: "(region, unit) session" where s: "tl2_rests 8 8 79 (filled 1024 2 100 2) s"
    using tl2_sample [of 79 "()"] by auto
  have "balanced 100 (opened 1024 2 100 2)" by (rule opened_balanced) simp
  then show ?thesis
    using tl2_audits_pass [of 8 8 1 sample_ops "opened 1024 2 100 2" "filled 1024 2 100 2" s tl2_bank
        "lock sample_region" 2] s sample_headroom
    unfolding sample_cost by (auto simp: sample_banks) blast
qed

section \<open>The first and the last transactions\<close>

text \<open>C20: Opening the bank on the reference. On a machine whose allocator has blocks to give, the
constructor of the workload creates the region with a first segment at \<open>st\<close>, and \<open>init\<close> then
reports no violation and leaves a balanced bank with one segment of \<open>nb\<close> accounts.\<close>

theorem reference_bank_opens:
  assumes "bank_machine W loc nb (k + 6 + nb) st c" and "0 < nb" and "0 \<le> sint ib"
  shows "\<exists>b shared rg c' s' V'.
    bank_ctor True (ref_library 0) nw nt (word_of_nat nb) ne ib c = Some (Inr (b, shared, rg), c') \<and>
    init b \<lparr>s_tx = 0, s_aborted = False, s_ro = False, s_env = e, s_local = loc, s_region = rg, s_c = c'\<rparr> =
      Some (Inr None, s') \<and>
    ref_rests W loc k V' s' \<and> bank_shape nb b V' (opened st nb ib nb) \<and> balanced ib (opened st nb ib nb)"
proof -
  let ?b = "new_bank (ref_library 0) st nb nw nt ne ib"
  obtain shared rg c' where 1: "bank_ctor True (ref_library 0) nw nt (word_of_nat nb) ne ib c = Some (Inr (?b, shared, rg), c')"
      "ref_idle W loc (k + 6 + nb) (blank st (3 + nb)) rg c'"
    using reference_created [OF assms(1)] by blast
  let ?s = "\<lparr>s_tx = 0, s_aborted = False, s_ro = False, s_env = e, s_local = loc, s_region = rg, s_c = c'\<rparr>"
  have rest: "ref_stm.resting loc W (k + 6 + nb) (blank st (3 + nb)) ?s"
    using 1(2) by (simp add: ref_stm.resting_def)
  from ref_stm.init_once [OF rest, of ?b 0] assms(2) bank_machine_first [OF assms(1)]
  obtain s' V' where 2: "init ?b ?s = Some (Inr None, s')" "ref_stm.resting loc W k V' s'"
      "bank_shape nb ?b V' (opened st nb ib nb)" by auto
  show ?thesis
    by (intro exI conjI, rule 1(1), rule 2(1), rule 2(2) [unfolded ref_resting], rule 2(3), rule opened_balanced [OF assms(3)])
qed

theorem reference_bank_opens_witness:
  "\<exists>b shared rg c' s' V'.
    bank_ctor True (ref_library 0) 1 1 2 2 100 (machine 9) = Some (Inr (b, shared, rg), c') \<and>
    init b \<lparr>s_tx = 0, s_aborted = False, s_ro = False, s_env = (), s_local = 8, s_region = rg, s_c = c'\<rparr> =
      Some (Inr None, s') \<and>
    ref_rests 8 8 1 V' s' \<and> bank_shape 2 b V' (opened 1024 2 100 2) \<and> balanced 100 (opened 1024 2 100 2)"
  using reference_bank_opens [of 8 8 2 1 1024 "machine 9" 100 1 1 2 "()"] machine_bank [of 9] by simp

text \<open>A bank with two accounts and two workers.\<close>

definition two_workers :: "ref_region bank" where
  "two_workers = new_bank (ref_library 0) 1024 2 2 1 2 100"

lemma two_workers_sel: "tl (b_tm two_workers) = ref_library 0" "start_addr (b_tm two_workers) = 1024" "nbworkers two_workers = word_of_nat 2"
  by (simp_all add: two_workers_def)

lemma sample_counter: "aw (filled 1024 2 100 2) 1024 \<noteq> None"
  using filled_words [of 2 2] header_in(1) [of 1024 2] by auto

text \<open>C23: What \<open>check\<close> reports. Let the counter in the first word of the region be whatever the other
workers make of it while a worker waits at the barrier: \<open>f e x\<close> when it was \<open>x\<close>. The first worker
sets it to 100 times the number of workers, every worker decreases it by exactly 100 between its
second and its third call of the barrier, and after the third the first worker reports a violation
exactly if it is not 0; so it does unless the others have decreased it by 100 each. Every other
worker reports nothing.\<close>

theorem check_reports:
  fixes sync :: "(ref_region, 'e) session \<Rightarrow> (ref_region, 'e) session"
  assumes "ref_rests W loc (k + 709) V s" and "tl (b_tm b) = ref_library code"
    and "aw V (start_addr (b_tm b)) = Some x"
    and "\<And>n V s x. ref_rests W loc n V s \<Longrightarrow> aw V (start_addr (b_tm b)) = Some x \<Longrightarrow>
      \<exists>V'. ref_rests W loc n V' (sync s) \<and> aw V' (start_addr (b_tm b)) = Some (f (s_env s) x) \<and> s_env (sync s) = g (s_env s)"
    and "e = s_env s" and "x1 = (if uid = 0 then 100 * nbworkers b else f e x)" and "y = f (g (g e)) (f (g e) x1 - 100)"
  shows "\<exists>s' V'. check sync b uid s = Some (Inr (if uid = 0 \<and> y \<noteq> 0 then Some ViolatedConsistency else None), s') \<and>
    ref_rests W loc k V' s' \<and> aw V' (start_addr (b_tm b)) = Some y"
proof -
  have tx: "word_of_nat check_tx = (100 :: csize)" "k + 9 + 7 * check_tx = k + 709" by (simp_all add: check_tx_def)
  show ?thesis
    using ref_stm.check_once [of loc W k V s b code x sync f g e x1 uid y, unfolded ref_resting tx] assms by blast
qed

text \<open>A first worker whose only fellow never decreases the counter.\<close>

theorem check_reports_witness:
  "\<exists>(s :: (ref_region, nat) session) s' V'. check counted two_workers 0 s = Some (Inr (Some ViolatedConsistency), s') \<and>
     ref_rests 8 8 1 V' s' \<and> aw V' 1024 = Some 100"
proof -
  obtain s :: "(ref_region, nat) session" where s: "ref_rests 8 8 (1 + 709) (filled 1024 2 100 2) s" "s_env s = 0"
    using reference_sample [of 710 "0 :: nat"] by auto
  obtain x where x: "aw (filled 1024 2 100 2) 1024 = Some x" using sample_counter by blast
  have meets: "\<exists>V'. ref_rests 8 8 n V' (counted s) \<and> aw V' (start_addr (b_tm two_workers)) = Some x \<and> s_env (counted s) = Suc (s_env s)"
    if "ref_rests 8 8 n V s" "aw V (start_addr (b_tm two_workers)) = Some x" for n V x and s :: "(ref_region, nat) session"
    using that by (auto simp: ref_rests_def counted_def)
  have "\<exists>s' V'. check counted two_workers 0 s =
      Some (Inr (if (0 :: nat) = 0 \<and> (100 :: csize) \<noteq> 0 then Some ViolatedConsistency else None), s') \<and>
      ref_rests 8 8 1 V' s' \<and> aw V' (start_addr (b_tm two_workers)) = Some 100"
  proof (rule check_reports [where f = "\<lambda>_ x. x" and g = Suc and V = "filled 1024 2 100 2" and code = 0 and x = x])
    show "\<exists>V'. ref_rests 8 8 n V' (counted s) \<and> aw V' (start_addr (b_tm two_workers)) = Some x \<and> s_env (counted s) = Suc (s_env s)"
      if "ref_rests 8 8 n V s" "aw V (start_addr (b_tm two_workers)) = Some x" for n V x and s :: "(ref_region, nat) session"
      using that by (rule meets)
    show "ref_rests 8 8 (1 + 709) (filled 1024 2 100 2) s" by (rule s(1))
    show "(100 :: csize) = (if (0 :: nat) = 0 then 100 * nbworkers two_workers else x) - 100" by (simp add: two_workers_sel)
  qed (use x in \<open>simp_all add: two_workers_sel\<close>)
  then show ?thesis by (auto simp: two_workers_sel)
qed

text \<open>On every path on which \<open>check\<close> returns, whatever the transactions answer and however often
they are retried, it calls the barrier exactly three times. All workers do so, which is what
makes the spin barrier pass.\<close>

theorem check_meets_thrice:
  assumes "check counted b uid s = Some (Inr r, s')"
  shows "s_env s' = s_env s + 3"
  using assms by (rule check_counts)

theorem check_meets_thrice_witness:
  "\<exists>(s :: (ref_region, nat) session) s'. check counted reference_bank 0 s = Some (Inr None, s') \<and> s_env s' = s_env s + 3"
proof -
  obtain s :: "(ref_region, nat) session" where s: "ref_rests 8 8 710 (filled 1024 2 100 2) s"
    using reference_sample [of 710 "0 :: nat"] by auto
  obtain x where x: "aw (filled 1024 2 100 2) 1024 = Some x" using sample_counter by blast
  have meets: "\<exists>V'. ref_rests 8 8 n V' (counted s) \<and> aw V' (start_addr (b_tm reference_bank)) = Some x \<and> s_env (counted s) = Suc (s_env s)"
    if "ref_rests 8 8 n V s" "aw V (start_addr (b_tm reference_bank)) = Some x" for n V x and s :: "(ref_region, nat) session"
    using that by (auto simp: ref_rests_def counted_def)
  have "\<exists>s' V'. check counted reference_bank 0 s =
      Some (Inr (if (0 :: nat) = 0 \<and> (0 :: csize) \<noteq> 0 then Some ViolatedConsistency else None), s') \<and>
      ref_rests 8 8 1 V' s' \<and> aw V' (start_addr (b_tm reference_bank)) = Some 0"
    unfolding ref_resting [symmetric]
  proof (rule ref_stm.check_once [where f = "\<lambda>_ x. x" and g = Suc and V = "filled 1024 2 100 2" and code = 0 and x = x])
    show "\<exists>V'. ref_stm.resting 8 8 n V' (counted s) \<and> aw V' (start_addr (b_tm reference_bank)) = Some x \<and> s_env (counted s) = Suc (s_env s)"
      if "ref_stm.resting 8 8 n V s" "aw V (start_addr (b_tm reference_bank)) = Some x" for n V x and s :: "(ref_region, nat) session"
      using that unfolding ref_resting by (rule meets)
    show "ref_stm.resting 8 8 (1 + 9 + 7 * check_tx) (filled 1024 2 100 2) s" using s by (simp add: ref_resting check_tx_def)
    show "(0 :: csize) = (if (0 :: nat) = 0 then word_of_nat check_tx * nbworkers reference_bank else x) - word_of_nat check_tx"
      by (simp add: sample_banks)
  qed (use x in \<open>simp_all add: sample_banks\<close>)
  then obtain s' where "check counted reference_bank 0 s = Some (Inr None, s')" by auto
  with check_meets_thrice [OF this] show ?thesis by blast
qed

end
