(* ===== verification/Bank_Run.thy ===== *)
theory Bank_Run
  imports Bank_Results
begin

text \<open>
  \<open>run\<close> of \<open>grading/workload.hpp\<close>, the phase that is measured, by one worker: inside the contract of a
  library that never aborts, a bank that is sound (well-formed, balanced, with two accounts, room
  for its balances to grow and calls left for \<open>n\<close> more transactions) stays so, and every
  transaction of \<open>run\<close> answers as the specification says.
\<close>

section \<open>The dice\<close>

text \<open>
  A short transaction is repeated until it has met two accounts that exist, and the accounts drawn
  may have been deallocated since they were counted. The first two always exist, so \<open>run\<close> goes
  on when the engine draws them after at most \<open>k\<close> repetitions.
\<close>

primrec draws_two :: "'g dice \<Rightarrow> csize \<Rightarrow> nat \<Rightarrow> 'g \<Rightarrow> bool" where
  "draws_two d count 0 g = False"
| "draws_two d count (Suc k) g =
     (let (i, g) = account_dist d count g; (j, g) = account_dist d count g in
      (unat i < 2 \<and> unat j < 2) \<or> draws_two d count k g)"

definition fair_dice :: "'g dice \<Rightarrow> nat \<Rightarrow> bool" where
  "fair_dice d k \<longleftrightarrow> (\<forall>count g. draws_two d count k g)"

lemma rounds_cost_mono: "m \<le> n \<Longrightarrow> rounds_cost m segs \<le> rounds_cost n segs"
  unfolding rounds_cost_def by (rule mult_le_mono) simp_all

context reliable_stm
begin

definition sound :: "'r bank \<Rightarrow> nat \<Rightarrow> nat \<Rightarrow> nat \<Rightarrow> ('r, 'e) session \<Rightarrow> amem \<Rightarrow> bseg list \<Rightarrow> bool" where
  "sound b nb k n s V segs \<longleftrightarrow>
     resting (k + rounds_cost n segs) V s \<and> bank_shape nb b V segs \<and> balanced (init_balance b) segs \<and>
     headroom n (init_balance b # accs_of segs) \<and> 2 \<le> length (accs_of segs)"

lemma sound_mono:
  assumes "sound b nb k n s V segs" "m \<le> n"
  shows "sound b nb k m s V segs"
proof -
  have "resting (k + rounds_cost m segs) V s"
    by (rule resting_le [where n = "k + rounds_cost n segs"]) (use assms rounds_cost_mono [OF assms(2)] in \<open>simp_all add: sound_def\<close>)
  then show ?thesis using assms headroom_mono [OF _ assms(2)] by (auto simp: sound_def)
qed

text \<open>A transaction that writes.\<close>

lemma sound_serve:
  assumes s: "sound b nb k (Suc n) s V segs" and L: "tl (b_tm b) = L" and w: "3 + nb \<le> max_words" and ib: "0 \<le> sint (init_balance b)"
  shows "\<exists>a s' V' segs' p. serve b op s = Some (Inr a, s') \<and> sound b nb k n s' V' segs' \<and>
    op_spec nb (init_balance b) p op segs = (a, segs')"
proof -
  note o = s [unfolded sound_def]
  have pop: "populated segs" using o bank_shape_populated by blast
  define m where "m = k + rounds_cost (Suc n) segs - round_cost segs"
  have "round_cost segs + rounds_cost n segs \<le> rounds_cost (Suc n) segs" by (rule rounds_cost_step) simp_all
  then have m: "k + rounds_cost (Suc n) segs = m + round_cost segs" by (simp add: m_def)
  obtain a s' V' segs' p where r: "serve b op s = Some (Inr a, s')" "resting m V' s'" "bank_shape nb b V' segs'"
      "op_spec nb (init_balance b) p op segs = (a, segs')"
    using serve_step [of m segs V s b nb op] o L w unfolding m by blast
  have len: "length segs' \<le> Suc (length segs)" "length (accs_of segs') \<le> Suc (length (accs_of segs))"
    using op_spec_length [OF r(4)] pop by (simp_all add: populated_def)
  have "resting (k + rounds_cost n segs') V' s'"
    by (rule resting_le [OF r(2)]) (use rounds_cost_step [OF len, of n] m in simp)
  moreover have "balanced (init_balance b) segs' \<and> headroom n (init_balance b # accs_of segs')"
    using op_spec_audits [OF r(4) _ pop _ ib] o by blast
  moreover have "2 \<le> length (accs_of segs')" using op_spec_two [OF r(4) pop] o by simp
  ultimately have "sound b nb k n s' V' segs'" using r(3) by (simp add: sound_def)
  with r show ?thesis by blast
qed

lemma sound_alloc:
  assumes "sound b nb k (Suc n) s V segs" and "tl (b_tm b) = L" and "3 + nb \<le> max_words" and "0 \<le> sint (init_balance b)"
  shows "\<exists>s' V' segs'. alloc_tx b trigger s = Some (Inr (), s') \<and> sound b nb k n s' V' segs'"
proof -
  obtain a s' V' segs' where "serve b (Alloc trigger) s = Some (Inr a, s')" "sound b nb k n s' V' segs'"
    using sound_serve [OF assms, of "Alloc trigger"] by blast
  then have "alloc_tx b trigger s = Some (Inr (), s')" by (auto elim!: tbind_Inr simp: return_def)
  with \<open>sound b nb k n s' V' segs'\<close> show ?thesis by blast
qed

lemma sound_short:
  assumes "sound b nb k (Suc n) s V segs" and "tl (b_tm b) = L" and "3 + nb \<le> max_words" and "0 \<le> sint (init_balance b)"
  shows "\<exists>r s' V' segs'. run_in (i, j) (short_tx b i j) s = Some (Inr r, s') \<and> sound b nb k n s' V' segs' \<and>
    (unat i < 2 \<and> unat j < 2 \<longrightarrow> fst r)"
proof -
  obtain a s' V' segs' p where a: "serve b (Short i j) s = Some (Inr a, s')" "sound b nb k n s' V' segs'"
      "op_spec nb (init_balance b) p (Short i j) segs = (a, segs')"
    using sound_serve [OF assms, of "Short i j"] by blast
  then obtain r where r: "run_in (i, j) (short_tx b i j) s = Some (Inr r, s')" "a = ShortAnswer (fst r)"
    by (auto elim!: tbind_Inr simp: return_def)
  have "2 \<le> length (accs_of segs)" using assms(1) by (simp add: sound_def)
  then have "unat i < 2 \<and> unat j < 2 \<longrightarrow> fst r" using a(3) r(2) by (auto split: if_splits)
  with r(1) a(2) show ?thesis by blast
qed

text \<open>The long transaction finds every account and no violation.\<close>

lemma sound_long:
  assumes s: "sound b nb k (Suc n) s V segs" and L: "tl (b_tm b) = L"
  shows "\<exists>s'. run_in c (long_tx b) s = Some (Inr (True, word_of_nat (length (accs_of segs))), s') \<and> sound b nb k n s' V segs"
proof -
  note o = s [unfolded sound_def]
  have cost: "round_cost segs + rounds_cost n segs \<le> rounds_cost (Suc n) segs" by (rule rounds_cost_step) simp_all
  have "resting (k + rounds_cost n segs + 2 + long_cost segs) V (with_env c s)"
    unfolding resting_env
    by (rule resting_le [where n = "k + rounds_cost (Suc n) segs"]) (use o cost in \<open>simp_all add: round_cost_def long_cost_le\<close>)
  from long_tx_once [OF this L] o obtain ok t where t: "long_tx b (with_env c s) = Some (Inr ok, t)"
      "resting (k + rounds_cost n segs) V t" "long_done b segs ok (s_env t)" by blast
  have d: "ok" "s_env t = word_of_nat (length (accs_of segs))" using t(3) o by (simp_all add: long_done_balanced)
  have "run_in c (long_tx b) s = Some (Inr (True, word_of_nat (length (accs_of segs))), with_env (s_env s) t)"
    using run_in_Some [where f = "long_tx b" and d = c, OF t(1)] d by simp
  moreover have "sound b nb k n (with_env (s_env s) t) V segs"
    using t(2) o headroom_mono [of "Suc n" _ n] by (simp add: sound_def)
  ultimately show ?thesis by blast
qed

text \<open>The repetitions of the short transaction end.\<close>

lemma sound_until:
  assumes "draws_two d count m g" and "sound b nb k (n + m) s V segs" and "tl (b_tm b) = L" and "3 + nb \<le> max_words"
    and "0 \<le> sint (init_balance b)"
  shows "\<exists>g' s' V' segs'. short_until d b count g s = Some (Inr g', s') \<and> sound b nb k n s' V' segs'"
  using assms(1,2)
proof (induction m arbitrary: g s V segs)
  case 0
  then show ?case by simp
next
  case (Suc m)
  obtain i g1 where i: "account_dist d count g = (i, g1)" by fastforce
  obtain j g2 where j: "account_dist d count g1 = (j, g2)" by fastforce
  obtain r s1 V1 segs1 where r: "run_in (i, j) (short_tx b i j) s = Some (Inr r, s1)" "sound b nb k (n + m) s1 V1 segs1"
      "unat i < 2 \<and> unat j < 2 \<longrightarrow> fst r"
    using sound_short [OF Suc.prems(2) [unfolded add_Suc_right] assms(3-5), of i j] by blast
  show ?case
  proof (cases "fst r")
    case True
    then have "short_until d b count g s = Some (Inr g2, s1)"
      by (subst short_until.simps) (simp add: i j r(1) return_def)
    then show ?thesis using sound_mono [OF r(2), of n] by auto
  next
    case False
    then have "draws_two d count m g2" using Suc.prems(1) r(3) by (auto simp: i j)
    from Suc.IH [OF this r(2)] obtain g' s' V' segs' where
      "short_until d b count g2 s1 = Some (Inr g', s')" "sound b nb k n s' V' segs'" by blast
    moreover have "short_until d b count g s = short_until d b count g2 s1"
      by (subst short_until.simps) (simp add: i j r(1) False)
    ultimately show ?thesis by auto
  qed
qed

text \<open>A transaction of \<open>run\<close> uses up at most \<open>K\<close> of the transactions that are left.\<close>

lemma sound_loop:
  assumes "unat cntr + m = unat (nbtxperwrk b)" and "sound b nb k (n + m * K) s V segs" and "fair_dice d K" and "0 < K"
    and "tl (b_tm b) = L" and "3 + nb \<le> max_words" and "0 \<le> sint (init_balance b)"
  shows "\<exists>g' s' V' segs'. run_loop d b cntr count g s = Some (Inr (Inr g'), s') \<and> sound b nb k n s' V' segs'"
  using assms(1,2)
proof (induction m arbitrary: cntr count g s V segs)
  case 0
  then have "\<not> cntr < nbtxperwrk b" by (simp add: word_less_nat_alt)
  then have "run_loop d b cntr count g s = Some (Inr (Inr g), s)" by (subst run_loop.simps) (simp add: return_def)
  then show ?case using 0 by auto
next
  case (Suc m)
  have lt: "cntr < nbtxperwrk b" using Suc.prems(1) by (simp add: word_less_nat_alt)
  have "unat cntr + 1 < 2 ^ 64" using Suc.prems(1) unsigned_less [of "nbtxperwrk b", where 'a = nat] by simp
  then have "unat (cntr + 1) = unat cntr + 1" using unat_plus_offset [of cntr 1] by simp
  then have next_: "unat (cntr + 1) + m = unat (nbtxperwrk b)" using Suc.prems(1) by simp
  have one: "sound b nb k (Suc (n + m * K)) s V segs"
    by (rule sound_mono [OF Suc.prems(2)]) (use assms(4) in simp)
  note IH = Suc.IH [OF next_]
  obtain long g1 where g1: "long_dist d g = (long, g1)" by fastforce
  show ?case
  proof (cases long)
    case True
    obtain s1 where s1: "run_in count (long_tx b) s = Some (Inr (True, word_of_nat (length (accs_of segs))), s1)"
        "sound b nb k (n + m * K) s1 V segs"
      using sound_long [OF one assms(5)] by blast
    have "run_loop d b cntr count g s = run_loop d b (cntr + 1) (word_of_nat (length (accs_of segs))) g1 s1"
      by (subst run_loop.simps) (simp add: lt g1 True s1(1))
    with IH [OF s1(2)] show ?thesis by simp
  next
    case short: False
    obtain al g2 where g2: "alloc_dist d g1 = (al, g2)" by fastforce
    show ?thesis
    proof (cases al)
      case True
      obtain trigger g3 where g3: "alloc_trigger d g2 = (trigger, g3)" by fastforce
      obtain s1 V1 segs1 where s1: "alloc_tx b trigger s = Some (Inr (), s1)" "sound b nb k (n + m * K) s1 V1 segs1"
        using sound_alloc [OF one assms(5-7)] by blast
      have "run_loop d b cntr count g s = run_loop d b (cntr + 1) count g3 s1"
        by (subst run_loop.simps) (simp add: lt g1 g2 g3 short True s1(1))
      with IH [OF s1(2)] show ?thesis by simp
    next
      case False
      have dr: "draws_two d count K g2" using assms(3) by (simp add: fair_dice_def)
      have so: "sound b nb k (n + m * K + K) s V segs" using Suc.prems(2) by (simp add: algebra_simps)
      obtain g3 s1 V1 segs1 where s1: "short_until d b count g2 s = Some (Inr g3, s1)" "sound b nb k (n + m * K) s1 V1 segs1"
        using sound_until [OF dr so assms(5-7)] by blast
      have "run_loop d b cntr count g s = run_loop d b (cntr + 1) count g3 s1"
        by (subst run_loop.simps) (simp add: lt g1 g2 short False s1(1))
      with IH [OF s1(2)] show ?thesis by simp
    qed
  qed
qed

lemma run_once:
  assumes "sound b nb k (1 + unat (nbtxperwrk b) * K) s V segs" and "fair_dice d K" and "0 < K"
    and "tl (b_tm b) = L" and "3 + nb \<le> max_words" and "0 \<le> sint (init_balance b)"
  shows "\<exists>s' V' segs'. run d seed b s = Some (Inr None, s') \<and> sound b nb k 0 s' V' segs'"
proof -
  obtain g' s1 V1 segs1 where 1: "run_loop d b 0 (nbaccounts b) seed s = Some (Inr (Inr g'), s1)" "sound b nb k 1 s1 V1 segs1"
    using sound_loop [where cntr = 0 and m = "unat (nbtxperwrk b)" and n = 1, OF _ assms] by (simp del: One_nat_def) blast
  obtain s2 where "run_in 0 (long_tx b) s1 = Some (Inr (True, word_of_nat (length (accs_of segs1))), s2)" "sound b nb k 0 s2 V1 segs1"
    using sound_long [of b nb k 0] 1(2) assms(4) by (metis One_nat_def)
  with 1(1) show ?thesis by (auto simp: run_def return_def)
qed

end

section \<open>On the reference\<close>

text \<open>C19: The measured phase passes on the reference. For one worker on a well-formed and balanced bank with
two accounts, \<open>run\<close> terminates, reports no violation and leaves a well-formed and balanced bank,
whatever the dice choose, as long as they draw the first two accounts at least once in \<open>K\<close> draws; the
allocator, the calls and the balances have to last for \<open>K\<close> short transactions per round.\<close>

theorem reference_run_passes:
  fixes s :: "(ref_region, 'e) session"
  assumes "ref_rests W loc (k + rounds_cost (1 + unat (nbtxperwrk b) * K) segs) V s" and "tl (b_tm b) = ref_library code"
    and "bank_shape nb b V segs" and "nb + 5 \<le> W" and "balanced (init_balance b) segs" and "0 \<le> sint (init_balance b)"
    and "headroom (1 + unat (nbtxperwrk b) * K) (init_balance b # accs_of segs)" and "2 \<le> length (accs_of segs)"
    and "fair_dice d K" and "0 < K"
  shows "\<exists>s' V' segs'. run d seed b s = Some (Inr None, s') \<and> ref_rests W loc k V' s' \<and> bank_shape nb b V' segs' \<and>
    balanced (init_balance b) segs'"
proof -
  have "ref_stm.sound loc W b nb k (1 + unat (nbtxperwrk b) * K) s V segs"
    using assms by (simp add: ref_stm.sound_def ref_resting)
  from ref_stm.run_once [OF this assms(9,10,2) _ assms(6)] assms(4)
  obtain s' V' segs' where "run d seed b s = Some (Inr None, s')" "ref_stm.sound loc W b nb k 0 s' V' segs'" by fastforce
  then show ?thesis by (auto simp: ref_stm.sound_def ref_resting rounds_cost_def)
qed

text \<open>Dice that draw the accounts in turn, a long and an allocating transaction now and then.\<close>

definition turning_dice :: "nat dice" where
  "turning_dice = \<lparr>long_dist = (\<lambda>g. (g mod 4 = 0, Suc g)), alloc_dist = (\<lambda>g. (g mod 4 = 1, Suc g)),
     alloc_trigger = (\<lambda>g. (word_of_nat (g mod 8), Suc g)), account_dist = (\<lambda>count g. (word_of_nat (g mod 2), Suc g))\<rparr>"

lemma turning_fair: "fair_dice turning_dice 1"
proof -
  have "unat (word_of_nat (g mod 2) :: csize) < 2" for g using unat_small [of "g mod 2"] by simp
  then show ?thesis by (simp add: fair_dice_def turning_dice_def)
qed

theorem reference_run_passes_witness:
  "\<exists>(s :: (ref_region, unit) session) s' V' segs'. run turning_dice 0 reference_bank s = Some (Inr None, s') \<and>
     ref_rests 8 8 1 V' s' \<and> bank_shape 2 reference_bank V' segs' \<and> balanced 100 segs'"
proof -
  have n: "unat (nbtxperwrk reference_bank) = 1" by (simp add: reference_bank_def new_bank_def)
  have c: "1 + rounds_cost (1 + 1 * 1) (opened 1024 2 100 2) = 45"
    by (simp add: rounds_cost_def round_cost_def opened_def eval_nat_numeral)
  obtain s :: "(ref_region, unit) session" where s: "ref_rests 8 8 45 (filled 1024 2 100 2) s"
    using reference_sample [of 45 "()"] by auto
  have b: "balanced 100 (opened 1024 2 100 2)" by (rule opened_balanced) simp
  have h: "headroom (Suc (Suc 0)) (100 # accs_of (opened 1024 2 100 2))" and l: "2 \<le> length (accs_of (opened 1024 2 100 2))"
    by (simp_all add: headroom_def opened_def)
  have "\<exists>s' V' segs'. run turning_dice 0 reference_bank s = Some (Inr None, s') \<and> ref_rests 8 8 1 V' s' \<and>
      bank_shape 2 reference_bank V' segs' \<and> balanced (init_balance reference_bank) segs'"
    by (rule reference_run_passes [where k = 1 and K = 1 and segs = "opened 1024 2 100 2" and V = "filled 1024 2 100 2"])
      (use s b h l turning_fair n c in \<open>simp_all add: sample_banks\<close>)
  then show ?thesis unfolding sample_banks(6) by blast
qed

end
