(* ===== verification/Check_Workers.thy ===== *)
theory Check_Workers
  imports Bank_Results
begin

text \<open>
  \<open>check\<close> of \<open>grading/workload.hpp\<close> by all the workers of a bank. The workers take turns; a turn is
  a whole transaction or the passing of a barrier, which on the reference is no restriction: its
  transactions are serializable, and the barrier lets nobody through before all have come. The
  region and the memory are shared; the slot of the local variable is dead between transactions.
\<close>

section \<open>A worker\<close>

text \<open>
  Where a worker is: before its \<open>k\<close>-th call of the barrier returns, with the report it is going to
  return; before a transaction; or out of the function. Of the loop, \<open>m\<close> rounds are still to do.
\<close>

datatype check_place =
    Meeting nat "report option"
  | Writing | Verifying
  | Fetching_last nat | Decreasing nat "64 word"
  | Closing_read
  | Over "report option"
  | Raised nat exn

record ('r, 'e) crew =
  c_session :: "('r, 'e) session"
  c_place :: "nat \<Rightarrow> check_place"

definition crew_new :: "('r, 'e) session \<Rightarrow> ('r, 'e) crew" where
  "crew_new s = \<lparr>c_session = s, c_place = (\<lambda>_. Meeting 1 None)\<rparr>"

text \<open>How often a worker has called the barrier, and how often it has passed it.\<close>

primrec calls :: "check_place \<Rightarrow> nat" where
  "calls (Meeting k r) = k"
| "calls Writing = 1"
| "calls Verifying = 1"
| "calls (Fetching_last m) = 2"
| "calls (Decreasing m v) = 2"
| "calls Closing_read = 3"
| "calls (Over r) = 3"
| "calls (Raised k e) = k"

primrec passed :: "check_place \<Rightarrow> nat" where
  "passed (Meeting k r) = k - 1"
| "passed Writing = 1"
| "passed Verifying = 1"
| "passed (Fetching_last m) = 2"
| "passed (Decreasing m v) = 2"
| "passed Closing_read = 3"
| "passed (Over r) = 3"
| "passed (Raised k e) = k"

definition loop_at :: "nat \<Rightarrow> check_place" where
  "loop_at m = (if m = 0 then Meeting 3 None else Fetching_last m)"

text \<open>A worker that has found a violation only meets the others as often as they wait for it.\<close>

definition after_meeting :: "nat \<Rightarrow> nat \<Rightarrow> report option \<Rightarrow> check_place" where
  "after_meeting uid k r =
     (if k = 1 then if uid = 0 then Writing else Meeting 2 None
      else if k = 2 then case r of None \<Rightarrow> loop_at check_tx | Some e \<Rightarrow> Meeting 3 (Some e)
      else case r of None \<Rightarrow> if uid = 0 then Closing_read else Over None | Some e \<Rightarrow> Over (Some e))"

definition conclude ::
  "nat \<Rightarrow> ('a \<Rightarrow> check_place) \<Rightarrow> ('r, 'e, 'a) outcome \<Rightarrow> ('r, 'e) crew \<Rightarrow> ('r, 'e) crew option" where
  "conclude uid f r w = map_option (\<lambda>(x, s).
     w\<lparr>c_session := s, c_place := (c_place w)(uid := case x of Inl e \<Rightarrow> Raised (calls (c_place w uid)) e | Inr y \<Rightarrow> f y)\<rparr>) r"

definition check_turn :: "'r bank \<Rightarrow> nat \<Rightarrow> nat \<Rightarrow> ('r, 'e) crew \<Rightarrow> ('r, 'e) crew option" where
  "check_turn b n uid w =
     (let s = c_session w; tm = b_tm b; init_counter = word_of_nat check_tx * nbworkers b in
      case c_place w uid of
        Meeting k r \<Rightarrow>
          Some (if \<forall>j < n. k \<le> calls (c_place w j) then w\<lparr>c_place := (c_place w)(uid := after_meeting uid k r)\<rparr> else w)
      | Writing \<Rightarrow> conclude uid (\<lambda>_. Verifying) (transactional tm False (write_counter b init_counter) s) w
      | Verifying \<Rightarrow>
          conclude uid (\<lambda>correct. Meeting 2 (if \<not> correct then Some ViolatedDuringInitialization else None))
            (transactional tm True (counter_is b init_counter) s) w
      | Fetching_last m \<Rightarrow> conclude uid (\<lambda>last_value. Decreasing m last_value) (transactional tm True (read_counter b) s) w
      | Decreasing m last_value \<Rightarrow>
          conclude uid (\<lambda>correct. if \<not> correct then Meeting 3 (Some ViolatedConsistencyIsolationOrAtomicity) else loop_at (m - 1))
            (transactional tm False (decrease b last_value) s) w
      | Closing_read \<Rightarrow>
          conclude uid (\<lambda>correct. Over (if \<not> correct then Some ViolatedConsistency else None))
            (transactional tm True (counter_is b 0) s) w
      | _ \<Rightarrow> Some w)"

primrec check_turns :: "'r bank \<Rightarrow> nat \<Rightarrow> nat list \<Rightarrow> ('r, 'e) crew \<Rightarrow> ('r, 'e) crew option" where
  "check_turns b n [] w = Some w"
| "check_turns b n (i # is) w = Option.bind (check_turn b n i w) (check_turns b n is)"

lemma check_turns_append:
  "check_turns b n (xs @ ys) w = Option.bind (check_turns b n xs w) (check_turns b n ys)"
  by (induction xs arbitrary: w) (auto split: bind_split)

section \<open>One worker\<close>

text \<open>A worker that is alone meets nobody, and its turns are those of \<open>check\<close>.\<close>

lemma alone_meets:
  assumes "c_place w 0 = Meeting k r"
  shows "check_turn b 1 0 w = Some (w\<lparr>c_place := (c_place w)(0 := after_meeting 0 k r)\<rparr>)"
  using assms by (simp add: check_turn_def Let_def)

definition reaches :: "'r bank \<Rightarrow> ('r, 'e) crew \<Rightarrow> ('r, 'e) session \<Rightarrow> check_place \<Rightarrow> bool" where
  "reaches b w s p \<longleftrightarrow> (\<exists>k w'. check_turns b 1 (replicate k 0) w = Some w' \<and> c_session w' = s \<and> c_place w' 0 = p)"

lemma reaches_done: "c_session w = s \<Longrightarrow> c_place w 0 = p \<Longrightarrow> reaches b w s p"
  by (auto simp: reaches_def intro: exI [of _ 0])

lemma reaches_turn:
  assumes "check_turn b 1 0 w = Some w'" and "reaches b w' s p"
  shows "reaches b w s p"
proof -
  obtain k w2 where "check_turns b 1 (replicate k 0) w' = Some w2" "c_session w2 = s" "c_place w2 0 = p"
    using assms(2) by (auto simp: reaches_def)
  with assms(1) show ?thesis by (auto simp: reaches_def intro!: exI [of _ "Suc k"])
qed

text \<open>How \<open>check\<close> ends, with a report or an exception.\<close>

definition ends :: "'r bank \<Rightarrow> ('r, 'e) crew \<Rightarrow> exn + report option \<Rightarrow> ('r, 'e) session \<Rightarrow> bool" where
  "ends b w x s \<longleftrightarrow> (case x of Inr r \<Rightarrow> reaches b w s (Over r) | Inl e \<Rightarrow> \<exists>k. reaches b w s (Raised k e))"

lemma ends_turn: "check_turn b 1 0 w = Some w' \<Longrightarrow> ends b w' x s \<Longrightarrow> ends b w x s"
  unfolding ends_def using reaches_turn [of b w w' s] by (cases x) auto

lemma ends_conclude:
  assumes turn: "check_turn b 1 0 w = conclude 0 f m w" and e: "tbind m g = Some (x, s')"
    and ih: "\<And>y w1. g y (c_session w1) = Some (x, s') \<Longrightarrow> c_place w1 0 = f y \<Longrightarrow> ends b w1 x s'"
  shows "ends b w x s'"
proof -
  obtain r s1 where m: "m = Some (r, s1)" using e by (cases m) auto
  let ?w = "w\<lparr>c_session := s1, c_place := (c_place w)(0 := case r of Inl e \<Rightarrow> Raised (calls (c_place w 0)) e | Inr y \<Rightarrow> f y)\<rparr>"
  have t: "check_turn b 1 0 w = Some ?w" using turn m by (simp add: conclude_def)
  show ?thesis
  proof (cases r)
    case (Inl a)
    then have "x = Inl a" "s' = s1" using e m by (simp_all add: throw_def)
    then have "ends b ?w x s'" using Inl by (auto simp: ends_def intro!: reaches_done)
    with t show ?thesis by (rule ends_turn)
  next
    case (Inr y)
    then have "ends b ?w x s'" using ih [of y ?w] e m by simp
    with t show ?thesis by (rule ends_turn)
  qed
qed

lemma ends_meeting:
  assumes "c_place w 0 = Meeting k r"
    and "\<And>w1. c_session w1 = c_session w \<Longrightarrow> c_place w1 0 = after_meeting 0 k r \<Longrightarrow> ends b w1 x s"
  shows "ends b w x s"
  by (rule ends_turn [OF alone_meets [OF assms(1)]], rule assms(2)) simp_all

lemma ends_loop:
  fixes w :: "('r, 'e) crew"
  assumes "c_place w 0 = loop_at m" and "tbind (check_rounds b m (c_session w)) g = Some (x, s')"
    and "\<And>y w1. g y (c_session w1) = Some (x, s') \<Longrightarrow>
      c_place w1 0 = Meeting 3 (if \<not> y then Some ViolatedConsistencyIsolationOrAtomicity else None) \<Longrightarrow> ends b w1 x s'"
  shows "ends b w x s'"
  using assms(1,2)
proof (induction m arbitrary: w)
  case 0
  then show ?case using assms(3) [of True w] by (simp add: loop_at_def)
next
  case (Suc m)
  show ?case
  proof (rule ends_conclude)
    show "check_turn b 1 0 w = conclude 0 (\<lambda>last_value. Decreasing (Suc m) last_value)
        (transactional (b_tm b) True (read_counter b) (c_session w)) w"
      using Suc.prems(1) by (simp add: check_turn_def loop_at_def)
    show "tbind (transactional (b_tm b) True (read_counter b) (c_session w)) (\<lambda>v s.
        tbind (tbind (transactional (b_tm b) False (decrease b v) s)
          (\<lambda>ok s. if \<not> ok then return False s else check_rounds b m s)) g) = Some (x, s')"
      using Suc.prems(2) by (simp add: tbind_assoc)
  next
    fix v and w1 :: "('r, 'e) crew"
    assume e: "tbind (tbind (transactional (b_tm b) False (decrease b v) (c_session w1))
        (\<lambda>ok s. if \<not> ok then return False s else check_rounds b m s)) g = Some (x, s')"
      and p: "c_place w1 0 = Decreasing (Suc m) v"
    show "ends b w1 x s'"
    proof (rule ends_conclude [OF _ e [unfolded tbind_assoc]])
      show "check_turn b 1 0 w1 = conclude 0
          (\<lambda>ok. if \<not> ok then Meeting 3 (Some ViolatedConsistencyIsolationOrAtomicity) else loop_at m)
          (transactional (b_tm b) False (decrease b v) (c_session w1)) w1"
        using p by (simp add: check_turn_def cong: if_cong)
    next
      fix ok and w2 :: "('r, 'e) crew"
      assume "tbind (if \<not> ok then return False (c_session w2) else check_rounds b m (c_session w2)) g = Some (x, s')"
        and "c_place w2 0 = (if \<not> ok then Meeting 3 (Some ViolatedConsistencyIsolationOrAtomicity) else loop_at m)"
      then show "ends b w2 x s'" using Suc.IH [of w2] assms(3) [of False w2] by (cases ok) simp_all
    qed
  qed
qed

text \<open>What \<open>check\<close> does after its loop, and after its initialisation.\<close>

definition after_loop :: "'r bank \<Rightarrow> bool \<Rightarrow> ('r, 'e) session \<Rightarrow> ('r, 'e, report option) outcome" where
  "after_loop b correct s =
     (if \<not> correct then return (Some ViolatedConsistencyIsolationOrAtomicity) s
      else tbind (transactional (b_tm b) True (counter_is b 0) s) (\<lambda>correct s.
             return (if \<not> correct then Some ViolatedConsistency else None) s))"

definition after_init :: "'r bank \<Rightarrow> bool \<Rightarrow> ('r, 'e) session \<Rightarrow> ('r, 'e, report option) outcome" where
  "after_init b correct s =
     (if \<not> correct then return (Some ViolatedDuringInitialization) s
      else tbind (check_rounds b check_tx s) (after_loop b))"

lemma check_parts:
  "check (\<lambda>s. s) b 0 s =
     tbind (transactional (b_tm b) False (write_counter b (word_of_nat check_tx * nbworkers b)) s) (\<lambda>_ s.
     tbind (transactional (b_tm b) True (counter_is b (word_of_nat check_tx * nbworkers b)) s) (after_init b))"
  by (simp add: check_def check_init_def Let_def tbind_assoc after_loop_def [abs_def] after_init_def [abs_def] cong: if_cong)

lemma ends_over:
  fixes w :: "('r, 'e) crew"
  assumes e: "after_loop b y (c_session w) = Some (x, s')"
    and p: "c_place w 0 = Meeting 3 (if \<not> y then Some ViolatedConsistencyIsolationOrAtomicity else None)"
  shows "ends b w x s'"
proof (rule ends_meeting [OF p])
  fix w1 :: "('r, 'e) crew"
  assume w1: "c_session w1 = c_session w"
    "c_place w1 0 = after_meeting 0 3 (if \<not> y then Some ViolatedConsistencyIsolationOrAtomicity else None)"
  show "ends b w1 x s'"
  proof (cases y)
    case False
    with w1 e have "x = Inr (Some ViolatedConsistencyIsolationOrAtomicity)" "s' = c_session w1"
      by (simp_all add: after_loop_def return_def)
    with w1 False show ?thesis by (simp add: ends_def after_meeting_def reaches_done)
  next
    case True
    then have "tbind (transactional (b_tm b) True (counter_is b 0) (c_session w1)) (\<lambda>correct s.
        return (if \<not> correct then Some ViolatedConsistency else None) s) = Some (x, s')"
      using e w1 by (simp add: after_loop_def)
    then show ?thesis
    proof (rule ends_conclude [rotated])
      show "check_turn b 1 0 w1 = conclude 0 (\<lambda>correct. Over (if \<not> correct then Some ViolatedConsistency else None))
          (transactional (b_tm b) True (counter_is b 0) (c_session w1)) w1"
        using w1(2) True by (simp add: check_turn_def after_meeting_def)
    qed (auto simp: return_def ends_def intro!: reaches_done)
  qed
qed

lemma ends_middle:
  fixes w :: "('r, 'e) crew"
  assumes e: "after_init b y (c_session w) = Some (x, s')"
    and p: "c_place w 0 = Meeting 2 (if \<not> y then Some ViolatedDuringInitialization else None)"
  shows "ends b w x s'"
proof (rule ends_meeting [OF p])
  fix w1 :: "('r, 'e) crew"
  assume w1: "c_session w1 = c_session w"
    "c_place w1 0 = after_meeting 0 2 (if \<not> y then Some ViolatedDuringInitialization else None)"
  show "ends b w1 x s'"
  proof (cases y)
    case False
    with w1 have m: "c_place w1 0 = Meeting 3 (Some ViolatedDuringInitialization)" by (simp add: after_meeting_def)
    have "x = Inr (Some ViolatedDuringInitialization)" "s' = c_session w1"
      using e w1(1) False by (simp_all add: after_init_def return_def)
    then show ?thesis
      by (intro ends_meeting [OF m]) (auto simp: ends_def after_meeting_def intro!: reaches_done)
  next
    case True
    then have t: "tbind (check_rounds b check_tx (c_session w1)) (after_loop b) = Some (x, s')"
      using e w1(1) by (simp add: after_init_def)
    have "c_place w1 0 = loop_at check_tx" using w1(2) True by (simp add: after_meeting_def)
    from ends_loop [OF this t ends_over] show ?thesis .
  qed
qed

lemma ends_verifying:
  assumes e: "tbind (transactional (b_tm b) True (counter_is b (word_of_nat check_tx * nbworkers b)) (c_session w)) (after_init b) =
      Some (x, s')" and p: "c_place w 0 = Verifying"
  shows "ends b w x s'"
proof (rule ends_conclude [OF _ e])
  show "check_turn b 1 0 w = conclude 0 (\<lambda>correct. Meeting 2 (if \<not> correct then Some ViolatedDuringInitialization else None))
      (transactional (b_tm b) True (counter_is b (word_of_nat check_tx * nbworkers b)) (c_session w)) w"
    using p by (simp add: check_turn_def)
qed (rule ends_middle)

text \<open>The turns of a worker that is alone are those of the function \<open>check\<close> itself, over any library:
when \<open>check\<close> returns a report or throws, enough turns lead to the same report or exception and the
same session.\<close>

lemma check_alone:
  fixes s :: "('r, 'e) session"
  assumes "check (\<lambda>s. s) b 0 s = Some (x, s')"
  shows "\<exists>k w. check_turns b 1 (replicate k 0) (crew_new s) = Some w \<and> c_session w = s' \<and>
    (case x of Inr r \<Rightarrow> c_place w 0 = Over r | Inl e \<Rightarrow> \<exists>k. c_place w 0 = Raised k e)"
proof -
  have "ends b (crew_new s) x s'"
  proof (rule ends_meeting)
    show "c_place (crew_new s) 0 = Meeting 1 None" by (simp add: crew_new_def)
  next
    fix w :: "('r, 'e) crew"
    assume w: "c_session w = c_session (crew_new s)" "c_place w 0 = after_meeting 0 1 None"
    show "ends b w x s'"
    proof (rule ends_conclude [OF _ _ ends_verifying])
      show "check_turn b 1 0 w = conclude 0 (\<lambda>_. Verifying)
          (transactional (b_tm b) False (write_counter b (word_of_nat check_tx * nbworkers b)) (c_session w)) w"
        using w(2) by (simp add: check_turn_def after_meeting_def)
    qed (use assms w(1) in \<open>simp_all add: check_parts crew_new_def\<close>)
  qed
  then show ?thesis by (cases x) (auto simp: ends_def reaches_def)
qed

section \<open>A round that is interfered with\<close>

text \<open>A worker that is going to report a violation after the third meeting does nothing else.\<close>

lemma reported_turn:
  assumes "check_turn b n j w = Some w'" and "c_place w i \<in> {Meeting 3 (Some v), Over (Some v)}"
  shows "c_place w' i \<in> {Meeting 3 (Some v), Over (Some v)}"
proof (cases "j = i")
  case True
  then show ?thesis using assms by (auto simp: check_turn_def after_meeting_def Let_def split: if_splits)
next
  case False
  then show ?thesis using assms
    by (cases "c_place w j") (auto simp: check_turn_def conclude_def Let_def split: if_splits)
qed

lemma reported_turns:
  "check_turns b n is w = Some w' \<Longrightarrow> c_place w i \<in> {Meeting 3 (Some v), Over (Some v)} \<Longrightarrow>
     c_place w' i \<in> {Meeting 3 (Some v), Over (Some v)}"
proof (induction "is" arbitrary: w)
  case (Cons j js)
  then obtain w1 where "check_turn b n j w = Some w1" "check_turns b n js w1 = Some w'"
    by (auto simp: Option.bind_eq_Some_conv)
  with Cons reported_turn show ?case by blast
qed simp

text \<open>C25: The guard of a round of \<open>check\<close>. A worker reads the counter, \<open>x\<close>, in one transaction and
decreases it in a second one; what happens in between may leave any counter \<open>y\<close>. If \<open>y\<close> is not
larger than \<open>x\<close>, the second transaction leaves \<open>y - 1\<close> and the worker goes on with its next
round; if it is larger, the transaction leaves \<open>y\<close>, and whatever the workers do from there, this
one goes straight to the third meeting and can only report the violation of consistency,
isolation or atomicity.\<close>

theorem check_detects:
  assumes "tl (b_tm b) = ref_library code" and "c_place w i = Fetching_last (Suc m)"
    and "ref_rests W loc (j + 3) V (c_session w)" and "aw V (start_addr (b_tm b)) = Some x"
    and "check_turn b n i w = Some w1" and "c_place w2 i = c_place w1 i"
    and "ref_rests W loc (k + 4) V2 (c_session w2)" and "aw V2 (start_addr (b_tm b)) = Some y"
  shows "\<exists>w3 V3. check_turn b n i w2 = Some w3 \<and> ref_rests W loc k V3 (c_session w3) \<and>
    (if y \<le> x then c_place w3 i = loop_at m \<and> aw V3 (start_addr (b_tm b)) = Some (y - 1)
     else aw V3 (start_addr (b_tm b)) = Some y \<and>
       (\<forall>is w4. check_turns b n is w3 = Some w4 \<longrightarrow>
          c_place w4 i \<in> {Meeting 3 (Some ViolatedConsistencyIsolationOrAtomicity), Over (Some ViolatedConsistencyIsolationOrAtomicity)}))"
proof -
  have "ref_stm.resting loc W (Suc (Suc (Suc j))) V (c_session w)" using assms(3) by (simp add: ref_resting numeral_eq_Suc)
  from ref_stm.counter_read_once [OF this assms(1,4)]
  have "c_place w1 i = Decreasing (Suc m) x"
    using assms(2,5) by (auto simp: check_turn_def conclude_def Let_def)
  then have d: "check_turn b n i w2 =
      conclude i (\<lambda>correct. if \<not> correct then Meeting 3 (Some ViolatedConsistencyIsolationOrAtomicity) else loop_at m)
        (transactional (b_tm b) False (decrease b x) (c_session w2)) w2"
    using assms(6) by (simp add: check_turn_def Let_def cong: if_cong)
  have r: "ref_stm.resting loc W (Suc (Suc (Suc (Suc k)))) V2 (c_session w2)"
    using assms(7) by (simp add: ref_resting numeral_eq_Suc)
  show ?thesis
  proof (cases "y \<le> x")
    case True
    obtain s' where s': "transactional (b_tm b) False (decrease b x) (c_session w2) = Some (Inr True, s')"
        "ref_rests W loc k (am_write (start_addr (b_tm b)) (y - 1) V2) s'"
      using ref_stm.decrease_once [OF r assms(1,8) True] unfolding ref_resting by blast
    have "aw (am_write (start_addr (b_tm b)) (y - 1) V2) (start_addr (b_tm b)) = Some (y - 1)" by (simp add: am_write_def)
    with True s' d show ?thesis by (auto simp: conclude_def)
  next
    case False
    then have less: "x < y" by simp
    obtain s' where s': "transactional (b_tm b) False (decrease b x) (c_session w2) = Some (Inr False, s')"
        "ref_rests W loc k V2 s'"
      using ref_stm.decrease_refused [OF r assms(1,8) less] unfolding ref_resting by blast
    let ?w = "w2\<lparr>c_session := s', c_place := (c_place w2)(i := Meeting 3 (Some ViolatedConsistencyIsolationOrAtomicity))\<rparr>"
    have t: "check_turn b n i w2 = Some ?w" using d s'(1) by (simp add: conclude_def)
    have "c_place ?w i \<in> {Meeting 3 (Some ViolatedConsistencyIsolationOrAtomicity), Over (Some ViolatedConsistencyIsolationOrAtomicity)}"
      by simp
    from reported_turns [OF _ this] have "\<forall>is w4. check_turns b n is ?w = Some w4 \<longrightarrow>
        c_place w4 i \<in> {Meeting 3 (Some ViolatedConsistencyIsolationOrAtomicity), Over (Some ViolatedConsistencyIsolationOrAtomicity)}"
      by blast
    with False t s'(2) assms(8) show ?thesis by (intro exI [of _ ?w] exI [of _ V2]) simp
  qed
qed

text \<open>Between the two transactions of worker 1, worker 0 writes the counter again.\<close>

theorem check_detects_witness:
  "\<exists>(w2 :: (ref_region, unit) crew) w3. check_turn two_workers 2 1 w2 = Some w3 \<and>
     (\<forall>is w4. check_turns two_workers 2 is w3 = Some w4 \<longrightarrow> c_place w4 1 \<in>
        {Meeting 3 (Some ViolatedConsistencyIsolationOrAtomicity), Over (Some ViolatedConsistencyIsolationOrAtomicity)})"
proof -
  let ?p = "start_addr (b_tm two_workers)"
  obtain s :: "(ref_region, unit) session" where s: "ref_rests 8 8 16 (filled 1024 2 100 2) s"
    using reference_sample [of 16 "()"] by auto
  have known: "aw (filled 1024 2 100 2) ?p \<noteq> None" using sample_counter by (simp add: two_workers_sel)
  have "ref_stm.resting 8 8 (Suc (Suc (Suc 13))) (filled 1024 2 100 2) s" using s by (simp add: ref_resting)
  from ref_stm.counter_write_once [OF this two_workers_sel(1) known, of 5]
  obtain s1 :: "(ref_region, unit) session" where s1: "ref_rests 8 8 13 (am_write ?p 5 (filled 1024 2 100 2)) s1" unfolding ref_resting by blast
  define V where "V = am_write ?p 5 (filled 1024 2 100 2)"
  have V: "aw V ?p = Some 5" by (simp add: V_def am_write_def)
  define w :: "(ref_region, unit) crew" where
    "w = \<lparr>c_session = s1, c_place = (\<lambda>i. if i = 0 then Writing else Fetching_last 100)\<rparr>"
  have w: "c_place w 1 = Fetching_last (Suc 99)" "ref_rests 8 8 (10 + 3) V (c_session w)"
    using s1 by (simp_all add: w_def V_def)
  have "ref_stm.resting 8 8 (Suc (Suc (Suc 10))) V (c_session w)" using w(2) by (simp add: ref_resting)
  from ref_stm.counter_read_once [OF this two_workers_sel(1) V]
  obtain s2 where s2: "transactional (b_tm two_workers) True (read_counter two_workers) (c_session w) = Some (Inr 5, s2)"
      "ref_rests 8 8 10 V s2" unfolding ref_resting by blast
  define w1 where "w1 = w\<lparr>c_session := s2, c_place := (c_place w)(1 := Decreasing 100 5)\<rparr>"
  have t1: "check_turn two_workers 2 1 w = Some w1" using w(1) s2(1) by (simp add: check_turn_def conclude_def Let_def w1_def)
  have "ref_stm.resting 8 8 (Suc (Suc (Suc 7))) V (c_session w1)" using s2(2) by (simp add: ref_resting w1_def)
  from ref_stm.counter_write_once [OF this two_workers_sel(1), of 200] V
  obtain u s3 where s3: "transactional (b_tm two_workers) False (write_counter two_workers 200) (c_session w1) = Some (Inr u, s3)"
      "ref_rests 8 8 7 (am_write ?p 200 V) s3" unfolding ref_resting by auto
  define w2 where "w2 = w1\<lparr>c_session := s3, c_place := (c_place w1)(0 := Verifying)\<rparr>"
  have w2: "c_place w2 1 = c_place w1 1" "ref_rests 8 8 (3 + 4) (am_write ?p 200 V) (c_session w2)"
      "aw (am_write ?p 200 V) ?p = Some 200"
    using s3(2) by (simp_all add: w2_def am_write_def)
  show ?thesis using check_detects [OF two_workers_sel(1) w V t1 w2] by auto
qed

section \<open>Many workers\<close>

text \<open>
  No violation so far: the places worker \<open>i\<close> may be in, and what remains of its loop. A worker that
  has passed the barrier \<open>k\<close> times has been there when all had called it that often.
\<close>

primrec fine :: "nat \<Rightarrow> check_place \<Rightarrow> bool" where
  "fine i (Meeting k r) \<longleftrightarrow> k \<in> {1, 2, 3} \<and> r = None"
| "fine i Writing \<longleftrightarrow> i = 0"
| "fine i Verifying \<longleftrightarrow> i = 0"
| "fine i (Fetching_last m) \<longleftrightarrow> 0 < m \<and> m \<le> check_tx"
| "fine i (Decreasing m v) \<longleftrightarrow> 0 < m \<and> m \<le> check_tx"
| "fine i Closing_read \<longleftrightarrow> i = 0"
| "fine i (Over r) \<longleftrightarrow> r = None"
| "fine i (Raised k e) \<longleftrightarrow> False"

primrec to_do :: "check_place \<Rightarrow> nat" where
  "to_do (Meeting k r) = (if k \<le> 2 then check_tx else 0)"
| "to_do Writing = check_tx"
| "to_do Verifying = check_tx"
| "to_do (Fetching_last m) = m"
| "to_do (Decreasing m v) = m"
| "to_do Closing_read = 0"
| "to_do (Over r) = 0"
| "to_do (Raised k e) = 0"

definition due :: "nat \<Rightarrow> (nat \<Rightarrow> check_place) \<Rightarrow> nat" where
  "due n pl = (\<Sum>i < n. to_do (pl i))"

definition places_ok :: "nat \<Rightarrow> (nat \<Rightarrow> check_place) \<Rightarrow> bool" where
  "places_ok n pl \<longleftrightarrow> (\<forall>i < n. fine i (pl i)) \<and> (\<forall>i < n. \<forall>j < n. passed (pl i) \<le> calls (pl j))"

text \<open>
  Once the first worker has written the counter, it is the number of decreases that remain; what a
  worker has read is not below it.
\<close>

definition counter_ok :: "nat \<Rightarrow> csize option \<Rightarrow> (nat \<Rightarrow> check_place) \<Rightarrow> bool" where
  "counter_ok n v pl \<longleftrightarrow>
     (pl 0 \<notin> {Meeting 1 None, Writing} \<longrightarrow> v = Some (word_of_nat (due n pl))) \<and>
     (\<forall>i < n. \<forall>m x. pl i = Decreasing m x \<longrightarrow> due n pl \<le> unat x)"

lemma to_do_le: "fine i p \<Longrightarrow> to_do p \<le> check_tx"
  by (cases p) auto

lemma due_le:
  assumes "places_ok n pl"
  shows "due n pl \<le> check_tx * n"
proof -
  have "to_do (pl i) \<le> check_tx" if "i < n" for i
    using assms that unfolding places_ok_def by (blast intro: to_do_le)
  then show ?thesis using sum_bounded_above [of "{..<n}" "\<lambda>i. to_do (pl i)" check_tx] by (simp add: due_def mult.commute)
qed

lemma due_upd: "i < n \<Longrightarrow> due n (pl(i := p)) + to_do (pl i) = due n pl + to_do p"
  unfolding due_def by (subst (1 2) sum.remove [of _ i]) (auto intro!: sum.cong)

lemma to_do_due: "i < n \<Longrightarrow> to_do (pl i) \<le> due n pl"
  unfolding due_def by (rule member_le_sum) auto

text \<open>Whether a turn of worker \<open>i\<close> takes it on, and where it then is, when \<open>v\<close> is the counter.\<close>

definition moves :: "nat \<Rightarrow> (nat \<Rightarrow> check_place) \<Rightarrow> nat \<Rightarrow> bool" where
  "moves n pl i \<longleftrightarrow> (case pl i of Meeting k r \<Rightarrow> \<forall>j < n. k \<le> calls (pl j) | Over r \<Rightarrow> False | Raised k e \<Rightarrow> False | _ \<Rightarrow> True)"

definition next_place :: "nat \<Rightarrow> csize \<Rightarrow> check_place \<Rightarrow> check_place" where
  "next_place i v p =
     (case p of
        Meeting k r \<Rightarrow> after_meeting i k r
      | Writing \<Rightarrow> Verifying
      | Verifying \<Rightarrow> Meeting 2 None
      | Fetching_last m \<Rightarrow> Decreasing m v
      | Decreasing m x \<Rightarrow> loop_at (m - 1)
      | Closing_read \<Rightarrow> Over None
      | _ \<Rightarrow> p)"

lemmas next_defs = next_place_def after_meeting_def loop_at_def

lemma next_fine: "fine i p \<Longrightarrow> fine i (next_place i v p)"
  by (cases p) (auto simp: next_defs check_tx_def)

lemma next_passed:
  assumes "fine i (pl i)" "moves n pl i" "j < n"
  shows "passed (next_place i v (pl i)) = passed (pl i) \<or> passed (next_place i v (pl i)) \<le> calls (pl j)"
  using assms by (cases "pl i") (auto simp: next_defs moves_def)

lemma next_calls:
  "fine i p \<Longrightarrow> calls p \<le> calls (next_place i v p) \<and> passed (next_place i v p) \<le> calls (next_place i v p)"
  by (cases p) (auto simp: next_defs)

lemma next_places_ok:
  assumes "places_ok n pl" "i < n" "moves n pl i"
  shows "places_ok n (pl(i := next_place i v (pl i)))"
proof -
  have f: "fine j (pl j)" if "j < n" for j using assms(1) that by (simp add: places_ok_def)
  have le: "passed (pl j) \<le> calls (pl k)" if "j < n" "k < n" for j k using assms(1) that by (simp add: places_ok_def)
  have "passed ((pl(i := next_place i v (pl i))) j) \<le> calls ((pl(i := next_place i v (pl i))) k)" if "j < n" "k < n" for j k
    using next_passed [where v = v, OF f [OF assms(2)] assms(3) that(2)] next_calls [OF f [OF assms(2)], of v] le [OF that] le [OF assms(2) that(2)]
      le [OF that(1) assms(2)] by (auto intro: order_trans)
  then show ?thesis using f next_fine [OF f [OF assms(2)], of v] by (simp add: places_ok_def)
qed

text \<open>Every turn that takes a worker on brings it closer to its end.\<close>

primrec distance :: "check_place \<Rightarrow> nat" where
  "distance (Meeting k r) = (if k = 1 then 2 * check_tx + 6 else if k = 2 then 2 * check_tx + 3 else 2)"
| "distance Writing = 2 * check_tx + 5"
| "distance Verifying = 2 * check_tx + 4"
| "distance (Fetching_last m) = 2 * m + 2"
| "distance (Decreasing m v) = 2 * m + 1"
| "distance Closing_read = 1"
| "distance (Over r) = 0"
| "distance (Raised k e) = 0"

lemma next_distance:
  assumes "fine i (pl i)" "moves n pl i"
  shows "distance (next_place i v (pl i)) < distance (pl i)"
  using assms by (cases "pl i") (auto simp: next_defs moves_def)

definition crew_distance :: "nat \<Rightarrow> (nat \<Rightarrow> check_place) \<Rightarrow> nat" where
  "crew_distance n pl = (\<Sum>i < n. distance (pl i))"

lemma crew_distance_less:
  assumes "i < n" "distance p < distance (pl i)"
  shows "crew_distance n (pl(i := p)) < crew_distance n pl"
  unfolding crew_distance_def by (rule sum_strict_mono_ex1) (use assms in auto)

text \<open>While somebody is not through, somebody can go on: one who has met the others least often.\<close>

lemma someone_moves:
  assumes "places_ok n pl" "i < n" "\<forall>r. pl i \<noteq> Over r"
  shows "\<exists>j < n. moves n pl j"
proof (cases "\<exists>j < n. moves n pl j \<and> (\<forall>k r. pl j \<noteq> Meeting k r)")
  case False
  have f: "fine j (pl j)" if "j < n" for j using assms(1) that by (simp add: places_ok_def)
  have m: "(\<exists>k. pl j = Meeting k None \<and> k \<le> 3) \<or> pl j = Over None" if j: "j < n" for j
  proof -
    have "\<not> moves n pl j \<or> (\<exists>k r. pl j = Meeting k r)" using False j by blast
    then show ?thesis using f [OF j] by (cases "pl j") (auto simp: moves_def)
  qed
  define c where "c = (\<lambda>j. calls (pl j))"
  obtain j where j: "j < n" "\<And>k. k < n \<Longrightarrow> c j \<le> c k" using arg_min_nat_lemma [of "\<lambda>j. j < n" i c] assms(2) by blast
  obtain k where k: "pl i = Meeting k None" using m [OF assms(2)] assms(3) by auto
  show ?thesis
  proof (cases "pl j")
    case (Meeting q r)
    then have "\<forall>l < n. q \<le> calls (pl l)" using j(2) by (auto simp: c_def)
    then show ?thesis using Meeting j(1) by (auto simp: moves_def)
  next
    case (Over r)
    then have "\<forall>l < n. k \<le> calls (pl l)" using j(2) m [OF assms(2)] k by (fastforce simp: c_def)
    then show ?thesis using k assms(2) by (auto simp: moves_def)
  qed (use m [OF j(1)] in auto)
qed blast

text \<open>The counter after a turn.\<close>

definition next_counter :: "nat \<Rightarrow> csize option \<Rightarrow> check_place \<Rightarrow> csize option" where
  "next_counter n v p = (case p of
     Writing \<Rightarrow> Some (word_of_nat (check_tx * n)) | Decreasing m x \<Rightarrow> map_option (\<lambda>c. c - 1) v | _ \<Rightarrow> v)"

lemma counting_started:
  assumes "places_ok n pl" "i < n" "2 \<le> passed (pl i)"
  shows "pl 0 \<notin> {Meeting 1 None, Writing}"
proof -
  have "passed (pl i) \<le> calls (pl 0)" using assms(1,2) by (simp add: places_ok_def)
  with assms(3) show ?thesis by auto
qed

lemma nothing_done:
  assumes "places_ok n pl" "0 < n" "calls (pl 0) = 1"
  shows "due n pl = check_tx * n" and "\<And>j m x. j < n \<Longrightarrow> pl j \<noteq> Decreasing m x"
proof -
  have p: "fine j (pl j) \<and> passed (pl j) \<le> 1" if "j < n" for j
    using assms that unfolding places_ok_def by metis
  then show "\<And>j m x. j < n \<Longrightarrow> pl j \<noteq> Decreasing m x" by fastforce
  have "to_do (pl j) = check_tx" if "j < n" for j using p [OF that] by (cases "pl j") auto
  then show "due n pl = check_tx * n" by (simp add: due_def)
qed

lemma all_done:
  assumes "places_ok n pl" "i < n" "passed (pl i) = 3"
  shows "due n pl = 0"
proof -
  have p: "fine j (pl j) \<and> 3 \<le> calls (pl j)" if "j < n" for j
    using assms that unfolding places_ok_def by metis
  have "to_do (pl j) = 0" if "j < n" for j using p [OF that] by (cases "pl j") auto
  then show ?thesis by (simp add: due_def)
qed

lemma due_same: "i < n \<Longrightarrow> to_do p = to_do (pl i) \<Longrightarrow> due n (pl(i := p)) = due n pl"
  using due_upd [of i n pl p] by simp

lemma counter_same:
  assumes "counter_ok n v pl" "i < n" "to_do p = to_do (pl i)" "\<And>m x. p \<noteq> Decreasing m x"
    and "i = 0 \<Longrightarrow> p \<notin> {Meeting 1 None, Writing} \<Longrightarrow> pl 0 \<notin> {Meeting 1 None, Writing}"
  shows "counter_ok n v (pl(i := p))"
  using assms due_same [of i n p pl] by (auto simp: counter_ok_def)

lemma next_counter_ok:
  assumes ok: "places_ok n pl" and c: "counter_ok n v pl" and i: "i < n" and m: "moves n pl i" and b: "check_tx * n < 2 ^ 64"
  shows "counter_ok n (next_counter n v (pl i)) (pl(i := next_place i (the v) (pl i)))"
proof (cases "pl i")
  case (Meeting k r)
  have f: "k \<in> {1, 2, 3}" "r = None" using ok i Meeting by (force simp: places_ok_def)+
  then show ?thesis using c i Meeting
    by (auto simp: next_counter_def next_defs check_tx_def intro!: counter_same split: if_splits)
next
  case Writing
  then have "i = 0" using ok i by (force simp: places_ok_def)
  then show ?thesis using nothing_done [OF ok] Writing i due_same [of 0 n Verifying pl]
    by (auto simp: counter_ok_def next_counter_def next_place_def)
next
  case (Fetching_last q)
  have p0: "pl 0 \<notin> {Meeting 1 None, Writing}" by (rule counting_started [OF ok i]) (simp add: Fetching_last)
  then have v: "v = Some (word_of_nat (due n pl))" using c by (simp add: counter_ok_def)
  have "due n (pl(i := Decreasing q (the v))) = due n pl" using due_same [OF i] Fetching_last by simp
  moreover have "unat (word_of_nat (due n pl) :: csize) = due n pl"
    using unat_small [of "due n pl"] due_le [OF ok] b by simp
  ultimately show ?thesis using c v p0 Fetching_last by (auto simp: counter_ok_def next_counter_def next_place_def)
next
  case (Decreasing q x)
  have p0: "pl 0 \<notin> {Meeting 1 None, Writing}" by (rule counting_started [OF ok i]) (simp add: Decreasing)
  then have v: "v = Some (word_of_nat (due n pl))" using c by (simp add: counter_ok_def)
  have q: "0 < q" "q \<le> check_tx" using ok i Decreasing by (force simp: places_ok_def)+
  have d: "due n pl = Suc (due n (pl(i := loop_at (q - 1))))"
    using due_upd [OF i, of pl "loop_at (q - 1)"] Decreasing q by (simp add: loop_at_def split: if_splits)
  have "v' = Some (word_of_nat (due n (pl(i := loop_at (q - 1)))))" if "v' = map_option (\<lambda>c. c - 1) v" for v'
    using that v d by simp
  moreover have "loop_at (q - 1) \<noteq> Decreasing a y" for a y by (simp add: loop_at_def)
  ultimately show ?thesis using c d Decreasing
    by (fastforce simp: counter_ok_def next_counter_def next_place_def)
next
  case (Over r)
  then show ?thesis using m by (simp add: moves_def)
next
  case (Raised k e)
  then show ?thesis using m by (simp add: moves_def)
qed (use c i in \<open>auto simp: next_counter_def next_place_def check_tx_def intro!: counter_same\<close>)

section \<open>Over a library that never aborts\<close>

context reliable_stm
begin

text \<open>One turn does what \<open>next_place\<close> and \<open>next_counter\<close> say.\<close>

lemma crew_turn:
  assumes rest: "resting (k + 4) V (c_session w)" and L: "tl (b_tm b) = L" and a: "aw V (start_addr (b_tm b)) \<noteq> None"
    and n: "nbworkers b = word_of_nat n" and ok: "places_ok n (c_place w)"
    and c: "counter_ok n (aw V (start_addr (b_tm b))) (c_place w)" and i: "i < n" and m: "moves n (c_place w) i"
  shows "\<exists>w' V'. check_turn b n i w = Some w' \<and> resting k V' (c_session w') \<and>
    c_place w' = (c_place w)(i := next_place i (the (aw V (start_addr (b_tm b)))) (c_place w i)) \<and>
    aw V' (start_addr (b_tm b)) = next_counter n (aw V (start_addr (b_tm b))) (c_place w i)"
proof -
  let ?p = "start_addr (b_tm b)" and ?pl = "c_place w"
  have rest3: "resting (Suc (Suc (Suc k))) V (c_session w)" and rest4: "resting (Suc (Suc (Suc (Suc k)))) V (c_session w)"
    by (rule resting_le [OF rest], simp)+
  obtain x where x: "aw V ?p = Some x" using a by blast
  have init: "word_of_nat check_tx * nbworkers b = word_of_nat (check_tx * n)" using n by simp
  have f: "fine i (?pl i)" using ok i by (simp add: places_ok_def)
  show ?thesis
  proof (cases "?pl i")
    case (Meeting q r)
    then have "check_turn b n i w = Some (w\<lparr>c_place := ?pl(i := after_meeting i q r)\<rparr>)"
      using m by (auto simp: check_turn_def Let_def moves_def)
    then show ?thesis using resting_le [OF rest, of k] Meeting
      by (intro exI [of _ "w\<lparr>c_place := ?pl(i := after_meeting i q r)\<rparr>"] exI [of _ V]) (simp add: next_place_def next_counter_def)
  next
    case Writing
    from counter_write_once [OF rest3 L a, of "word_of_nat (check_tx * n)"]
    obtain u s' where s': "transactional (b_tm b) False (write_counter b (word_of_nat (check_tx * n))) (c_session w) = Some (Inr u, s')"
      "resting k (am_write ?p (word_of_nat (check_tx * n)) V) s'" by blast
    then have "check_turn b n i w = Some (w\<lparr>c_session := s', c_place := ?pl(i := Verifying)\<rparr>)"
      using Writing init by (simp add: check_turn_def conclude_def)
    with s' Writing show ?thesis
      by (auto simp: next_place_def next_counter_def am_write_def)
  next
    case Verifying
    then have i0: "i = 0" using f by simp
    have "x = word_of_nat (check_tx * n)"
      using c x Verifying i0 nothing_done(1) [OF ok] i by (simp add: counter_ok_def)
    with counter_is_once [OF rest3 L x, of "word_of_nat (check_tx * n)"]
    obtain s' where s': "transactional (b_tm b) True (counter_is b (word_of_nat (check_tx * n))) (c_session w) = Some (Inr True, s')"
      "resting k V s'" by auto
    then have "check_turn b n i w = Some (w\<lparr>c_session := s', c_place := ?pl(i := Meeting 2 None)\<rparr>)"
      using Verifying init by (simp add: check_turn_def conclude_def)
    with s' Verifying show ?thesis by (auto simp: next_place_def next_counter_def)
  next
    case (Fetching_last q)
    from counter_read_once [OF rest3 L x]
    obtain s' where s': "transactional (b_tm b) True (read_counter b) (c_session w) = Some (Inr x, s')" "resting k V s'" by blast
    then have "check_turn b n i w = Some (w\<lparr>c_session := s', c_place := ?pl(i := Decreasing q x)\<rparr>)"
      using Fetching_last by (simp add: check_turn_def conclude_def)
    with s' Fetching_last x show ?thesis by (auto simp: next_place_def next_counter_def)
  next
    case (Decreasing q y)
    have "?pl 0 \<notin> {Meeting 1 None, Writing}" by (rule counting_started [OF ok i]) (simp add: Decreasing)
    then have "x = word_of_nat (due n ?pl)" "due n ?pl \<le> unat y" using c x i Decreasing by (auto simp: counter_ok_def)
    then have "x \<le> y"
      using unat_small [of "due n ?pl"] unsigned_less [of y, where 'a = nat] by (simp add: word_le_nat_alt)
    from decrease_once [OF rest4 L x this]
    obtain s' where s': "transactional (b_tm b) False (decrease b y) (c_session w) = Some (Inr True, s')"
      "resting k (am_write ?p (x - 1) V) s'" by blast
    then have "check_turn b n i w = Some (w\<lparr>c_session := s', c_place := ?pl(i := loop_at (q - 1))\<rparr>)"
      using Decreasing by (simp add: check_turn_def conclude_def)
    with s' Decreasing x show ?thesis by (auto simp: next_place_def next_counter_def am_write_def)
  next
    case Closing_read
    have "x = 0"
      using c x counting_started [OF ok i] all_done [OF ok i] Closing_read by (simp add: counter_ok_def)
    with counter_is_once [OF rest3 L x, of 0]
    obtain s' where s': "transactional (b_tm b) True (counter_is b 0) (c_session w) = Some (Inr True, s')" "resting k V s'" by auto
    then have "check_turn b n i w = Some (w\<lparr>c_session := s', c_place := ?pl(i := Over None)\<rparr>)"
      using Closing_read by (simp add: check_turn_def conclude_def)
    with s' Closing_read show ?thesis by (auto simp: next_place_def next_counter_def)
  qed (use m in \<open>simp_all add: moves_def\<close>)
qed

text \<open>A turn of a worker that waits, or is through, changes nothing.\<close>

lemma crew_blocked:
  assumes "places_ok n (c_place w)" "i < n" "\<not> moves n (c_place w) i"
  shows "check_turn b n i w = Some w"
proof -
  have "fine i (c_place w i)" using assms by (simp add: places_ok_def)
  then show ?thesis using assms(3) by (cases "c_place w i") (auto simp: check_turn_def Let_def moves_def)
qed

definition crew_ok :: "'r bank \<Rightarrow> nat \<Rightarrow> nat \<Rightarrow> ('r, 'e) crew \<Rightarrow> amem \<Rightarrow> bool" where
  "crew_ok b n k w V \<longleftrightarrow> resting k V (c_session w) \<and> aw V (start_addr (b_tm b)) \<noteq> None \<and> places_ok n (c_place w) \<and>
     counter_ok n (aw V (start_addr (b_tm b))) (c_place w)"

lemma turn_ok:
  assumes ok: "crew_ok b n (k + 4) w V" and L: "tl (b_tm b) = L" and n: "nbworkers b = word_of_nat n" "check_tx * n < 2 ^ 64"
    and i: "i < n"
  shows "\<exists>w' V'. check_turn b n i w = Some w' \<and> crew_ok b n k w' V' \<and>
    (if moves n (c_place w) i then crew_distance n (c_place w') < crew_distance n (c_place w) \<and> c_place w' i \<noteq> c_place w i
     else c_place w' = c_place w)"
proof -
  note o = ok [unfolded crew_ok_def]
  show ?thesis
  proof (cases "moves n (c_place w) i")
    case True
    obtain w' V' where w': "check_turn b n i w = Some w'" "resting k V' (c_session w')"
      "c_place w' = (c_place w)(i := next_place i (the (aw V (start_addr (b_tm b)))) (c_place w i))"
      "aw V' (start_addr (b_tm b)) = next_counter n (aw V (start_addr (b_tm b))) (c_place w i)"
      using crew_turn [OF _ L _ n(1) _ _ i True, of k V] o by blast
    have f: "fine i (c_place w i)" using o i by (simp add: places_ok_def)
    note d = next_distance [OF f True, of "the (aw V (start_addr (b_tm b)))"]
    have "crew_ok b n k w' V'"
      unfolding crew_ok_def w'(3,4)
      using w'(2) o next_places_ok [OF _ i True] next_counter_ok [OF _ _ i True n(2)]
      by (auto simp: next_counter_def split: check_place.splits)
    moreover have "crew_distance n (c_place w') < crew_distance n (c_place w)" "c_place w' i \<noteq> c_place w i"
      using crew_distance_less [where pl = "c_place w", OF i d] d unfolding w'(3) by auto
    ultimately show ?thesis using w'(1) True by auto
  next
    case False
    have "resting k V (c_session w)" by (rule resting_le [where n = "k + 4"]) (use o in simp_all)
    then have "crew_ok b n k w V" using o by (simp add: crew_ok_def)
    then show ?thesis using crew_blocked [OF _ i False] o False by auto
  qed
qed

text \<open>A schedule; if one of those that take part could move at the start, the crew gets on.\<close>

lemma turns_ok:
  assumes "crew_ok b n (k + 4 * length is) w V" and "tl (b_tm b) = L" and "nbworkers b = word_of_nat n" "check_tx * n < 2 ^ 64"
    and "set is \<subseteq> {..<n}"
  shows "\<exists>w' V'. check_turns b n is w = Some w' \<and> crew_ok b n k w' V' \<and>
    crew_distance n (c_place w') \<le> crew_distance n (c_place w) \<and>
    ((\<exists>j \<in> set is. moves n (c_place w) j) \<longrightarrow> crew_distance n (c_place w') < crew_distance n (c_place w))"
  using assms(1,5)
proof (induction "is" arbitrary: w V)
  case Nil
  then show ?case by auto
next
  case (Cons i "is")
  have ok: "crew_ok b n (k + 4 * length is + 4) w V" using Cons.prems(1) by (simp add: add.commute add.left_commute)
  have "i < n" using Cons.prems(2) by simp
  from turn_ok [OF ok assms(2-4) this] obtain w1 V1 where 1: "check_turn b n i w = Some w1" "crew_ok b n (k + 4 * length is) w1 V1"
    "if moves n (c_place w) i then crew_distance n (c_place w1) < crew_distance n (c_place w) \<and> c_place w1 i \<noteq> c_place w i
     else c_place w1 = c_place w" by blast
  have "set is \<subseteq> {..<n}" using Cons.prems(2) by simp
  from Cons.IH [OF 1(2) this] obtain w2 V2 where 2: "check_turns b n is w1 = Some w2" "crew_ok b n k w2 V2"
    "crew_distance n (c_place w2) \<le> crew_distance n (c_place w1)"
    "(\<exists>j \<in> set is. moves n (c_place w1) j) \<longrightarrow> crew_distance n (c_place w2) < crew_distance n (c_place w1)" by blast
  have "check_turns b n (i # is) w = Some w2" using 1(1) 2(1) by simp
  moreover have "crew_distance n (c_place w2) \<le> crew_distance n (c_place w) \<and>
    ((\<exists>j \<in> set (i # is). moves n (c_place w) j) \<longrightarrow> crew_distance n (c_place w2) < crew_distance n (c_place w))"
  proof (cases "moves n (c_place w) i")
    case True
    then show ?thesis using 1(3) 2(3) by simp
  next
    case False
    then have "c_place w1 = c_place w" using 1(3) by simp
    then show ?thesis using False 2(3,4) by auto
  qed
  ultimately show ?case using 2(2) by blast
qed

text \<open>Rounds in which everybody takes part bring the crew to its end.\<close>

lemma rounds_finish:
  assumes "crew_ok b n (k + 4 * length (concat xss)) w V" and "tl (b_tm b) = L" and "nbworkers b = word_of_nat n" "check_tx * n < 2 ^ 64"
    and "\<forall>xs \<in> set xss. set xs = {..<n}" and "crew_distance n (c_place w) \<le> length xss"
  shows "\<exists>w' V'. check_turns b n (concat xss) w = Some w' \<and> crew_ok b n k w' V' \<and> (\<forall>i < n. c_place w' i = Over None)"
  using assms(1,5,6)
proof (induction xss arbitrary: w V)
  case Nil
  then have d: "distance (c_place w i) = 0" if "i < n" for i using that by (simp add: crew_distance_def)
  have "fine i (c_place w i)" if "i < n" for i using Nil.prems(1) that by (simp add: crew_ok_def places_ok_def)
  then have "c_place w i = Over None" if "i < n" for i using d [OF that] that by (cases "c_place w i") (fastforce split: if_splits)+
  then show ?case using Nil.prems(1) by auto
next
  case (Cons xs xss)
  have "crew_ok b n (k + 4 * length (concat xss) + 4 * length xs) w V"
    using Cons.prems(1) by (simp add: algebra_simps)
  moreover have xs: "set xs = {..<n}" using Cons.prems(2) by simp
  ultimately obtain w1 V1 where 1: "check_turns b n xs w = Some w1" "crew_ok b n (k + 4 * length (concat xss)) w1 V1"
    "crew_distance n (c_place w1) \<le> crew_distance n (c_place w)"
    "(\<exists>j \<in> set xs. moves n (c_place w) j) \<longrightarrow> crew_distance n (c_place w1) < crew_distance n (c_place w)"
    using turns_ok [OF _ assms(2-4), of "k + 4 * length (concat xss)" xs w V] by blast
  have ok: "places_ok n (c_place w)" using Cons.prems(1) by (simp add: crew_ok_def)
  have "crew_distance n (c_place w1) \<le> length xss"
  proof (cases "\<exists>i < n. \<forall>r. c_place w i \<noteq> Over r")
    case True
    then obtain j where "j < n" "moves n (c_place w) j" using someone_moves [OF ok] by blast
    then have "crew_distance n (c_place w1) < crew_distance n (c_place w)" using 1(4) xs by blast
    then show ?thesis using Cons.prems(3) by simp
  next
    case False
    then have "distance (c_place w i) = 0" if "i < n" for i using that by fastforce
    then have "crew_distance n (c_place w) = 0" by (simp add: crew_distance_def)
    then show ?thesis using 1(3) by simp
  qed
  moreover have "\<forall>ys \<in> set xss. set ys = {..<n}" using Cons.prems(2) by simp
  ultimately show ?case using Cons.IH [OF 1(2)] 1(1) by (auto simp: check_turns_append)
qed

end

section \<open>The workers on the reference\<close>

lemma crew_new_ok:
  assumes "ref_rests W loc k V s" "aw V (start_addr (b_tm b)) \<noteq> None"
  shows "ref_stm.crew_ok loc W b n k (crew_new s) V"
  using assms by (simp add: ref_stm.crew_ok_def ref_resting crew_new_def places_ok_def counter_ok_def)

text \<open>C21: However the workers of a check take turns on the reference, no violation is reported and nothing
is thrown; and as long as not all of them are through, some worker can go on, so they never wait for each other
forever.\<close>

theorem check_workers_safe:
  fixes s :: "(ref_region, 'e) session"
  assumes "ref_rests W loc (4 + 4 * length sched) V s" and "tl (b_tm b) = ref_library code"
    and "aw V (start_addr (b_tm b)) \<noteq> None" and "nbworkers b = word_of_nat n" and "check_tx * n < 2 ^ 64" and "set sched \<subseteq> {..<n}"
  shows "\<exists>w. check_turns b n sched (crew_new s) = Some w \<and>
    (\<forall>i < n. (\<forall>e. c_place w i \<noteq> Over (Some e)) \<and> (\<forall>k e. c_place w i \<noteq> Raised k e)) \<and>
    ((\<forall>i < n. c_place w i = Over None) \<or> (\<exists>i < n. \<exists>w'. check_turn b n i w = Some w' \<and> c_place w' i \<noteq> c_place w i))"
proof -
  note new = crew_new_ok [where n = n, OF assms(1,3)]
  obtain w V' where w: "check_turns b n sched (crew_new s) = Some w" "ref_stm.crew_ok loc W b n (0 + 4) w V'"
    using ref_stm.turns_ok [OF new assms(2,4,5,6)] by auto
  then have ok: "places_ok n (c_place w)" by (simp add: ref_stm.crew_ok_def)
  then have f: "fine i (c_place w i)" if "i < n" for i using that by (simp add: places_ok_def)
  have "(\<forall>i < n. c_place w i = Over None) \<or> (\<exists>i < n. \<exists>w'. check_turn b n i w = Some w' \<and> c_place w' i \<noteq> c_place w i)"
  proof (cases "\<exists>i < n. \<forall>r. c_place w i \<noteq> Over r")
    case True
    then obtain j where j: "j < n" "moves n (c_place w) j" using someone_moves [OF ok] by blast
    from ref_stm.turn_ok [OF w(2) assms(2,4,5) j(1)] j show ?thesis by auto
  next
    case False
    then show ?thesis using f by fastforce
  qed
  with w(1) f show ?thesis by fastforce
qed

text \<open>C15: On the reference the check of all workers ends, without a violation and with the counter at zero,
in every schedule that lets each worker take its turn again and again: \<open>2 * check_tx + 6\<close> rounds per
worker are enough.\<close>

theorem check_workers_finish:
  fixes s :: "(ref_region, 'e) session"
  assumes "ref_rests W loc (k + 4 * length (concat xss)) V s" and "tl (b_tm b) = ref_library code"
    and "aw V (start_addr (b_tm b)) \<noteq> None" and "nbworkers b = word_of_nat n" and "check_tx * n < 2 ^ 64"
    and "0 < n" and "\<forall>xs \<in> set xss. set xs = {..<n}" and "n * (2 * check_tx + 6) \<le> length xss"
  shows "\<exists>w V'. check_turns b n (concat xss) (crew_new s) = Some w \<and> (\<forall>i < n. c_place w i = Over None) \<and>
    ref_rests W loc k V' (c_session w) \<and> aw V' (start_addr (b_tm b)) = Some 0"
proof -
  have "crew_distance n (c_place (crew_new s)) \<le> length xss" using assms(8) by (simp add: crew_distance_def crew_new_def)
  from ref_stm.rounds_finish [OF crew_new_ok [OF assms(1,3)] assms(2,4,5,7) this]
  obtain w V' where w: "check_turns b n (concat xss) (crew_new s) = Some w" "ref_stm.crew_ok loc W b n k w V'"
    "\<forall>i < n. c_place w i = Over None" by blast
  then have "aw V' (start_addr (b_tm b)) = Some 0"
    using assms(6) by (auto simp: ref_stm.crew_ok_def counter_ok_def due_def)
  with w show ?thesis by (auto simp: ref_stm.crew_ok_def ref_resting)
qed

lemma check_workers_safe_witness:
  "\<exists>(s :: (ref_region, unit) session) w. check_turns two_workers 2 [0, 1, 0, 1, 0] (crew_new s) = Some w \<and>
     (\<forall>e. c_place w 0 \<noteq> Over (Some e))"
proof -
  obtain s :: "(ref_region, unit) session" where s: "ref_rests 8 8 (4 + 4 * length [0, 1, 0, 1, 0 :: nat]) (filled 1024 2 100 2) s"
    using reference_sample [of 24 "()"] by auto
  have "\<exists>w. check_turns two_workers 2 [0, 1, 0, 1, 0] (crew_new s) = Some w \<and>
    (\<forall>i < 2. (\<forall>e. c_place w i \<noteq> Over (Some e)) \<and> (\<forall>k e. c_place w i \<noteq> Raised k e)) \<and>
    ((\<forall>i < 2. c_place w i = Over None) \<or> (\<exists>i < 2. \<exists>w'. check_turn two_workers 2 i w = Some w' \<and> c_place w' i \<noteq> c_place w i))"
    by (rule check_workers_safe [OF s two_workers_sel(1)])
      (use sample_counter in \<open>simp_all add: two_workers_sel(2,3) check_tx_def\<close>)
  then obtain w where w: "check_turns two_workers 2 [0, 1, 0, 1, 0] (crew_new s) = Some w" "\<forall>i < 2. \<forall>e. c_place w i \<noteq> Over (Some e)" by blast
  from w(2) have "\<forall>e. c_place w 0 \<noteq> Over (Some e)" by simp
  with w(1) show ?thesis by blast
qed

lemma check_workers_finish_witness:
  "\<exists>(s :: (ref_region, unit) session) w V'. check_turns two_workers 2 (concat (replicate 412 [0, 1])) (crew_new s) = Some w \<and>
     (\<forall>i < 2. c_place w i = Over None) \<and> ref_rests 8 8 0 V' (c_session w) \<and> aw V' 1024 = Some 0"
proof -
  have l: "length (concat (replicate 412 [0, 1 :: nat])) = 824"
    by (simp add: length_concat map_replicate sum_list_replicate)
  obtain s :: "(ref_region, unit) session" where s: "ref_rests 8 8 (0 + 4 * length (concat (replicate 412 [0, 1 :: nat]))) (filled 1024 2 100 2) s"
    unfolding l using reference_sample [of 3296 "()"] by auto
  have "\<exists>w V'. check_turns two_workers 2 (concat (replicate 412 [0, 1])) (crew_new s) = Some w \<and> (\<forall>i < 2. c_place w i = Over None) \<and>
    ref_rests 8 8 0 V' (c_session w) \<and> aw V' (start_addr (b_tm two_workers)) = Some 0"
    by (rule check_workers_finish [OF s two_workers_sel(1)])
      (use sample_counter in \<open>auto simp: two_workers_sel(2,3) check_tx_def\<close>)
  then show ?thesis unfolding two_workers_sel(2) by blast
qed

end
