(* ===== verification/Thread_Count.thy ===== *)
theory Thread_Count
  imports Tm_Prelude
begin

text \<open>
  Counting the threads below \<open>n\<close> that are at one of some places, as the invariants of the barrier
  and of the worker synchronisation do to say what their atomic counters hold.
\<close>

definition at :: "nat \<Rightarrow> 'p set \<Rightarrow> (nat \<Rightarrow> 'p) \<Rightarrow> nat set" where
  "at n P f = {j. j < n \<and> f j \<in> P}"

lemma finite_at [simp]: "finite (at n P f)"
  by (simp add: at_def)

lemma at_le: "card (at n P f) \<le> n"
  using card_mono [of "{..<n}" "at n P f"] by (auto simp: at_def)

lemma at_enter: "i < n \<Longrightarrow> f i \<notin> P \<Longrightarrow> p \<in> P \<Longrightarrow> card (at n P (f(i := p))) = Suc (card (at n P f))"
proof -
  assume a: "i < n" "f i \<notin> P" "p \<in> P"
  then have "at n P (f(i := p)) = insert i (at n P f)" by (auto simp: at_def)
  moreover have "i \<notin> at n P f" using a by (simp add: at_def)
  ultimately show ?thesis by simp
qed

lemma at_leave: "i < n \<Longrightarrow> f i \<in> P \<Longrightarrow> p \<notin> P \<Longrightarrow> Suc (card (at n P (f(i := p)))) = card (at n P f)"
proof -
  assume a: "i < n" "f i \<in> P" "p \<notin> P"
  then have "at n P f = insert i (at n P (f(i := p)))" by (auto simp: at_def)
  moreover have "i \<notin> at n P (f(i := p))" using a by (simp add: at_def)
  ultimately show ?thesis by simp
qed

lemma at_stay: "(f i \<in> P) = (p \<in> P) \<Longrightarrow> card (at n P (f(i := p))) = card (at n P f)"
  by (rule arg_cong [where f = card]) (auto simp: at_def)

lemma at_all: "card (at n P f) = n \<Longrightarrow> j < n \<Longrightarrow> f j \<in> P"
proof -
  assume a: "card (at n P f) = n" "j < n"
  have "at n P f = {..<n}"
  proof (rule card_subset_eq)
    show "finite {..<n}" by simp
    show "at n P f \<subseteq> {..<n}" by (auto simp: at_def)
    show "card (at n P f) = card {..<n}" using a(1) by simp
  qed
  with a(2) show ?thesis by (auto simp: at_def)
qed

lemma at_none: "card (at n P f) = 0 \<Longrightarrow> j < n \<Longrightarrow> f j \<notin> P"
  by (auto simp: at_def)

lemma at_missing: "i < n \<Longrightarrow> f i \<notin> P \<Longrightarrow> card (at n P f) < n"
  using at_all [of n P f i] at_le [of n P f] by linarith

lemma at_single: "card (at n P f) = 1 \<Longrightarrow> i < n \<Longrightarrow> f i \<in> P \<Longrightarrow> j < n \<Longrightarrow> f j \<in> P \<Longrightarrow> j = i"
proof -
  assume a: "card (at n P f) = 1" "i < n" "f i \<in> P" "j < n" "f j \<in> P"
  then have "i \<in> at n P f" "j \<in> at n P f" by (auto simp: at_def)
  with a(1) show ?thesis by (auto simp: card_1_singleton_iff)
qed

lemma at_whole: "(\<And>j. j < n \<Longrightarrow> f j \<in> P) \<Longrightarrow> card (at n P f) = n"
proof -
  assume "\<And>j. j < n \<Longrightarrow> f j \<in> P"
  then have "at n P f = {..<n}" by (auto simp: at_def)
  then show ?thesis by simp
qed

lemma at_empty: "(\<And>j. j < n \<Longrightarrow> f j \<notin> P) \<Longrightarrow> card (at n P f) = 0"
  by (auto simp: at_def)

lemma unat_inc: "unat (x :: 'l::len word) < m \<Longrightarrow> m < 2 ^ LENGTH('l) \<Longrightarrow> unat (x + 1) = Suc (unat x)"
  by (simp add: unat_word_ariths(1))

lemma unat_dec: "0 < unat (x :: 'l::len word) \<Longrightarrow> Suc (unat (x - 1)) = unat x"
  by (simp add: unat_sub word_le_nat_alt)

end
