(* ===== verification/Barrier.thy ===== *)
theory Barrier
  imports Thread_Count
begin

text \<open>
  The spin barrier of \<open>grading/common.hpp\<close>: two atomic variables, the number of threads inside
  and the mode, and the code of \<open>sync\<close> cut at its atomic accesses. Any number of threads runs
  it in any order, again and again; how often a thread has begun and ended a call is recorded.
\<close>

section \<open>The barrier\<close>

datatype barrier_mode = Enter | Leave

text \<open>Where a thread is: outside of \<open>sync\<close> or before the next access of it.\<close>

datatype place = Outside | StoreLeave | SpinLeave | Subtract | StoreEnter | SpinEnter

record barrier =
  steps :: "64 word"
  barrier_mode :: barrier_mode
  place :: "nat \<Rightarrow> place"
  begun :: "nat \<Rightarrow> nat"
  ended :: "nat \<Rightarrow> nat"

definition barrier_new :: barrier where
  "barrier_new = \<lparr>steps = 0, barrier_mode = Enter, place = (\<lambda>_. Outside), begun = (\<lambda>_. 0), ended = (\<lambda>_. 0)\<rparr>"

definition moved :: "nat \<Rightarrow> place \<Rightarrow> barrier \<Rightarrow> barrier" where
  "moved i p w = w\<lparr>place := (place w)(i := p)\<rparr>"

definition returned :: "nat \<Rightarrow> barrier \<Rightarrow> barrier" where
  "returned i w = moved i Outside w\<lparr>ended := (ended w)(i := Suc (ended w i))\<rparr>"

text \<open>The next access of thread \<open>i\<close>; a spinning thread that finds the other mode stays.\<close>

definition barrier_sync :: "64 word \<Rightarrow> nat \<Rightarrow> barrier \<Rightarrow> barrier" where
  "barrier_sync cardinal i w =
     (case place w i of
        Outside \<Rightarrow>
          (let old = steps w; w = w\<lparr>steps := old + 1, begun := (begun w)(i := Suc (begun w i))\<rparr> in
           if old + 1 = cardinal then moved i StoreLeave w else moved i SpinLeave w)
      | StoreLeave \<Rightarrow> moved i Subtract (w\<lparr>barrier_mode := Leave\<rparr>)
      | SpinLeave \<Rightarrow> if barrier_mode w \<noteq> Leave then w else moved i Subtract w
      | Subtract \<Rightarrow>
          (let old = steps w; w = w\<lparr>steps := old - 1\<rparr> in
           if old - 1 = 0 then moved i StoreEnter w else moved i SpinEnter w)
      | StoreEnter \<Rightarrow> returned i (w\<lparr>barrier_mode := Enter\<rparr>)
      | SpinEnter \<Rightarrow> if barrier_mode w \<noteq> Enter then w else returned i w)"

primrec barrier_run :: "64 word \<Rightarrow> nat list \<Rightarrow> barrier \<Rightarrow> barrier" where
  "barrier_run cardinal [] w = w"
| "barrier_run cardinal (i # is) w = barrier_run cardinal is (barrier_sync cardinal i w)"

lemma moved_sel [simp]:
  "steps (moved i p w) = steps w" "barrier_mode (moved i p w) = barrier_mode w" "place (moved i p w) = (place w)(i := p)"
  "begun (moved i p w) = begun w" "ended (moved i p w) = ended w"
  by (simp_all add: moved_def)

lemma returned_sel [simp]:
  "steps (returned i w) = steps w" "barrier_mode (returned i w) = barrier_mode w"
  "place (returned i w) = (place w)(i := Outside)" "begun (returned i w) = begun w"
  "ended (returned i w) = (ended w)(i := Suc (ended w i))"
  by (simp_all add: returned_def)

section \<open>The invariant\<close>

text \<open>
  In round \<open>k\<close> the mode is \<open>Enter\<close> until all have come and \<open>Leave\<close> until all have counted
  themselves out; who is last stores the next mode.
\<close>

definition entering :: "nat \<Rightarrow> nat \<Rightarrow> barrier \<Rightarrow> bool" where
  "entering n k w \<longleftrightarrow> barrier_mode w = Enter \<and>
     unat (steps w) = card (at n {StoreLeave, SpinLeave} (place w)) \<and>
     (\<forall>i < n.
        (place w i = Outside \<and> begun w i = k \<and> ended w i = k) \<or>
        (place w i = SpinEnter \<and> begun w i = k \<and> Suc (ended w i) = k) \<or>
        (place w i \<in> {StoreLeave, SpinLeave} \<and> begun w i = Suc k \<and> ended w i = k)) \<and>
     card (at n {StoreLeave} (place w)) = (if unat (steps w) = n then 1 else 0)"

definition leaving :: "nat \<Rightarrow> nat \<Rightarrow> barrier \<Rightarrow> bool" where
  "leaving n k w \<longleftrightarrow> barrier_mode w = Leave \<and>
     unat (steps w) = card (at n {SpinLeave, Subtract} (place w)) \<and>
     (\<forall>i < n. place w i \<in> {SpinLeave, Subtract, StoreEnter, SpinEnter} \<and> begun w i = Suc k \<and> ended w i = k) \<and>
     card (at n {StoreEnter} (place w)) = (if unat (steps w) = 0 then 1 else 0)"

definition barrier_inv :: "nat \<Rightarrow> barrier \<Rightarrow> bool" where
  "barrier_inv n w \<longleftrightarrow> (\<exists>k. entering n k w \<or> leaving n k w)"

lemma barrier_inv_new: "0 < n \<Longrightarrow> barrier_inv n barrier_new"
  by (auto simp: barrier_inv_def entering_def barrier_new_def at_def intro!: exI [of _ 0])

lemmas barrier_access = barrier_sync_def Let_def

lemma enter_step:
  assumes w: "entering (unat c) k w" and i: "i < unat c" "place w i = Outside"
  shows "entering (unat c) k (barrier_sync c i w)"
proof -
  let ?n = "unat c" and ?in = "{StoreLeave, SpinLeave}"
  have s: "unat (steps w) = card (at ?n ?in (place w))" using w by (simp add: entering_def)
  then have less: "unat (steps w) < ?n" using at_missing [of i ?n "place w" ?in] i by simp
  have inc: "unat (steps w + 1) = Suc (unat (steps w))" using unat_inc [OF less] unsigned_less [of c] by simp
  have eq: "(steps w + 1 = c) = (unat (steps w + 1) = ?n)" by (simp add: word_eq_iff_unsigned)
  have n: "card (at ?n ?in ((place w)(i := p))) = Suc (card (at ?n ?in (place w)))" if "p \<in> ?in" for p
    using at_enter [of i ?n "place w" ?in p] i that by simp
  have z: "card (at ?n {StoreLeave} (place w)) = 0" using w less by (simp add: entering_def)
  show ?thesis
  proof (cases "steps w + 1 = c")
    case True
    have "card (at ?n {StoreLeave} ((place w)(i := StoreLeave))) = 1"
      using at_enter [of i ?n "place w" "{StoreLeave}" StoreLeave] i z by simp
    then show ?thesis using w i True s n [of StoreLeave] inc eq by (auto simp: entering_def barrier_access)
  next
    case False
    have "card (at ?n {StoreLeave} ((place w)(i := SpinLeave))) = 0"
      using at_stay [of "place w" i "{StoreLeave}" SpinLeave ?n] i z by simp
    then show ?thesis using w i False s n [of SpinLeave] inc eq by (auto simp: entering_def barrier_access)
  qed
qed

lemma open_step:
  assumes w: "entering n k w" and i: "i < n" "place w i = StoreLeave"
  shows "leaving n k (barrier_sync c i w)"
proof -
  have "i \<in> at n {StoreLeave} (place w)" using i by (simp add: at_def)
  then have one: "card (at n {StoreLeave} (place w)) = 1" and full: "unat (steps w) = n"
    using w unfolding entering_def by (auto split: if_splits)
  have "card (at n {StoreLeave, SpinLeave} (place w)) = n" using w full by (simp add: entering_def)
  then have all: "place w j \<in> {StoreLeave, SpinLeave}" if "j < n" for j using at_all that by blast
  have spin: "place w j = SpinLeave" if "j < n" "j \<noteq> i" for j
    using all [OF that(1)] at_single [OF one i(1) _ that(1)] i that by auto
  have "card (at n {SpinLeave, Subtract} ((place w)(i := Subtract))) = n" by (rule at_whole) (use spin in auto)
  moreover have "card (at n {StoreEnter} ((place w)(i := Subtract))) = 0" by (rule at_empty) (use spin in auto)
  moreover have "begun w j = Suc k \<and> ended w j = k" if "j < n" for j using w all [OF that] that by (auto simp: entering_def)
  ultimately show ?thesis using i full spin by (auto simp: leaving_def barrier_access)
qed

lemma exit_step:
  assumes w: "entering n k w" and i: "i < n" "place w i = SpinEnter"
  shows "entering n k (barrier_sync c i w)"
  using w i at_stay [of "place w" i "{StoreLeave, SpinLeave}" Outside n] at_stay [of "place w" i "{StoreLeave}" Outside n]
  by (auto simp: entering_def barrier_access)

lemma pass_step:
  assumes w: "leaving n k w" and i: "i < n" "place w i = SpinLeave"
  shows "leaving n k (barrier_sync c i w)"
  using w i at_stay [of "place w" i "{SpinLeave, Subtract}" Subtract n] at_stay [of "place w" i "{StoreEnter}" Subtract n]
  by (auto simp: leaving_def barrier_access)

lemma subtract_step:
  assumes w: "leaving n k w" and i: "i < n" "place w i = Subtract"
  shows "leaving n k (barrier_sync c i w)"
proof -
  let ?in = "{SpinLeave, Subtract}"
  have s: "unat (steps w) = card (at n ?in (place w))" using w by (simp add: leaving_def)
  have "i \<in> at n ?in (place w)" using i by (simp add: at_def)
  then have pos: "0 < unat (steps w)" using s by (auto simp: card_gt_0_iff)
  have dec: "Suc (unat (steps w - 1)) = unat (steps w)" by (rule unat_dec [OF pos])
  have eq: "(steps w - 1 = 0) = (unat (steps w - 1) = 0)" by (simp add: unsigned_eq_0_iff)
  have n: "Suc (card (at n ?in ((place w)(i := p)))) = card (at n ?in (place w))" if "p \<notin> ?in" for p
    using at_leave [of i n "place w" ?in p] i that by simp
  have z: "card (at n {StoreEnter} (place w)) = 0" using w pos by (simp add: leaving_def)
  show ?thesis
  proof (cases "steps w - 1 = 0")
    case True
    have "card (at n {StoreEnter} ((place w)(i := StoreEnter))) = 1"
      using at_enter [of i n "place w" "{StoreEnter}" StoreEnter] i z by simp
    then show ?thesis using w i True s n [of StoreEnter] dec eq by (auto simp: leaving_def barrier_access simp del: card_0_eq)
  next
    case False
    have "card (at n {StoreEnter} ((place w)(i := SpinEnter))) = 0"
      using at_stay [of "place w" i "{StoreEnter}" SpinEnter n] i z by simp
    then show ?thesis using w i False s n [of SpinEnter] dec eq by (auto simp: leaving_def barrier_access)
  qed
qed

lemma shut_step:
  assumes w: "leaving n k w" and i: "i < n" "place w i = StoreEnter"
  shows "entering n (Suc k) (barrier_sync c i w)"
proof -
  have "i \<in> at n {StoreEnter} (place w)" using i by (simp add: at_def)
  then have one: "card (at n {StoreEnter} (place w)) = 1" and empty: "unat (steps w) = 0"
    using w unfolding leaving_def by (auto split: if_splits)
  have "card (at n {SpinLeave, Subtract} (place w)) = 0" using w empty by (simp add: leaving_def)
  then have all: "place w j \<in> {StoreEnter, SpinEnter}" if "j < n" for j
    using at_none [of n _ "place w" j] w that by (auto simp: leaving_def)
  have spin: "place w j = SpinEnter" if "j < n" "j \<noteq> i" for j
    using all [OF that(1)] at_single [OF one i(1) _ that(1)] i that by auto
  have "card (at n {StoreLeave, SpinLeave} ((place w)(i := Outside))) = 0" by (rule at_empty) (use spin in auto)
  moreover have "card (at n {StoreLeave} ((place w)(i := Outside))) = 0" by (rule at_empty) (use spin in auto)
  moreover have "0 < n" using i by simp
  ultimately show ?thesis using w i empty spin by (auto simp: leaving_def entering_def barrier_access)
qed

lemma barrier_inv_step: "barrier_inv (unat c) w \<Longrightarrow> i < unat c \<Longrightarrow> barrier_inv (unat c) (barrier_sync c i w)"
  unfolding barrier_inv_def
proof (elim exE disjE)
  fix k assume w: "entering (unat c) k w" and i: "i < unat c"
  consider "place w i = Outside" | "place w i = StoreLeave" | "place w i = SpinLeave" | "place w i = SpinEnter"
    using w i by (auto simp: entering_def)
  then show "\<exists>k. entering (unat c) k (barrier_sync c i w) \<or> leaving (unat c) k (barrier_sync c i w)"
  proof cases
    case 3
    then have "barrier_sync c i w = w" using w by (simp add: barrier_access entering_def)
    then show ?thesis using w by auto
  qed (use enter_step open_step exit_step w i in blast)+
next
  fix k assume w: "leaving (unat c) k w" and i: "i < unat c"
  consider "place w i = SpinLeave" | "place w i = Subtract" | "place w i = StoreEnter" | "place w i = SpinEnter"
    using w i by (auto simp: leaving_def)
  then show "\<exists>k. entering (unat c) k (barrier_sync c i w) \<or> leaving (unat c) k (barrier_sync c i w)"
  proof cases
    case 4
    then have "barrier_sync c i w = w" using w by (simp add: barrier_access leaving_def)
    then show ?thesis using w by auto
  qed (use pass_step subtract_step shut_step w i in blast)+
qed

lemma barrier_inv_run: "barrier_inv (unat c) w \<Longrightarrow> (\<forall>i \<in> set is. i < unat c) \<Longrightarrow> barrier_inv (unat c) (barrier_run c is w)"
  by (induction "is" arbitrary: w) (auto simp: barrier_inv_step)

lemma barrier_reached: "0 < c \<Longrightarrow> (\<forall>i \<in> set is. i < unat c) \<Longrightarrow> barrier_inv (unat c) (barrier_run c is barrier_new)"
  by (rule barrier_inv_run [OF barrier_inv_new]) (simp_all add: word_less_nat_alt)

lemma entering_rounds: "entering n k w \<Longrightarrow> i < n \<Longrightarrow> k \<le> begun w i \<and> begun w i \<le> Suc k \<and> ended w i \<le> k"
  by (auto simp: entering_def)

lemma leaving_rounds: "leaving n k w \<Longrightarrow> i < n \<Longrightarrow> k \<le> begun w i \<and> begun w i \<le> Suc k \<and> ended w i \<le> k"
  by (auto simp: leaving_def)

lemma barrier_rounds:
  "barrier_inv n w \<Longrightarrow> i < n \<Longrightarrow> j < n \<Longrightarrow> ended w i \<le> begun w j \<and> begun w i \<le> Suc (begun w j)"
  unfolding barrier_inv_def
  by (elim exE disjE)
    (use entering_rounds [of n _ w i] entering_rounds [of n _ w j] leaving_rounds [of n _ w i] leaving_rounds [of n _ w j] in \<open>fastforce\<close>)+

lemma barrier_steps: "barrier_inv n w \<Longrightarrow> unat (steps w) \<le> n"
  by (auto simp: barrier_inv_def entering_def leaving_def at_le)

lemma entering_progress:
  assumes w: "entering n k w" and all: "\<forall>i < n. place w i \<noteq> Outside" and n: "0 < n"
  shows "\<exists>i < n. place w i = StoreLeave \<or> place w i = SpinEnter"
proof (rule ccontr)
  assume no: "\<not> ?thesis"
  then have "place w i \<in> {StoreLeave, SpinLeave}" if "i < n" for i
    using w all that by (auto simp: entering_def)
  then have "card (at n {StoreLeave, SpinLeave} (place w)) = n" by (rule at_whole)
  then have "card (at n {StoreLeave} (place w)) = 1" using w by (simp add: entering_def)
  moreover have "card (at n {StoreLeave} (place w)) = 0" by (rule at_empty) (use no in auto)
  ultimately show False by simp
qed

lemma leaving_progress:
  assumes w: "leaving n k w" and n: "0 < n"
  shows "\<exists>i < n. place w i \<noteq> SpinEnter"
proof (rule ccontr)
  assume no: "\<not> ?thesis"
  have "card (at n {SpinLeave, Subtract} (place w)) = 0" by (rule at_empty) (use no in auto)
  then have "card (at n {StoreEnter} (place w)) = 1" using w by (simp add: leaving_def)
  moreover have "card (at n {StoreEnter} (place w)) = 0" by (rule at_empty) (use no in auto)
  ultimately show False by simp
qed

lemma moves: "place (barrier_sync c i w) i \<noteq> place w i \<Longrightarrow> barrier_sync c i w \<noteq> w"
  by auto

lemma inv_progress:
  assumes w: "barrier_inv n w" and all: "\<forall>i < n. place w i \<noteq> Outside" and n: "0 < n"
  shows "\<exists>i < n. place (barrier_sync c i w) i \<noteq> place w i"
  using w unfolding barrier_inv_def
proof (elim exE disjE)
  fix k assume e: "entering n k w"
  then obtain i where i: "i < n" "place w i = StoreLeave \<or> place w i = SpinEnter" using entering_progress [OF e all n] by blast
  have "place (barrier_sync c i w) i \<noteq> place w i" using i(2) e by (auto simp: barrier_access entering_def)
  with i(1) show ?thesis by blast
next
  fix k assume e: "leaving n k w"
  then obtain i where i: "i < n" "place w i \<noteq> SpinEnter" using leaving_progress [OF e n] by blast
  then have "place w i \<in> {SpinLeave, Subtract, StoreEnter}" using e by (auto simp: leaving_def)
  then have "place (barrier_sync c i w) i \<noteq> place w i" using e by (auto simp: barrier_access leaving_def split: if_splits)
  with i(1) show ?thesis by blast
qed

section \<open>The properties\<close>

text \<open>C16: No thread returns from its m-th call of \<open>sync\<close> before every thread has begun its m-th
  call, so that two threads are never more than one call apart, and the counter never exceeds the number of threads: whatever the order of the atomic accesses.
\<close>

theorem barrier_no_early_exit:
  assumes "0 < c" "\<forall>i \<in> set is. i < unat c" "i < unat c" "j < unat c"
  shows "ended (barrier_run c is barrier_new) i \<le> begun (barrier_run c is barrier_new) j \<and>
    begun (barrier_run c is barrier_new) i \<le> Suc (begun (barrier_run c is barrier_new) j) \<and>
    unat (steps (barrier_run c is barrier_new)) \<le> unat c"
  using barrier_rounds [OF barrier_reached [OF assms(1,2)] assms(3,4)] barrier_steps [OF barrier_reached [OF assms(1,2)]]
  by blast

lemma barrier_no_early_exit_witness:
  "ended (barrier_run 2 [0, 0, 1, 1, 1, 0, 0, 0, 1] barrier_new) 0 \<le> begun (barrier_run 2 [0, 0, 1, 1, 1, 0, 0, 0, 1] barrier_new) 1 \<and>
   ended (barrier_run 2 [0, 0, 1, 1, 1, 0, 0, 0, 1] barrier_new) 0 = 1"
  using barrier_no_early_exit [of 2 "[0, 0, 1, 1, 1, 0, 0, 0, 1]" 0 1]
  by (simp add: barrier_access barrier_new_def moved_def returned_def)

text \<open>C37: The barrier does not deadlock: as long as every thread is in a call of \<open>sync\<close>, there is a
  thread whose next access takes it further.
\<close>

theorem barrier_progress:
  assumes "0 < c" "\<forall>i \<in> set is. i < unat c"
    and "\<forall>i < unat c. place (barrier_run c is barrier_new) i \<noteq> Outside"
  shows "\<exists>i < unat c. place (barrier_sync c i (barrier_run c is barrier_new)) i \<noteq> place (barrier_run c is barrier_new) i"
  by (rule inv_progress [OF barrier_reached [OF assms(1,2)] assms(3)]) (use assms(1) in \<open>simp add: word_less_nat_alt\<close>)

lemma barrier_progress_witness:
  "\<exists>i < unat (2 :: 64 word). place (barrier_sync 2 i (barrier_run 2 [0, 1, 0] barrier_new)) i \<noteq> place (barrier_run 2 [0, 1, 0] barrier_new) i"
  by (rule barrier_progress) (simp_all add: barrier_access barrier_new_def moved_def returned_def less_2_cases_iff all_conj_distrib)

end
