(* ===== verification/Loader.thy ===== *)
theory Loader
  imports Bank
begin

text \<open>
  The loader of \<open>grading/transactional.hpp\<close>, the class \<open>TransactionalLibrary\<close>: its constructor
  resolves a path, opens the module and looks up the eleven functions of the interface, its
  destructor closes the module. The dynamic linker of the system is a parameter, as the answers it
  gives; the state is the list of the modules that are open, one entry for every call of \<open>dlopen\<close>
  that no \<open>dlclose\<close> has undone.
\<close>

section \<open>The dynamic linker\<close>

text \<open>
  \<open>realpath\<close> may fail; \<open>dlopen\<close> and \<open>dlsym\<close> answer \<open>NULL\<close> when they do.
\<close>

record linker =
  realpath :: "string \<Rightarrow> string option"
  dlopen :: "string \<Rightarrow> addr"
  dlsym :: "addr \<Rightarrow> string \<Rightarrow> addr"

text \<open>The handle of the module and the addresses of its functions.\<close>

record tlib =
  module :: addr
  fn_create :: addr
  fn_destroy :: addr
  fn_start :: addr
  fn_size :: addr
  fn_align :: addr
  fn_begin :: addr
  fn_end :: addr
  fn_read :: addr
  fn_write :: addr
  fn_alloc :: addr
  fn_free :: addr

section \<open>The constructor and the destructor\<close>

primrec sbind :: "exn + 'a \<Rightarrow> ('a \<Rightarrow> exn + 'b) \<Rightarrow> exn + 'b" where
  "sbind (Inl e) f = Inl e"
| "sbind (Inr x) f = f x"

definition solve :: "linker \<Rightarrow> addr \<Rightarrow> string \<Rightarrow> exn + addr" where
  "solve d m name = (let res = dlsym d m name in if res = NULL then Inl ModuleSymbol else Inr res)"

definition bind_symbols :: "linker \<Rightarrow> addr \<Rightarrow> exn + tlib" where
  "bind_symbols d m =
     sbind (solve d m ''tm_create'') (\<lambda>create.
     sbind (solve d m ''tm_destroy'') (\<lambda>destroy.
     sbind (solve d m ''tm_start'') (\<lambda>start.
     sbind (solve d m ''tm_size'') (\<lambda>size.
     sbind (solve d m ''tm_align'') (\<lambda>align.
     sbind (solve d m ''tm_begin'') (\<lambda>begin.
     sbind (solve d m ''tm_end'') (\<lambda>end.
     sbind (solve d m ''tm_read'') (\<lambda>read.
     sbind (solve d m ''tm_write'') (\<lambda>write.
     sbind (solve d m ''tm_alloc'') (\<lambda>alloc.
     sbind (solve d m ''tm_free'') (\<lambda>free.
     Inr \<lparr>module = m, fn_create = create, fn_destroy = destroy, fn_start = start, fn_size = size, fn_align = align,
          fn_begin = begin, fn_end = end, fn_read = read, fn_write = write, fn_alloc = alloc, fn_free = free\<rparr>)))))))))))"

text \<open>A constructor that throws leaves no object behind, so the destructor does not run.\<close>

definition library_ctor :: "linker \<Rightarrow> string \<Rightarrow> addr list \<Rightarrow> (exn + tlib) \<times> addr list" where
  "library_ctor d path opened =
     (case realpath d path of
        None \<Rightarrow> (Inl PathResolve, opened)
      | Some resolved \<Rightarrow>
          (let m = dlopen d resolved in
           if m = NULL then (Inl ModuleLoading, opened)
           else (bind_symbols d m, m # opened)))"

definition library_dtor :: "tlib \<Rightarrow> addr list \<Rightarrow> addr list" where
  "library_dtor lib opened = remove1 (module lib) opened"

section \<open>What loading a library does\<close>

definition interface_names :: "string list" where
  "interface_names = [''tm_create'', ''tm_destroy'', ''tm_start'', ''tm_size'', ''tm_align'', ''tm_begin'', ''tm_end'',
     ''tm_read'', ''tm_write'', ''tm_alloc'', ''tm_free'']"

text \<open>The addresses of a loaded library, in the order of the names.\<close>

definition entries :: "tlib \<Rightarrow> addr list" where
  "entries lib = [fn_create lib, fn_destroy lib, fn_start lib, fn_size lib, fn_align lib, fn_begin lib, fn_end lib,
     fn_read lib, fn_write lib, fn_alloc lib, fn_free lib]"

lemma sbind_solve:
  "sbind (solve d m name) f = (if dlsym d m name = NULL then Inl ModuleSymbol else f (dlsym d m name))"
  by (simp add: solve_def Let_def)

lemma bind_symbols_Inr:
  "bind_symbols d m = Inr lib \<Longrightarrow> module lib = m \<and> entries lib = map (dlsym d m) interface_names \<and> NULL \<notin> set (entries lib)"
  by (auto simp: bind_symbols_def sbind_solve interface_names_def entries_def split: if_splits)

lemma bind_symbols_Inl:
  "bind_symbols d m = Inl e \<Longrightarrow> e = ModuleSymbol \<and> NULL \<in> dlsym d m ` set interface_names"
  by (auto simp: bind_symbols_def sbind_solve interface_names_def split: if_splits)

lemma loaded:
  assumes "library_ctor d path opened = (Inr lib, opened')"
  shows "opened' = module lib # opened" "module lib \<noteq> NULL" "library_dtor lib opened' = opened"
  using assms bind_symbols_Inr [of d "module lib" lib]
  by (auto simp: library_ctor_def library_dtor_def Let_def split: option.splits if_splits dest: bind_symbols_Inr)

text \<open>Whether a library loads does not depend on what is open.\<close>

definition loads :: "linker \<Rightarrow> string \<Rightarrow> bool" where
  "loads d path = (case fst (library_ctor d path []) of Inl _ \<Rightarrow> False | Inr _ \<Rightarrow> True)"

lemma library_ctor_fst: "fst (library_ctor d path opened) = fst (library_ctor d path [])"
  by (auto simp: library_ctor_def Let_def split: option.splits)

lemma loads_iff:
  "loads d path \<longleftrightarrow> (\<exists>f. realpath d path = Some f \<and> dlopen d f \<noteq> NULL \<and> NULL \<notin> dlsym d (dlopen d f) ` set interface_names)"
proof -
  have r: "(case bind_symbols d m of Inl _ \<Rightarrow> False | Inr _ \<Rightarrow> True) \<longleftrightarrow> NULL \<notin> dlsym d m ` set interface_names" for m
    by (cases "bind_symbols d m") (auto dest!: bind_symbols_Inl bind_symbols_Inr)
  show ?thesis by (simp add: loads_def library_ctor_def Let_def r split: option.splits)
qed

text \<open>The module that a failed constructor leaves behind: one that opens and lacks a symbol.\<close>

definition left_open :: "linker \<Rightarrow> string \<Rightarrow> addr list" where
  "left_open d path =
     (case realpath d path of
        None \<Rightarrow> []
      | Some f \<Rightarrow>
          if dlopen d f \<noteq> NULL \<and> NULL \<in> dlsym d (dlopen d f) ` set interface_names then [dlopen d f] else [])"

lemma load_failed:
  assumes "library_ctor d path opened = (Inl e, opened')"
  shows "e \<in> {PathResolve, ModuleLoading, ModuleSymbol}" and "opened' = left_open d path @ opened"
  using assms
  by (auto simp: library_ctor_def left_open_def Let_def split: option.splits if_splits dest: bind_symbols_Inl)

lemma loads_left_open: "loads d path \<Longrightarrow> left_open d path = []"
  by (auto simp: loads_iff left_open_def)

end
