(* ===== verification/Sync.thy ===== *)
theory Sync
  imports Thread_Count
begin

text \<open>
  The start and end of a measured phase: the class \<open>Sync\<close> of \<open>grading/grading.cpp\<close> with the latch
  and the chronometer of \<open>grading/common.hpp\<close> it is made of. One master and any number of workers
  run in any order; a step is one access of an atomic variable, one critical section of the latch
  or one call of the chronometer. What each worker reported in the present phase is recorded.
\<close>

section \<open>The chronometer\<close>

definition invalid_tick :: "64 word" where
  "invalid_tick = 0xbadc0de"

text \<open>
  Reading the clock gives seconds and nanoseconds, or fails.
\<close>

fun chrono_convert :: "(64 word \<times> 64 word) option \<Rightarrow> 64 word" where
  "chrono_convert None = invalid_tick"
| "chrono_convert (Some (sec, nsec)) =
     (let res = nsec + sec * 1000000000 in if res = invalid_tick then invalid_tick + 1 else res)"

record chrono =
  total :: "64 word"
  segment :: "64 word"

definition chrono_start :: "(64 word \<times> 64 word) option \<Rightarrow> chrono \<Rightarrow> chrono" where
  "chrono_start t c = c\<lparr>segment := chrono_convert t\<rparr>"

definition chrono_delta :: "(64 word \<times> 64 word) option \<Rightarrow> chrono \<Rightarrow> 64 word" where
  "chrono_delta t c = chrono_convert t - segment c"

definition chrono_stop :: "(64 word \<times> 64 word) option \<Rightarrow> chrono \<Rightarrow> chrono" where
  "chrono_stop t c = c\<lparr>total := total c + chrono_delta t c\<rparr>"

definition chrono_new :: "64 word \<Rightarrow> 64 word \<Rightarrow> chrono" where
  [simp]: "chrono_new tick garbage = \<lparr>total = tick, segment = garbage\<rparr>"

definition chrono_reset :: "chrono \<Rightarrow> chrono" where
  "chrono_reset c = c\<lparr>total := 0\<rparr>"

definition chrono_get_tick :: "chrono \<Rightarrow> 64 word" where
  [simp]: "chrono_get_tick c = total c"

text \<open>\<open>get_resolution\<close> converts what \<open>clock_getres\<close> gives.\<close>

definition chrono_get_resolution :: "(64 word \<times> 64 word) option \<Rightarrow> 64 word" where
  "chrono_get_resolution res = chrono_convert res"

text \<open>The invalid tick never comes out of the clock by chance.\<close>

lemma chrono_convert_invalid: "chrono_convert t = invalid_tick \<longleftrightarrow> t = None"
  by (cases t) (auto simp: Let_def split: if_splits)

section \<open>The latch\<close>

text \<open>The state of the latch is whether it is raised.\<close>

definition latch_new :: "bool \<Rightarrow> bool" where
  [simp]: "latch_new raised = raised"

definition latch_raise :: "bool \<Rightarrow> bool" where
  "latch_raise raised = True"

text \<open>
  \<open>None\<close> while the caller is blocked, and else what \<open>wait\<close> returns and the state it leaves;
  \<open>over\<close> says that \<open>maxtick\<close> nanoseconds have passed.
\<close>

definition latch_wait :: "64 word \<Rightarrow> bool \<Rightarrow> bool \<Rightarrow> (bool \<times> bool) option" where
  "latch_wait maxtick over raised =
     (if maxtick = invalid_tick then (if raised then Some (True, False) else None)
      else if raised then Some (True, False)
      else if over then Some (False, raised) else None)"

section \<open>The synchronisation\<close>

datatype status = Wait | Run | Abort | Done | Fail | Quit

text \<open>Before which access a worker is; \<open>Working\<close> is between its two calls.\<close>

datatype worker_place =
    Waiting | Counting | Resetting | Releasing | Spinning | Working
  | Blaming string | Aborting | Reporting | Clearing | Judging | Closing status | Stopping | Raising | Gone

text \<open>What \<open>master_wait\<close> gives: the running time, the message, or one of two exceptions.\<close>

datatype outcome = Runtime "64 word" | Message "string option" | Overrun | Unreachable

datatype master_place = Fresh | Starting | Blocked | Loading | Fetching | Returned outcome | Thrown outcome | Joined

record sync =
  nbready :: "32 word"
  status :: status
  errmsg :: "string option"
  runtime :: chrono
  raised :: bool
  worker :: "nat \<Rightarrow> worker_place"
  master :: master_place
  reports :: "nat \<Rightarrow> string option option"

definition sync_new :: "64 word \<Rightarrow> sync" where
  "sync_new garbage = \<lparr>nbready = 0, status = Done, errmsg = None, runtime = chrono_new 0 garbage,
     raised = latch_new False, worker = (\<lambda>_. Waiting), master = Fresh, reports = (\<lambda>_. None)\<rparr>"

definition goto :: "nat \<Rightarrow> worker_place \<Rightarrow> sync \<Rightarrow> sync" where
  "goto i p w = w\<lparr>worker := (worker w)(i := p)\<rparr>"

definition rests :: "master_place \<Rightarrow> bool" where
  "rests m \<longleftrightarrow> (case m of Fresh \<Rightarrow> True | Returned _ \<Rightarrow> True | _ \<Rightarrow> False)"

definition master_notify :: "(64 word \<times> 64 word) option \<Rightarrow> sync \<Rightarrow> sync" where
  "master_notify t w =
     (if rests (master w) then w\<lparr>status := Wait, master := Starting, reports := (\<lambda>_. None)\<rparr>
      else if master w = Starting then w\<lparr>runtime := chrono_start t (runtime w), master := Blocked\<rparr>
      else w)"

definition master_join :: "sync \<Rightarrow> sync" where
  "master_join w = (if rests (master w) then w\<lparr>status := Quit, master := Joined\<rparr> else w)"

definition master_wait :: "64 word \<Rightarrow> bool \<Rightarrow> sync \<Rightarrow> sync" where
  "master_wait maxtick over w =
     (case master w of
        Blocked \<Rightarrow>
          (case latch_wait maxtick over (raised w) of
             None \<Rightarrow> w
           | Some (in_time, r) \<Rightarrow> if \<not> in_time then w\<lparr>raised := r, master := Thrown Overrun\<rparr> else w\<lparr>raised := r, master := Loading\<rparr>)
      | Loading \<Rightarrow>
          (case status w of
             Done \<Rightarrow> w\<lparr>master := Returned (Runtime (chrono_get_tick (runtime w)))\<rparr>
           | Fail \<Rightarrow> w\<lparr>master := Fetching\<rparr>
           | _ \<Rightarrow> w\<lparr>master := Thrown Unreachable\<rparr>)
      | Fetching \<Rightarrow> w\<lparr>master := Returned (Message (errmsg w))\<rparr>
      | _ \<Rightarrow> w)"

definition worker_wait :: "32 word \<Rightarrow> nat \<Rightarrow> sync \<Rightarrow> sync" where
  "worker_wait nbworkers i w =
     (case worker w i of
        Waiting \<Rightarrow> if status w = Wait then goto i Counting w else if status w = Quit then goto i Gone w else w
      | Counting \<Rightarrow>
          (let res = nbready w; w = w\<lparr>nbready := res + 1\<rparr> in
           if res + 1 = nbworkers then goto i Resetting w else goto i Spinning w)
      | Resetting \<Rightarrow> goto i Releasing (w\<lparr>nbready := 0\<rparr>)
      | Releasing \<Rightarrow> goto i Working (w\<lparr>status := Run\<rparr>)
      | Spinning \<Rightarrow> if status w = Run \<or> status w = Abort then goto i Working w else w
      | _ \<Rightarrow> w)"

definition worker_notify :: "32 word \<Rightarrow> string option \<Rightarrow> (64 word \<times> 64 word) option \<Rightarrow> nat \<Rightarrow> sync \<Rightarrow> sync" where
  "worker_notify nbworkers error t i w =
     (case worker w i of
        Working \<Rightarrow>
          (let w = w\<lparr>reports := (reports w)(i := Some error)\<rparr> in
           case error of Some m \<Rightarrow> goto i (Blaming m) w | None \<Rightarrow> goto i Reporting w)
      | Blaming m \<Rightarrow> goto i Aborting (w\<lparr>errmsg := Some m\<rparr>)
      | Aborting \<Rightarrow> goto i Reporting (w\<lparr>status := Abort\<rparr>)
      | Reporting \<Rightarrow>
          (let res = nbready w; w = w\<lparr>nbready := res + 1\<rparr> in
           if res + 1 = nbworkers then goto i Clearing w else goto i Waiting w)
      | Clearing \<Rightarrow> goto i Judging (w\<lparr>nbready := 0\<rparr>)
      | Judging \<Rightarrow> goto i (Closing (if status w = Abort then Fail else Done)) w
      | Closing s \<Rightarrow> goto i Stopping (w\<lparr>status := s\<rparr>)
      | Stopping \<Rightarrow> goto i Raising (w\<lparr>runtime := chrono_stop t (runtime w)\<rparr>)
      | Raising \<Rightarrow> goto i Waiting (w\<lparr>raised := latch_raise (raised w)\<rparr>)
      | _ \<Rightarrow> w)"

text \<open>
  A schedule says who takes the next step. A worker calls the two operations in turn, so its place
  says which one it is in; the master notifies and then waits, or joins.
\<close>

datatype action =
    Notify "(64 word \<times> 64 word) option" | Await "64 word" bool | Join
  | Work nat "string option" "(64 word \<times> 64 word) option"

fun sync_step :: "32 word \<Rightarrow> action \<Rightarrow> sync \<Rightarrow> sync" where
  "sync_step nbworkers (Notify t) w = master_notify t w"
| "sync_step nbworkers (Await maxtick over) w = master_wait maxtick over w"
| "sync_step nbworkers Join w = master_join w"
| "sync_step nbworkers (Work i error t) w =
     (if worker w i \<in> {Waiting, Counting, Resetting, Releasing, Spinning} then worker_wait nbworkers i w
      else worker_notify nbworkers error t i w)"

primrec sync_run :: "32 word \<Rightarrow> action list \<Rightarrow> sync \<Rightarrow> sync" where
  "sync_run nbworkers [] w = w"
| "sync_run nbworkers (a # as) w = sync_run nbworkers as (sync_step nbworkers a w)"

text \<open>The workers that a schedule lets run.\<close>

fun works_below :: "nat \<Rightarrow> action \<Rightarrow> bool" where
  "works_below n (Work i _ _) = (i < n)"
| "works_below n _ = True"

lemma goto_sel [simp]:
  "nbready (goto i p w) = nbready w" "status (goto i p w) = status w" "errmsg (goto i p w) = errmsg w"
  "runtime (goto i p w) = runtime w" "raised (goto i p w) = raised w" "worker (goto i p w) = (worker w)(i := p)"
  "master (goto i p w) = master w" "reports (goto i p w) = reports w"
  by (simp_all add: goto_def)

section \<open>The invariant\<close>

text \<open>
  A phase begins with \<open>master_notify\<close>. The workers gather until the last has come, who releases
  them; they work and report; the last to report sets the final status and raises the latch, upon
  which the master returns to rest.
\<close>

definition busy :: "master_place \<Rightarrow> bool" where
  "busy m \<longleftrightarrow> m \<in> {Starting, Blocked, Thrown Overrun}"

definition blamed :: "nat \<Rightarrow> sync \<Rightarrow> bool" where
  "blamed n w \<longleftrightarrow> (\<exists>i < n. \<exists>m. errmsg w = Some m \<and> reports w i = Some (Some m))"

text \<open>What the final status \<open>s\<close> says of the reports, once all are there.\<close>

definition verdict :: "nat \<Rightarrow> status \<Rightarrow> sync \<Rightarrow> bool" where
  "verdict n s w \<longleftrightarrow> (\<forall>i < n. reports w i \<noteq> None) \<and>
     (s = Done \<and> (\<forall>i < n. reports w i = Some None) \<or> s = Fail \<and> blamed n w)"

definition answered :: "nat \<Rightarrow> sync \<Rightarrow> bool" where
  "answered n w \<longleftrightarrow>
     (case master w of
        Fresh \<Rightarrow> True
      | Loading \<Rightarrow> verdict n (status w) w
      | Fetching \<Rightarrow> verdict n (status w) w \<and> status w = Fail
      | Returned r \<Rightarrow>
          (\<forall>i < n. reports w i \<noteq> None) \<and>
          (case r of
             Runtime _ \<Rightarrow> \<forall>i < n. reports w i = Some None
           | Message m \<Rightarrow> m \<noteq> None \<and> (\<exists>i < n. reports w i = Some m)
           | _ \<Rightarrow> False)
      | _ \<Rightarrow> False)"

definition idle :: "nat \<Rightarrow> sync \<Rightarrow> bool" where
  "idle n w \<longleftrightarrow> status w \<in> {Done, Fail} \<and> nbready w = 0 \<and> \<not> raised w \<and>
     (\<forall>i < n. worker w i = Waiting) \<and> answered n w"

definition gathering :: "nat \<Rightarrow> sync \<Rightarrow> bool" where
  "gathering n w \<longleftrightarrow> status w = Wait \<and> \<not> raised w \<and> busy (master w) \<and>
     unat (nbready w) = card (at n {Spinning} (worker w)) \<and> unat (nbready w) < n \<and>
     (\<forall>i < n. worker w i \<in> {Waiting, Counting, Spinning} \<and> reports w i = None)"

definition releasing :: "nat \<Rightarrow> nat \<Rightarrow> sync \<Rightarrow> bool" where
  "releasing n i w \<longleftrightarrow> status w = Wait \<and> \<not> raised w \<and> busy (master w) \<and> i < n \<and>
     (worker w i = Resetting \<or> worker w i = Releasing \<and> nbready w = 0) \<and>
     (\<forall>j < n. (j \<noteq> i \<longrightarrow> worker w j = Spinning) \<and> reports w j = None)"

definition works :: "nat \<Rightarrow> sync \<Rightarrow> nat \<Rightarrow> bool" where
  "works n w i \<longleftrightarrow>
     (case worker w i of
        Spinning \<Rightarrow> reports w i = None
      | Working \<Rightarrow> reports w i = None
      | Blaming m \<Rightarrow> reports w i = Some (Some m)
      | Aborting \<Rightarrow> reports w i \<noteq> None \<and> blamed n w
      | Reporting \<Rightarrow> reports w i = Some None \<or> reports w i \<noteq> None \<and> status w = Abort
      | Waiting \<Rightarrow> reports w i = Some None \<or> reports w i \<noteq> None \<and> status w = Abort
      | _ \<Rightarrow> False)"

definition working :: "nat \<Rightarrow> sync \<Rightarrow> bool" where
  "working n w \<longleftrightarrow> status w \<in> {Run, Abort} \<and> \<not> raised w \<and> busy (master w) \<and>
     unat (nbready w) = card (at n {Waiting} (worker w)) \<and> unat (nbready w) < n \<and>
     (status w = Abort \<longrightarrow> blamed n w) \<and> (\<forall>i < n. works n w i)"

definition closing :: "nat \<Rightarrow> nat \<Rightarrow> sync \<Rightarrow> bool" where
  "closing n i w \<longleftrightarrow> \<not> raised w \<and> busy (master w) \<and> i < n \<and> (\<forall>j < n. j \<noteq> i \<longrightarrow> worker w j = Waiting) \<and>
     (worker w i \<noteq> Clearing \<longrightarrow> nbready w = 0) \<and>
     (case worker w i of
        Clearing \<Rightarrow> status w \<in> {Run, Abort} \<and> verdict n (if status w = Abort then Fail else Done) w
      | Judging \<Rightarrow> status w \<in> {Run, Abort} \<and> verdict n (if status w = Abort then Fail else Done) w
      | Closing s \<Rightarrow> status w \<in> {Run, Abort} \<and> verdict n s w
      | Stopping \<Rightarrow> verdict n (status w) w
      | Raising \<Rightarrow> verdict n (status w) w
      | _ \<Rightarrow> False)"

definition closed :: "nat \<Rightarrow> sync \<Rightarrow> bool" where
  "closed n w \<longleftrightarrow> raised w \<and> busy (master w) \<and> nbready w = 0 \<and> (\<forall>i < n. worker w i = Waiting) \<and> verdict n (status w) w"

definition quitting :: "nat \<Rightarrow> sync \<Rightarrow> bool" where
  "quitting n w \<longleftrightarrow> status w = Quit \<and> master w = Joined \<and> (\<forall>i < n. worker w i \<in> {Waiting, Gone})"

inductive sync_inv :: "nat \<Rightarrow> sync \<Rightarrow> bool" for n w where
  idle: "idle n w \<Longrightarrow> sync_inv n w"
| gathering: "gathering n w \<Longrightarrow> sync_inv n w"
| releasing: "releasing n i w \<Longrightarrow> sync_inv n w"
| working: "working n w \<Longrightarrow> sync_inv n w"
| closing: "closing n i w \<Longrightarrow> sync_inv n w"
| closed: "closed n w \<Longrightarrow> sync_inv n w"
| quitting: "quitting n w \<Longrightarrow> sync_inv n w"

lemmas worker_access = worker_wait_def worker_notify_def Let_def latch_raise_def

lemmas sync_inv_intros = sync_inv.intros

lemma sync_inv_new: "sync_inv n (sync_new g)"
  by (rule sync_inv_intros(1)) (simp add: idle_def answered_def sync_new_def)

subsection \<open>The steps of the master\<close>

lemma blamed_sel [simp]:
  "blamed n (goto i p w) = blamed n w" "blamed n (w\<lparr>nbready := a\<rparr>) = blamed n w" "blamed n (w\<lparr>status := b\<rparr>) = blamed n w"
  "blamed n (w\<lparr>runtime := c\<rparr>) = blamed n w" "blamed n (w\<lparr>raised := d\<rparr>) = blamed n w" "blamed n (w\<lparr>worker := f\<rparr>) = blamed n w" "blamed n (w\<lparr>master := m\<rparr>) = blamed n w"
  by (simp_all add: blamed_def)

lemma verdict_sel [simp]:
  "verdict n s (goto i p w) = verdict n s w" "verdict n s (w\<lparr>nbready := a\<rparr>) = verdict n s w" "verdict n s (w\<lparr>status := b\<rparr>) = verdict n s w"
  "verdict n s (w\<lparr>runtime := c\<rparr>) = verdict n s w" "verdict n s (w\<lparr>raised := d\<rparr>) = verdict n s w" "verdict n s (w\<lparr>worker := f\<rparr>) = verdict n s w" "verdict n s (w\<lparr>master := m\<rparr>) = verdict n s w"
  by (simp_all add: verdict_def)

lemma works_sel [simp]: "works n (w\<lparr>runtime := c\<rparr>) i = works n w i" "works n (w\<lparr>master := m\<rparr>) i = works n w i"
  by (simp_all add: works_def cong: worker_place.case_cong)

lemma busy_rests: "busy m \<Longrightarrow> \<not> rests m"
  by (auto simp: busy_def rests_def)

lemma joined_rests: "\<not> rests Joined" "\<not> busy Joined"
  by (simp_all add: rests_def busy_def)

lemma notify_idle:
  assumes w: "idle n w" and n: "0 < n"
  shows "sync_inv n (master_notify t w)"
proof (cases "rests (master w)")
  case True
  have "card (at n {Spinning} (worker w)) = 0" by (rule at_empty) (use w in \<open>simp add: idle_def\<close>)
  then have "gathering n (master_notify t w)"
    using w True n by (auto simp: gathering_def master_notify_def idle_def busy_def)
  then show ?thesis by (rule sync_inv_intros)
next
  case False
  then have "master_notify t w = w" using w by (auto simp: master_notify_def idle_def answered_def)
  then show ?thesis using w by (simp add: sync_inv_intros)
qed

text \<open>
  While the workers are busy, the master only starts the chronometer or gives up.
\<close>

lemma master_busy:
  assumes "sync_inv n w" "busy m" "busy (master w)"
  shows "sync_inv n (w\<lparr>runtime := r, master := m\<rparr>)"
  using assms(1)
proof (cases rule: sync_inv.cases)
  case idle
  then show ?thesis using assms(3) by (auto simp: idle_def answered_def busy_def)
next
  case gathering
  then show ?thesis using assms(2) by (intro sync_inv_intros(2)) (simp add: gathering_def)
next
  case (releasing i)
  then show ?thesis using assms(2) by (intro sync_inv_intros(3) [of n i]) (simp add: releasing_def)
next
  case working
  then show ?thesis using assms(2) by (intro sync_inv_intros(4)) (simp add: working_def)
next
  case (closing i)
  then show ?thesis using assms(2) by (intro sync_inv_intros(5) [of n i]) (simp add: closing_def cong: worker_place.case_cong)
next
  case closed
  then show ?thesis using assms(2) by (intro sync_inv_intros(6)) (simp add: closed_def)
next
  case quitting
  then show ?thesis using assms(3) by (simp add: quitting_def busy_def)
qed

lemma master_resting:
  assumes "sync_inv n w" "\<not> busy (master w)"
  shows "idle n w \<or> quitting n w"
  using assms by (cases rule: sync_inv.cases) (auto simp: gathering_def releasing_def working_def closing_def closed_def)

lemma resting_idle: "sync_inv n w \<Longrightarrow> rests (master w) \<Longrightarrow> idle n w"
  using master_resting [of n w] busy_rests [of "master w"] joined_rests(1) unfolding quitting_def by metis

lemma notify_inv:
  assumes "sync_inv n w" "0 < n"
  shows "sync_inv n (master_notify t w)"
proof (cases "busy (master w)")
  case True
  then show ?thesis using master_busy [OF assms(1) _ True, of Blocked] assms(1)
    by (simp add: master_notify_def busy_rests) (simp add: busy_def)
next
  case False
  then consider "idle n w" | "quitting n w" using master_resting [OF assms(1)] by blast
  then show ?thesis
  proof cases
    case 1
    then show ?thesis by (rule notify_idle [OF _ assms(2)])
  next
    case 2
    then show ?thesis using assms(1) by (simp add: master_notify_def quitting_def joined_rests)
  qed
qed

lemma join_inv:
  assumes "sync_inv n w"
  shows "sync_inv n (master_join w)"
proof (cases "rests (master w)")
  case True
  then have "idle n w" by (rule resting_idle [OF assms])
  then have "quitting n (master_join w)" using True by (simp add: idle_def quitting_def master_join_def)
  then show ?thesis by (rule sync_inv_intros)
qed (use assms in \<open>simp add: master_join_def\<close>)

lemma raised_closed: "sync_inv n w \<Longrightarrow> busy (master w) \<Longrightarrow> raised w \<Longrightarrow> closed n w"
  by (cases rule: sync_inv.cases)
    (auto simp: idle_def gathering_def releasing_def working_def closing_def quitting_def busy_def)

lemma latch_cases:
  "latch_wait maxtick over r = None \<or> latch_wait maxtick over r = Some (False, r) \<and> \<not> r \<or> latch_wait maxtick over r = Some (True, False) \<and> r"
  by (simp add: latch_wait_def)

lemma wait_blocked:
  assumes w: "sync_inv n w" and m: "master w = Blocked"
  shows "sync_inv n (master_wait maxtick over w)"
  using latch_cases [of maxtick over "raised w"]
proof (elim disjE conjE)
  assume "latch_wait maxtick over (raised w) = None"
  then show ?thesis using w m by (simp add: master_wait_def)
next
  assume l: "latch_wait maxtick over (raised w) = Some (False, raised w)"
  have "master_wait maxtick over w = w\<lparr>runtime := runtime w, master := Thrown Overrun\<rparr>"
    using l m by (simp add: master_wait_def)
  then show ?thesis using master_busy [OF w, of "Thrown Overrun" "runtime w"] m by (simp add: busy_def)
next
  assume l: "latch_wait maxtick over (raised w) = Some (True, False)" and r: "raised w"
  have "closed n w" by (rule raised_closed [OF w _ r]) (simp add: m busy_def)
  then have "idle n (master_wait maxtick over w)"
    using l m by (auto simp: master_wait_def idle_def closed_def answered_def verdict_def blamed_def)
  then show ?thesis by (rule sync_inv_intros)
qed

lemma wait_idle:
  assumes w: "idle n w"
  shows "idle n (master_wait maxtick over w)"
proof (cases "master w")
  case Loading
  then show ?thesis using w by (auto simp: master_wait_def idle_def answered_def verdict_def blamed_def)
next
  case Fetching
  then show ?thesis using w by (auto simp: master_wait_def idle_def answered_def verdict_def blamed_def)
qed (use w in \<open>auto simp: master_wait_def idle_def answered_def\<close>)

lemma wait_inv:
  assumes "sync_inv n w"
  shows "sync_inv n (master_wait maxtick over w)"
proof (cases "master w = Blocked")
  case True
  then show ?thesis by (rule wait_blocked [OF assms])
next
  case False
  show ?thesis
  proof (cases "busy (master w) \<or> quitting n w")
    case True
    then have "master_wait maxtick over w = w" using False by (auto simp: master_wait_def busy_def quitting_def)
    then show ?thesis using assms by simp
  next
    case False
    then show ?thesis using master_resting [OF assms] wait_idle sync_inv_intros(1) by blast
  qed
qed

subsection \<open>The steps of a worker\<close>

text \<open>While the workers gather.\<close>

lemma gather_wait:
  assumes w: "gathering n w" and i: "i < n" "worker w i = Waiting"
  shows "gathering n (worker_wait c i w)"
  using w i at_stay [of "worker w" i "{Spinning}" Counting n] by (auto simp: gathering_def worker_access)

lemma gather_count:
  assumes w: "gathering (unat c) w" and i: "i < unat c" "worker w i = Counting"
  shows "gathering (unat c) (worker_wait c i w) \<or> releasing (unat c) i (worker_wait c i w)"
proof -
  let ?n = "unat c"
  have b: "unat (nbready w) = card (at ?n {Spinning} (worker w))" and less: "unat (nbready w) < ?n"
    using w by (auto simp: gathering_def)
  have inc: "unat (nbready w + 1) = Suc (unat (nbready w))" using unat_inc [OF less] unsigned_less [of c] by simp
  have more: "card (at ?n {Spinning} ((worker w)(i := Spinning))) = Suc (card (at ?n {Spinning} (worker w)))"
    using at_enter [of i ?n "worker w" "{Spinning}" Spinning] i by simp
  show ?thesis
  proof (cases "nbready w + 1 = c")
    case True
    then have "card (at ?n {Spinning} ((worker w)(i := Spinning))) = ?n" using more inc b by simp
    then have "worker w j = Spinning" if "j < ?n" "j \<noteq> i" for j using at_all [OF _ that(1)] that(2) by fastforce
    then show ?thesis using w i True by (auto simp: gathering_def releasing_def worker_access)
  next
    case False
    then have "unat (nbready w + 1) \<noteq> ?n" by (metis word_unat_eq_iff)
    then show ?thesis using w i False more inc b by (auto simp: gathering_def worker_access)
  qed
qed

lemma gather_spin:
  assumes "gathering n w" "worker w i = Spinning"
  shows "worker_wait c i w = w"
  using assms by (simp add: gathering_def worker_access)

lemma release_reset:
  assumes w: "releasing n i w" and i: "worker w i = Resetting"
  shows "releasing n i (worker_wait c i w)"
  using w i by (simp add: releasing_def worker_access)

lemma release_run:
  assumes w: "releasing n i w" and i: "worker w i = Releasing"
  shows "working n (worker_wait c i w)"
proof -
  have "card (at n {Waiting} ((worker w)(i := Working))) = 0" by (rule at_empty) (use w in \<open>auto simp: releasing_def\<close>)
  then show ?thesis using w i by (auto simp: releasing_def working_def works_def worker_access)
qed

lemma release_spin:
  assumes "releasing n i w" "worker w j = Spinning"
  shows "worker_wait c j w = w"
  using assms by (simp add: releasing_def worker_access)

text \<open>While they work.\<close>

lemma work_wait:
  assumes "working n w" "worker w i = Waiting"
  shows "worker_wait c i w = w"
  using assms by (auto simp: working_def worker_access)

lemma works_kept:
  "works n w j \<Longrightarrow> worker w' j = worker w j \<Longrightarrow> reports w' j = reports w j \<Longrightarrow> (blamed n w \<Longrightarrow> blamed n w') \<Longrightarrow>
   (status w = Abort \<Longrightarrow> status w' = Abort) \<Longrightarrow> works n w' j"
  by (auto simp: works_def split: worker_place.splits)

text \<open>A worker that moves on without counting itself out keeps the others at work.\<close>

lemma working_moved:
  assumes w: "working n w" and i: "i < n" "worker w i \<noteq> Waiting" "p \<noteq> Waiting"
    and w': "worker w' = (worker w)(i := p)" "nbready w' = nbready w" "raised w' = raised w" "master w' = master w"
    and r: "\<And>j. j \<noteq> i \<Longrightarrow> reports w' j = reports w j" and bl: "blamed n w \<Longrightarrow> blamed n w'"
    and st: "status w' = status w \<or> status w' = Abort \<and> blamed n w'" and me: "works n w' i"
  shows "working n w'"
proof -
  have "works n w' j" if "j < n" for j
  proof (cases "j = i")
    case False
    show ?thesis by (rule works_kept [of n w]) (use w that False w' r bl st in \<open>auto simp: working_def\<close>)
  qed (use me in simp)
  moreover have "card (at n {Waiting} ((worker w)(i := p))) = card (at n {Waiting} (worker w))"
    by (rule at_stay) (use i in auto)
  ultimately show ?thesis using w w' bl st by (auto simp: working_def)
qed

lemma work_begin:
  assumes w: "working n w" and i: "i < n" "worker w i = Spinning"
  shows "working n (worker_wait c i w)"
proof -
  have "works n w i" using w i by (simp add: working_def)
  then have "works n (goto i Working w) i" using i by (simp add: works_def)
  then have "working n (goto i Working w)" by (intro working_moved [OF w i(1)]) (use i in auto)
  then show ?thesis using i w by (auto simp: worker_access working_def)
qed

lemma blamed_report: "blamed n w \<Longrightarrow> reports w i = None \<Longrightarrow> blamed n (w\<lparr>reports := (reports w)(i := r)\<rparr>)"
  by (auto simp: blamed_def)

lemma work_report:
  assumes w: "working n w" and i: "i < n" "worker w i = Working"
  shows "working n (worker_notify c e t i w)"
proof -
  have r: "reports w i = None" using w i by (auto simp: working_def works_def)
  let ?v = "w\<lparr>reports := (reports w)(i := Some e)\<rparr>"
  have "working n (goto i p ?v)" if "p = Reporting \<and> e = None \<or> (\<exists>m. p = Blaming m \<and> e = Some m)" for p
    by (rule working_moved [OF w i(1), of p])
      (use that i r blamed_report [OF _ r, of n "Some e"] in \<open>auto simp: works_def\<close>)
  then show ?thesis using i by (auto simp: worker_access split: option.splits)
qed

lemma work_blame:
  assumes w: "working n w" and i: "i < n" "worker w i = Blaming m"
  shows "working n (worker_notify c e t i w)"
proof -
  have r: "reports w i = Some (Some m)" using w i by (auto simp: working_def works_def)
  then have bl: "blamed n (w\<lparr>errmsg := Some m\<rparr>)" using i by (auto simp: blamed_def)
  have "working n (goto i Aborting (w\<lparr>errmsg := Some m\<rparr>))"
    by (rule working_moved [OF w i(1)]) (use i r bl in \<open>auto simp: works_def\<close>)
  then show ?thesis using i by (simp add: worker_access)
qed

lemma work_abort:
  assumes w: "working n w" and i: "i < n" "worker w i = Aborting"
  shows "working n (worker_notify c e t i w)"
proof -
  have a: "reports w i \<noteq> None" "blamed n w" using w i by (auto simp: working_def works_def)
  have "working n (goto i Reporting (w\<lparr>status := Abort\<rparr>))"
    by (rule working_moved [OF w i(1)]) (use i a in \<open>auto simp: works_def\<close>)
  then show ?thesis using i by (simp add: worker_access)
qed

lemma works_verdict:
  assumes w: "working n w" and all: "\<And>j. j < n \<Longrightarrow> worker w j \<in> {Waiting, Reporting}"
  shows "verdict n (if status w = Abort then Fail else Done) w"
proof -
  have r: "reports w j = Some None \<or> reports w j \<noteq> None \<and> status w = Abort" if "j < n" for j
    using w all [OF that] that by (auto simp: working_def works_def)
  then have "\<forall>j < n. reports w j \<noteq> None" by fastforce
  then show ?thesis using r w by (auto simp: verdict_def working_def)
qed

lemma work_count:
  assumes w: "working (unat c) w" and i: "i < unat c" "worker w i = Reporting"
  shows "working (unat c) (worker_notify c e t i w) \<or> closing (unat c) i (worker_notify c e t i w)"
proof -
  let ?n = "unat c"
  have b: "unat (nbready w) = card (at ?n {Waiting} (worker w))" and less: "unat (nbready w) < ?n"
    using w by (auto simp: working_def)
  have inc: "unat (nbready w + 1) = Suc (unat (nbready w))" using unat_inc [OF less] unsigned_less [of c] by simp
  have more: "card (at ?n {Waiting} ((worker w)(i := Waiting))) = Suc (card (at ?n {Waiting} (worker w)))"
    using at_enter [of i ?n "worker w" "{Waiting}" Waiting] i by simp
  show ?thesis
  proof (cases "nbready w + 1 = c")
    case True
    then have "card (at ?n {Waiting} ((worker w)(i := Waiting))) = ?n" using more inc b by simp
    then have rest: "worker w j = Waiting" if "j < ?n" "j \<noteq> i" for j using at_all [OF _ that(1)] that(2) by fastforce
    then have "worker w j \<in> {Waiting, Reporting}" if "j < ?n" for j using i that by (cases "j = i") auto
    then have "verdict ?n (if status w = Abort then Fail else Done) w" by (rule works_verdict [OF w])
    then show ?thesis using w i rest True by (auto simp: working_def closing_def worker_access)
  next
    case False
    then have "unat (nbready w + 1) \<noteq> ?n" by (metis word_unat_eq_iff)
    moreover have "works ?n (goto i Waiting (w\<lparr>nbready := nbready w + 1\<rparr>)) j" if "j < ?n" for j
    proof (cases "j = i")
      case True
      have "works ?n w i" using w i by (simp add: working_def)
      then show ?thesis using True i by (auto simp: works_def)
    next
      case False
      show ?thesis by (rule works_kept [of ?n w]) (use w that False in \<open>auto simp: working_def\<close>)
    qed
    ultimately show ?thesis using w i False more inc b by (auto simp: working_def worker_access)
  qed
qed

text \<open>While the last of them closes the phase.\<close>

lemma close_wait:
  assumes "closing n i w" "worker w j = Waiting" "j \<noteq> i" "j < n"
  shows "worker_wait c j w = w"
  using assms by (auto simp: closing_def verdict_def worker_access split: worker_place.splits)

lemma close_step:
  assumes w: "closing n i w" and i: "worker w i \<noteq> Raising"
  shows "closing n i (worker_notify c e t i w)"
  using w i by (auto simp: closing_def worker_access split: worker_place.splits)

lemma close_raise:
  assumes w: "closing n i w" and i: "worker w i = Raising"
  shows "closed n (worker_notify c e t i w)"
  using w i by (auto simp: closing_def closed_def worker_access)

lemma closed_wait:
  assumes "closed n w" "i < n"
  shows "worker_wait c i w = w"
  using assms by (auto simp: closed_def verdict_def worker_access)

lemma idle_wait:
  assumes "idle n w" "i < n"
  shows "worker_wait c i w = w"
  using assms by (auto simp: idle_def worker_access)

lemma quit_wait:
  assumes "quitting n w" "worker w i = Waiting"
  shows "quitting n (worker_wait c i w)"
  using assms by (auto simp: quitting_def worker_access)

section \<open>Every schedule\<close>

lemma worker_inv:
  assumes "sync_inv (unat c) w" and i: "i < unat c"
  shows "sync_inv (unat c) (sync_step c (Work i e t) w)"
  using assms(1)
proof (cases rule: sync_inv.cases)
  case idle
  then show ?thesis using idle_wait [OF idle i] sync_inv.idle i by (simp add: idle_def)
next
  case gathering
  then consider "worker w i = Waiting" | "worker w i = Counting" | "worker w i = Spinning" using i by (auto simp: gathering_def)
  then show ?thesis
    by cases (use gather_wait [OF gathering i] gather_count [OF gathering i] gather_spin [OF gathering] gathering sync_inv.gathering
      sync_inv.releasing in \<open>auto\<close>)
next
  case (releasing j)
  then consider "i \<noteq> j" "worker w i = Spinning" | "i = j" "worker w i = Resetting" | "i = j" "worker w i = Releasing"
    using i by (auto simp: releasing_def)
  then show ?thesis
    by cases (use release_spin [OF releasing] release_reset [OF releasing] release_run [OF releasing] releasing sync_inv.releasing [of "unat c" j]
      sync_inv.working in \<open>auto\<close>)
next
  case working
  have "works (unat c) w i" using working i by (simp add: working_def)
  then consider "worker w i = Waiting" | "worker w i = Spinning" | "worker w i = Working" | m where "worker w i = Blaming m"
    | "worker w i = Aborting" | "worker w i = Reporting" by (auto simp: works_def split: worker_place.splits)
  then show ?thesis
    by cases (use work_wait [OF working] work_begin [OF working i] work_report [OF working i] work_blame [OF working i]
      work_abort [OF working i] work_count [OF working i, of e t] working sync_inv.working sync_inv.closing [of "unat c" i] in \<open>auto\<close>)
next
  case (closing j)
  show ?thesis
  proof (cases "i = j")
    case True
    have "worker w i \<notin> {Waiting, Counting, Resetting, Releasing, Spinning}" using closing True by (auto simp: closing_def)
    then show ?thesis using True close_step [OF closing] close_raise [OF closing] sync_inv.closing [of "unat c" j] sync_inv.closed
      by (cases "worker w j = Raising") auto
  next
    case False
    then have "worker w i = Waiting" using closing i by (simp add: closing_def)
    then show ?thesis using close_wait [OF closing _ False i] closing sync_inv.closing by simp
  qed
next
  case closed
  then show ?thesis using closed_wait [OF closed i] sync_inv.closed i by (simp add: closed_def)
next
  case quitting
  then consider "worker w i = Waiting" | "worker w i = Gone" using i by (auto simp: quitting_def)
  then show ?thesis
    by cases (use quit_wait [OF quitting] quitting sync_inv.quitting in \<open>auto simp: worker_notify_def\<close>)
qed

lemma sync_step_inv: "sync_inv (unat c) w \<Longrightarrow> 0 < c \<Longrightarrow> works_below (unat c) a \<Longrightarrow> sync_inv (unat c) (sync_step c a w)"
  by (cases a) (simp_all add: worker_inv notify_inv wait_inv join_inv word_less_nat_alt del: sync_step.simps(4))

lemma sync_run_inv:
  "sync_inv (unat c) w \<Longrightarrow> 0 < c \<Longrightarrow> (\<forall>a \<in> set as. works_below (unat c) a) \<Longrightarrow> sync_inv (unat c) (sync_run c as w)"
  by (induction as arbitrary: w) (simp_all add: sync_step_inv)

lemma sync_reached: "0 < c \<Longrightarrow> (\<forall>a \<in> set as. works_below (unat c) a) \<Longrightarrow> sync_inv (unat c) (sync_run c as (sync_new g))"
  by (rule sync_run_inv [OF sync_inv_new])

lemma returned_answered: "sync_inv n w \<Longrightarrow> master w = Returned r \<Longrightarrow> answered n w"
  by (cases rule: sync_inv.cases)
    (auto simp: idle_def gathering_def releasing_def working_def closing_def closed_def quitting_def busy_def)

lemma thrown_overrun: "sync_inv n w \<Longrightarrow> master w = Thrown r \<Longrightarrow> r = Overrun"
  by (cases rule: sync_inv.cases)
    (auto simp: idle_def answered_def gathering_def releasing_def working_def closing_def closed_def quitting_def busy_def)

text \<open>While the master is busy, the phase can go on.\<close>

definition acts :: "32 word \<Rightarrow> nat \<Rightarrow> sync \<Rightarrow> bool" where
  "acts c i w \<longleftrightarrow> (\<forall>e t. worker (sync_step c (Work i e t) w) i \<noteq> worker w i)"

lemma acts_if:
  "worker w i \<in> {Counting, Resetting, Releasing, Working, Aborting, Reporting, Clearing, Judging, Stopping, Raising} \<or>
   (\<exists>m. worker w i = Blaming m) \<or> (\<exists>s. worker w i = Closing s) \<or>
   worker w i = Spinning \<and> status w \<in> {Run, Abort} \<or> worker w i = Waiting \<and> status w \<in> {Wait, Quit} \<Longrightarrow> acts c i w"
  by (auto simp: acts_def worker_access split: if_splits option.splits)

lemma gathering_acts:
  assumes w: "gathering n w"
  shows "\<exists>i < n. acts c i w"
proof (rule ccontr)
  assume no: "\<not> ?thesis"
  have "worker w i = Spinning" if "i < n" for i
  proof -
    have "worker w i \<in> {Waiting, Counting, Spinning}" using w that by (simp add: gathering_def)
    moreover have "\<not> acts c i w" using no that by simp
    ultimately show ?thesis using acts_if [of w i c] w by (auto simp: gathering_def)
  qed
  then have "card (at n {Spinning} (worker w)) = n" by (intro at_whole) simp
  then show False using w by (auto simp: gathering_def)
qed

lemma working_acts:
  assumes w: "working n w"
  shows "\<exists>i < n. acts c i w"
proof (rule ccontr)
  assume no: "\<not> ?thesis"
  have "worker w i = Waiting" if "i < n" for i
  proof -
    have "works n w i" using w that by (simp add: working_def)
    moreover have "\<not> acts c i w" using no that by simp
    ultimately show ?thesis using acts_if [of w i c] w by (auto simp: works_def working_def split: worker_place.splits)
  qed
  then have "card (at n {Waiting} (worker w)) = n" by (intro at_whole) simp
  then show False using w by (auto simp: working_def)
qed

lemma sync_acts:
  assumes "sync_inv n w" "busy (master w)" "\<not> raised w"
  shows "\<exists>i < n. acts c i w"
  using assms(1)
proof (cases rule: sync_inv.cases)
  case idle
  then show ?thesis using assms(2) by (auto simp: idle_def answered_def busy_def)
next
  case gathering
  then show ?thesis by (rule gathering_acts)
next
  case (releasing i)
  then have "i < n" "acts c i w" by (auto simp: releasing_def intro!: acts_if)
  then show ?thesis by blast
next
  case working
  then show ?thesis by (rule working_acts)
next
  case (closing i)
  then have "i < n" "acts c i w" by (auto simp: closing_def intro!: acts_if split: worker_place.splits)
  then show ?thesis by blast
next
  case closed
  then show ?thesis using assms(3) by (simp add: closed_def)
next
  case quitting
  then show ?thesis using assms(2) by (simp add: quitting_def joined_rests)
qed

section \<open>The properties\<close>

text \<open>C12: Whatever the interleaving, \<open>master_wait\<close> answers only when every worker has reported in this
  phase; it gives a running time only if none reported an error, else the message of a worker that
  did; and the exception for an unexpected status is never thrown.
\<close>

theorem master_wait_answer:
  assumes "0 < c" "\<forall>a \<in> set as. works_below (unat c) a"
  shows "(case master (sync_run c as (sync_new g)) of
      Returned r \<Rightarrow>
        (\<forall>i < unat c. reports (sync_run c as (sync_new g)) i \<noteq> None) \<and>
        (case r of
           Runtime _ \<Rightarrow> \<forall>i < unat c. reports (sync_run c as (sync_new g)) i = Some None
         | Message m \<Rightarrow> m \<noteq> None \<and> (\<exists>i < unat c. reports (sync_run c as (sync_new g)) i = Some m)
         | _ \<Rightarrow> False)
    | Thrown r \<Rightarrow> r = Overrun
    | _ \<Rightarrow> True)"
  using returned_answered [OF sync_reached [OF assms]] thrown_overrun [OF sync_reached [OF assms]]
  by (auto simp: answered_def split: master_place.splits)

text \<open>Two workers, of which the second reports an error.\<close>

definition failing_phase :: "action list" where
  "failing_phase = [Notify None, Notify None, Work 0 None None, Work 0 None None, Work 1 None None, Work 1 None None,
     Work 1 None None, Work 1 None None, Work 1 (Some ''bad'') None, Work 1 None None, Work 1 None None, Work 1 None None,
     Work 0 None None, Work 0 None None, Work 0 None None, Work 0 None None, Work 0 None None, Work 0 None None,
     Work 0 None None, Work 0 None None, Await invalid_tick False, Await invalid_tick False, Await invalid_tick False]"

lemmas sync_eval = failing_phase_def sync_new_def goto_def master_notify_def master_wait_def master_join_def worker_access
  latch_wait_def rests_def chrono_start_def chrono_stop_def chrono_delta_def

lemma failing_phase_answer: "master (sync_run 2 failing_phase (sync_new 0)) = Returned (Message (Some ''bad''))"
  by (simp add: sync_eval)

lemma master_wait_answer_witness: "\<exists>i < unat (2 :: 32 word). reports (sync_run 2 failing_phase (sync_new 0)) i = Some (Some ''bad'')"
proof -
  have "\<forall>a \<in> set failing_phase. works_below (unat (2 :: 32 word)) a" by (simp add: failing_phase_def)
  from master_wait_answer [OF _ this, of 0] show ?thesis by (simp add: failing_phase_answer)
qed

text \<open>C24: A phase never gets stuck: while the master waits and the latch is down, some worker's next
  step takes it further, whatever the interleaving so far.
\<close>

theorem sync_progress:
  assumes "0 < c" "\<forall>a \<in> set as. works_below (unat c) a"
    and "master (sync_run c as (sync_new g)) = Blocked" "\<not> raised (sync_run c as (sync_new g))"
  shows "\<exists>i < unat c. \<forall>e t. worker (sync_step c (Work i e t) (sync_run c as (sync_new g))) i \<noteq>
    worker (sync_run c as (sync_new g)) i"
  using sync_acts [OF sync_reached [OF assms(1,2)] _ assms(4)] assms(3) by (simp only: acts_def busy_def) simp

lemma sync_progress_witness:
  "\<exists>i < unat (2 :: 32 word). \<forall>e t. worker (sync_step 2 (Work i e t) (sync_run 2 (take 8 failing_phase) (sync_new 0))) i \<noteq>
    worker (sync_run 2 (take 8 failing_phase) (sync_new 0)) i"
  by (rule sync_progress) (simp_all add: sync_eval)

section \<open>What the running time is\<close>

text \<open>
  A phase of one worker, started at \<open>a\<close> and stopped at \<open>b\<close>; and one in which the worker is through
  before the master has started the chronometer, which it does only after it has let the workers go.
\<close>

definition phase :: "(64 word \<times> 64 word) option \<Rightarrow> (64 word \<times> 64 word) option \<Rightarrow> action list" where
  "phase a b = [Notify None, Notify a] @ replicate 9 (Work 0 None None) @ [Work 0 None b, Work 0 None None, Await invalid_tick False, Await invalid_tick False]"

definition quick_phase :: "(64 word \<times> 64 word) option \<Rightarrow> (64 word \<times> 64 word) option \<Rightarrow> action list" where
  "quick_phase a b = [Notify None] @ replicate 9 (Work 0 None None) @ [Work 0 None b, Work 0 None None, Notify a, Await invalid_tick False, Await invalid_tick False]"

lemma two_phases:
  "master (sync_run 1 (phase a b @ phase c d) (sync_new g)) =
     Returned (Runtime ((chrono_convert b - chrono_convert a) + (chrono_convert d - chrono_convert c)))"
  by (simp add: sync_eval phase_def numeral_eq_Suc)

text \<open>
  In any schedule: a phase begins when the master at rest notifies; its lap is the time from the
  last start of the chronometer, by the master, to its stop, by the last worker to report.
\<close>

definition begins :: "action \<Rightarrow> sync \<Rightarrow> nat" where
  "begins a w = (case a of Notify t \<Rightarrow> if rests (master w) then 1 else 0 | _ \<Rightarrow> 0)"

definition started_at :: "action \<Rightarrow> sync \<Rightarrow> 64 word \<Rightarrow> 64 word" where
  "started_at a w from = (case a of Notify t \<Rightarrow> if master w = Starting then chrono_convert t else from | _ \<Rightarrow> from)"

definition lap_of :: "action \<Rightarrow> sync \<Rightarrow> 64 word \<Rightarrow> 64 word list" where
  "lap_of a w from = (case a of Work i e t \<Rightarrow> if worker w i = Stopping then [chrono_convert t - from] else [] | _ \<Rightarrow> [])"

primrec phases :: "32 word \<Rightarrow> action list \<Rightarrow> sync \<Rightarrow> nat" where
  "phases c [] w = 0"
| "phases c (a # as) w = begins a w + phases c as (sync_step c a w)"

primrec laps :: "32 word \<Rightarrow> action list \<Rightarrow> sync \<Rightarrow> 64 word \<Rightarrow> 64 word list" where
  "laps c [] w from = []"
| "laps c (a # as) w from = lap_of a w from @ laps c as (sync_step c a w) (started_at a w from)"

text \<open>The lap of the phase is still to come.\<close>

definition pending :: "nat \<Rightarrow> sync \<Rightarrow> nat" where
  "pending n w = (if busy (master w) \<and> \<not> raised w \<and> (\<forall>i < n. worker w i \<noteq> Raising) then 1 else 0)"

definition told_total :: "sync \<Rightarrow> bool" where
  "told_total w \<longleftrightarrow> (\<forall>x. master w = Returned (Runtime x) \<longrightarrow> x = total (runtime w))"

lemma stopping_pending:
  assumes "sync_inv n w" and "worker w i = Stopping" and "i < n"
  shows "busy (master w) \<and> \<not> raised w \<and> (\<forall>j < n. j \<noteq> i \<longrightarrow> worker w j = Waiting)"
  using assms(1)
proof (cases rule: sync_inv.cases)
  case (closing j)
  then show ?thesis using assms(2,3) unfolding closing_def by (metis worker_place.distinct(23))
qed (use assms(2,3) in \<open>auto simp: idle_def gathering_def releasing_def working_def works_def closed_def quitting_def\<close>)

lemma other_step:
  assumes "worker w i \<notin> {Stopping, Raising}"
  shows "\<exists>p. p \<noteq> Raising \<and> worker (sync_step c (Work i e t) w) = (worker w)(i := p)"
    and "master (sync_step c (Work i e t) w) = master w" and "raised (sync_step c (Work i e t) w) = raised w"
    and "runtime (sync_step c (Work i e t) w) = runtime w"
  using assms by (cases "worker w i"; auto simp: worker_access fun_upd_idem split: option.splits)+

lemma work_timed:
  assumes "sync_inv n w" and i: "i < n"
  shows "length (lap_of (Work i e t) w from) + pending n (sync_step c (Work i e t) w) = pending n w"
    and "total (runtime (sync_step c (Work i e t) w)) =
      total (runtime w) + sum_list (lap_of (Work i e t) w (segment (runtime w)))"
    and "segment (runtime (sync_step c (Work i e t) w)) = segment (runtime w)"
    and "told_total w \<Longrightarrow> told_total (sync_step c (Work i e t) w)"
proof -
  let ?w = "sync_step c (Work i e t) w"
  consider (stop) "worker w i = Stopping" | (raise) "worker w i = Raising" | (other) "worker w i \<notin> {Stopping, Raising}" by blast
  then have "length (lap_of (Work i e t) w from) + pending n ?w = pending n w \<and>
      total (runtime ?w) = total (runtime w) + sum_list (lap_of (Work i e t) w (segment (runtime w))) \<and>
      segment (runtime ?w) = segment (runtime w) \<and> (told_total w \<longrightarrow> told_total ?w)"
  proof cases
    case stop
    note p = stopping_pending [OF assms(1) stop i]
    have "pending n w = 1" using p stop by (fastforce simp: pending_def)
    moreover have "pending n ?w = 0" using stop i by (auto simp: pending_def worker_notify_def)
    moreover have "told_total ?w" using p stop by (simp add: told_total_def worker_notify_def) (auto simp: busy_def)
    ultimately show ?thesis using stop by (simp add: lap_of_def worker_notify_def chrono_stop_def chrono_delta_def)
  next
    case raise
    then show ?thesis using i by (auto simp: lap_of_def worker_notify_def pending_def told_total_def latch_raise_def)
  next
    case other
    note o = other_step [OF other, of c e t]
    obtain p where p: "p \<noteq> Raising" "worker ?w = (worker w)(i := p)" using o(1) by blast
    have "(\<forall>j < n. worker ?w j \<noteq> Raising) \<longleftrightarrow> (\<forall>j < n. worker w j \<noteq> Raising)" using p other by auto
    then show ?thesis using o(2-4) other by (simp add: lap_of_def pending_def told_total_def del: sync_step.simps)
  qed
  then show "length (lap_of (Work i e t) w from) + pending n ?w = pending n w"
    "total (runtime ?w) = total (runtime w) + sum_list (lap_of (Work i e t) w (segment (runtime w)))"
    "segment (runtime ?w) = segment (runtime w)" "told_total w \<Longrightarrow> told_total ?w" by blast+
qed

lemma master_timed:
  assumes "sync_inv n w" and a: "a \<in> {Notify t, Await maxtick over, Join}"
  shows "pending n (sync_step c a w) = begins a w + pending n w"
    and "total (runtime (sync_step c a w)) = total (runtime w)"
    and "segment (runtime (sync_step c a w)) = started_at a w (segment (runtime w))"
    and "told_total w \<Longrightarrow> told_total (sync_step c a w)"
proof -
  have r: "\<not> raised w \<and> (\<forall>i < n. worker w i \<noteq> Raising) \<and> \<not> busy (master w)" if "rests (master w)"
    using resting_idle [OF assms(1) that] busy_rests that by (auto simp: idle_def)
  consider "a = Notify t" | "a = Await maxtick over" | "a = Join" using a by blast
  then have "pending n (sync_step c a w) = begins a w + pending n w \<and>
      total (runtime (sync_step c a w)) = total (runtime w) \<and>
      segment (runtime (sync_step c a w)) = started_at a w (segment (runtime w)) \<and>
      (told_total w \<longrightarrow> told_total (sync_step c a w))"
  proof cases
    case 1
    then show ?thesis using r
      by (auto simp: master_notify_def begins_def pending_def busy_def started_at_def chrono_start_def told_total_def rests_def)
  next
    case 2
    then show ?thesis
      by (auto simp: master_wait_def begins_def pending_def busy_def started_at_def told_total_def latch_wait_def
          split: master_place.splits status.splits)
  next
    case 3
    then show ?thesis using r
      by (auto simp: master_join_def begins_def pending_def busy_def started_at_def told_total_def)
  qed
  then show "pending n (sync_step c a w) = begins a w + pending n w"
    "total (runtime (sync_step c a w)) = total (runtime w)"
    "segment (runtime (sync_step c a w)) = started_at a w (segment (runtime w))"
    "told_total w \<Longrightarrow> told_total (sync_step c a w)" by blast+
qed

lemma run_timed:
  assumes "sync_inv (unat c) w" and "0 < c" and "\<forall>a \<in> set as. works_below (unat c) a" and "told_total w"
  shows "length (laps c as w (segment (runtime w))) + pending (unat c) (sync_run c as w) = phases c as w + pending (unat c) w \<and>
    total (runtime (sync_run c as w)) = total (runtime w) + sum_list (laps c as w (segment (runtime w))) \<and>
    told_total (sync_run c as w)"
  using assms
proof (induction as arbitrary: w)
  case (Cons a as)
  let ?w = "sync_step c a w"
  have inv: "sync_inv (unat c) ?w" using sync_step_inv [OF Cons.prems(1,2)] Cons.prems(3) by simp
  have step: "length (lap_of a w (segment (runtime w))) + pending (unat c) ?w = begins a w + pending (unat c) w \<and>
      total (runtime ?w) = total (runtime w) + sum_list (lap_of a w (segment (runtime w))) \<and>
      segment (runtime ?w) = started_at a w (segment (runtime w)) \<and> told_total ?w"
  proof (cases a)
    case (Work i e t)
    then have "i < unat c" using Cons.prems(3) by simp
    from work_timed [OF Cons.prems(1) this] Cons.prems(4) Work show ?thesis by (simp add: begins_def started_at_def)
  next
    case (Notify t)
    then show ?thesis using master_timed [OF Cons.prems(1), of a t] Cons.prems(4) by (simp add: lap_of_def)
  next
    case (Await mt ov)
    then show ?thesis using master_timed [OF Cons.prems(1), of a _ mt ov] Cons.prems(4) by (simp add: lap_of_def)
  next
    case Join
    then show ?thesis using master_timed [OF Cons.prems(1), of a] Cons.prems(4) by (simp add: lap_of_def)
  qed
  moreover have "\<forall>a \<in> set as. works_below (unat c) a" using Cons.prems(3) by simp
  ultimately show ?case using Cons.IH [OF inv Cons.prems(2)] by (simp del: sync_step.simps)
qed simp

text \<open>C40: The total of the chronometer is never reset. In every schedule of the master and any number of
  workers, when \<open>master_wait\<close> has answered, there is one lap for each phase begun so far, and a
  running time it gives is the sum of the laps of all of them, not the lap of the last phase, which
  is what it is taken for.\<close>

theorem runtime_accumulates:
  assumes "0 < c" and "\<forall>a \<in> set as. works_below (unat c) a"
    and "master (sync_run c as (sync_new g)) = Returned r"
  shows "length (laps c as (sync_new g) g) = phases c as (sync_new g) \<and>
    (\<forall>x. r = Runtime x \<longrightarrow> x = sum_list (laps c as (sync_new g) g))"
proof -
  have new: "told_total (sync_new g)" "total (runtime (sync_new g)) = 0" "segment (runtime (sync_new g)) = g"
    "pending (unat c) (sync_new g) = 0"
    by (simp_all add: told_total_def pending_def sync_new_def busy_def)
  have "pending (unat c) (sync_run c as (sync_new g)) = 0" using assms(3) by (simp add: pending_def busy_def)
  with run_timed [OF sync_inv_new assms(1,2) new(1)] new(2-4) assms(3) show ?thesis by (auto simp: told_total_def)
qed

lemma two_laps:
  "laps 1 (phase a b @ phase c d) (sync_new g) g = [chrono_convert b - chrono_convert a, chrono_convert d - chrono_convert c]"
  by (simp add: sync_eval phase_def numeral_eq_Suc lap_of_def started_at_def)

lemma runtime_accumulates_witness:
  "laps 1 (phase (Some (0, 1)) (Some (0, 4)) @ phase (Some (0, 10)) (Some (0, 15))) (sync_new 0) 0 = [3, 5] \<and>
     (8 :: 64 word) = sum_list [3, 5] \<and> phases 1 (phase (Some (0, 1)) (Some (0, 4)) @ phase (Some (0, 10)) (Some (0, 15))) (sync_new 0) = 2"
proof -
  let ?as = "phase (Some (0, 1)) (Some (0, 4)) @ phase (Some (0, 10)) (Some (0, 15))"
  have w: "\<forall>a \<in> set ?as. works_below (unat (1 :: 32 word)) a" by (simp add: phase_def)
  have m: "master (sync_run 1 ?as (sync_new 0)) = Returned (Runtime 8)"
    unfolding two_phases by (simp add: invalid_tick_def)
  have l: "laps 1 ?as (sync_new 0) 0 = [3, 5]"
    unfolding two_laps by (simp add: invalid_tick_def)
  from runtime_accumulates [OF _ w m] l show ?thesis by simp
qed

text \<open>A worker that is quick enough stops a chronometer that was not started.\<close>

theorem runtime_unstarted:
  "master (sync_run 1 (quick_phase a b) (sync_new g)) = Returned (Runtime (chrono_convert b - g))"
  by (simp add: sync_eval quick_phase_def numeral_eq_Suc)

end
