(* ===== verification/Measure.thy ===== *)
theory Measure
  imports Sync
begin

text \<open>
  \<open>measure\<close> of \<open>grading/grading.cpp\<close>: the master and the function every worker thread runs, over the
  steps of \<open>Sync\<close>. What a job of the workload reports, or that it throws, is an input of the step
  that ends it; the theorem says what the result of \<open>measure\<close> tells about the reports.
\<close>

section \<open>The threads\<close>

text \<open>A job, \<open>init\<close>, \<open>run\<close> or \<open>check\<close> of the workload, returns a report or throws.\<close>

datatype job_result = Report "string option" | Raise

text \<open>
  \<open>g_phase\<close> counts the phases the master has started, \<open>g_job\<close> the jobs a worker has been let into,
  \<open>g_left\<close> says that the function of a worker is in its handler, after which it returns;
  \<open>g_history\<close> records the reports of the phases the master has seen end.
\<close>

record grader =
  g_sync :: sync
  g_phase :: nat
  g_job :: "nat \<Rightarrow> nat"
  g_left :: "nat \<Rightarrow> bool"
  g_ticks :: "64 word list"
  g_error :: "string option"
  g_history :: "(nat \<Rightarrow> string option option) list"

definition grader_new :: "64 word \<Rightarrow> grader" where
  "grader_new garbage = \<lparr>g_sync = sync_new garbage, g_phase = 0, g_job = (\<lambda>_. 0), g_left = (\<lambda>_. False),
     g_ticks = [], g_error = None, g_history = []\<rparr>"

text \<open>
  One job for the initialisation, one per repetition and one for the check; being let in once more
  is an exception too.
\<close>

definition jobs :: "nat \<Rightarrow> nat" where
  "jobs nbrepeats = 1 + nbrepeats + 1"

definition worker_turn ::
  "32 word \<Rightarrow> nat \<Rightarrow> nat \<Rightarrow> job_result \<Rightarrow> (64 word \<times> 64 word) option \<Rightarrow> grader \<Rightarrow> grader" where
  "worker_turn nbthreads nbrepeats i result t g =
     (let w = g_sync g;
          r = (if jobs nbrepeats < g_job g i then Raise else result);
          error = (case r of Report e \<Rightarrow> e | Raise \<Rightarrow> Some ''Internal worker exception(s)'');
          w' = sync_step nbthreads (Work i error t) w in
      if g_left g i \<and> worker w i = Waiting then g
      else g\<lparr>g_sync := w',
             g_job := (if worker w i \<noteq> Working \<and> worker w' i = Working then (g_job g)(i := Suc (g_job g i)) else g_job g),
             g_left := (if worker w i = Working \<and> r = Raise then (g_left g)(i := True) else g_left g)\<rparr>)"

definition start_phase :: "grader \<Rightarrow> grader" where
  "start_phase g = g\<lparr>g_sync := master_notify None (g_sync g), g_phase := Suc (g_phase g)\<rparr>"

text \<open>The limits for the initialisation, a repetition and the check.\<close>

definition tick_limit :: "64 word \<Rightarrow> 64 word \<Rightarrow> 64 word \<Rightarrow> nat \<Rightarrow> nat \<Rightarrow> 64 word" where
  "tick_limit maxtick_init maxtick_perf maxtick_chck nbrepeats k =
     (if k = 1 then maxtick_init else if k \<le> 1 + nbrepeats then maxtick_perf else maxtick_chck)"

definition master_turn ::
  "(nat \<Rightarrow> 64 word) \<Rightarrow> nat \<Rightarrow> (64 word \<times> 64 word) option \<Rightarrow> bool \<Rightarrow> grader \<Rightarrow> grader" where
  "master_turn limit nbrepeats t over g =
     (case master (g_sync g) of
        Fresh \<Rightarrow> start_phase g
      | Starting \<Rightarrow> g\<lparr>g_sync := master_notify t (g_sync g)\<rparr>
      | Returned (Message m) \<Rightarrow>
          g\<lparr>g_error := m, g_history := g_history g @ [reports (g_sync g)], g_sync := master_join (g_sync g)\<rparr>
      | Returned (Runtime ticks) \<Rightarrow>
          (let g = g\<lparr>g_ticks := g_ticks g @ [ticks], g_history := g_history g @ [reports (g_sync g)]\<rparr> in
           if g_phase g < jobs nbrepeats then start_phase g else g\<lparr>g_sync := master_join (g_sync g)\<rparr>)
      | _ \<Rightarrow> g\<lparr>g_sync := master_wait (limit (g_phase g)) over (g_sync g)\<rparr>)"

datatype turn = Master "(64 word \<times> 64 word) option" bool | Worker nat job_result "(64 word \<times> 64 word) option"

fun measure_step :: "32 word \<Rightarrow> nat \<Rightarrow> (nat \<Rightarrow> 64 word) \<Rightarrow> turn \<Rightarrow> grader \<Rightarrow> grader" where
  "measure_step nbthreads nbrepeats limit (Master t over) g = master_turn limit nbrepeats t over g"
| "measure_step nbthreads nbrepeats limit (Worker i r t) g = worker_turn nbthreads nbrepeats i r t g"

primrec measure_run :: "32 word \<Rightarrow> nat \<Rightarrow> (nat \<Rightarrow> 64 word) \<Rightarrow> turn list \<Rightarrow> grader \<Rightarrow> grader" where
  "measure_run nbthreads nbrepeats limit [] g = g"
| "measure_run nbthreads nbrepeats limit (x # xs) g =
     measure_run nbthreads nbrepeats limit xs (measure_step nbthreads nbrepeats limit x g)"

fun turn_below :: "nat \<Rightarrow> turn \<Rightarrow> bool" where
  "turn_below n (Worker i _ _) = (i < n)"
| "turn_below n (Master _ _) = True"

text \<open>
  The result, once the master has joined every thread: the error, and if there is none the times of
  the initialisation, of the median repetition and of the check.
\<close>

definition joined :: "nat \<Rightarrow> grader \<Rightarrow> bool" where
  "joined n g \<longleftrightarrow> master (g_sync g) = Joined \<and>
     (\<forall>i < n. worker (g_sync g) i = Gone \<or> g_left g i \<and> worker (g_sync g) i = Waiting)"

definition measure_result :: "nat \<Rightarrow> nat \<Rightarrow> grader \<Rightarrow> (string + 64 word \<times> 64 word \<times> 64 word) option" where
  "measure_result n nbrepeats g =
     (if \<not> joined n g then None
      else case g_error g of
        Some m \<Rightarrow> Some (Inl m)
      | None \<Rightarrow>
          if nbrepeats = 0 then None
          else Some (Inr (hd (g_ticks g), sort (take nbrepeats (tl (g_ticks g))) ! (nbrepeats div 2), last (g_ticks g))))"

section \<open>The workers keep pace with the master\<close>

text \<open>A worker that has not been let into the job of this phase yet.\<close>

definition behind :: "sync \<Rightarrow> nat \<Rightarrow> bool" where
  "behind w i \<longleftrightarrow> status w = Wait \<or> worker w i = Spinning"

definition paced :: "nat \<Rightarrow> grader \<Rightarrow> bool" where
  "paced n g \<longleftrightarrow> (\<forall>i < n. g_job g i + (if behind (g_sync g) i then 1 else 0) = g_phase g)"

lemma at_counting:
  assumes "sync_inv n w" "i < n" "worker w i = Counting"
  shows "status w = Wait"
  using assms(1)
proof (cases rule: sync_inv.cases)
  case (closing j)
  then show ?thesis using assms(2,3) by (cases "i = j") (auto simp: closing_def)
qed (use assms(2,3) in \<open>auto simp: idle_def gathering_def releasing_def working_def works_def closed_def quitting_def\<close>)

lemma at_releasing:
  assumes "sync_inv n w" "i < n" "worker w i = Releasing"
  shows "status w = Wait \<and> (\<forall>j < n. j \<noteq> i \<longrightarrow> worker w j = Spinning)"
  using assms(1)
proof (cases rule: sync_inv.cases)
  case (closing j)
  then show ?thesis using assms(2,3) by (cases "i = j") (auto simp: closing_def)
next
  case (releasing j)
  then show ?thesis using assms(2,3) by (cases "i = j") (auto simp: releasing_def)
next
  case working
  then have "works n w i" using assms(2) by (simp add: working_def)
  then show ?thesis using assms(3) by (simp add: works_def)
qed (use assms(2,3) in \<open>auto simp: idle_def gathering_def closed_def quitting_def\<close>)

lemma at_closing:
  assumes "sync_inv n w" "i < n" "worker w i = Aborting \<or> worker w i = Closing s"
  shows "status w \<noteq> Wait \<and> (worker w i = Closing s \<longrightarrow> s \<noteq> Wait)"
  using assms(1)
proof (cases rule: sync_inv.cases)
  case working
  then show ?thesis using assms(2,3) by (auto simp: working_def works_def)
next
  case (closing j)
  then show ?thesis using assms(2,3) by (cases "i = j") (auto simp: closing_def verdict_def)
qed (use assms(2,3) in \<open>auto simp: idle_def gathering_def releasing_def closed_def quitting_def\<close>)

lemma worker_behind:
  assumes inv: "sync_inv n w" and i: "i < n" and j: "j < n" and w': "w' = sync_step c (Work i e t) w"
  shows "behind w' j \<longleftrightarrow> behind w j \<and> \<not> (j = i \<and> worker w i \<noteq> Working \<and> worker w' i = Working)"
    and "worker w i \<noteq> Working \<and> worker w' i = Working \<Longrightarrow> behind w i"
proof -
  note w' [simp] behind_def [simp] worker_access [simp]
  show "behind w' j \<longleftrightarrow> behind w j \<and> \<not> (j = i \<and> worker w i \<noteq> Working \<and> worker w' i = Working)"
  proof (cases "worker w i")
    case Releasing
    then show ?thesis using at_releasing [OF inv i] j by (cases "j = i") auto
  next
    case Counting
    then show ?thesis using at_counting [OF inv i] by auto
  next
    case Aborting
    then show ?thesis using at_closing [OF inv i] by auto
  next
    case (Closing s)
    then show ?thesis using at_closing [OF inv i] by auto
  qed (auto split: option.splits)
  show "worker w i \<noteq> Working \<and> worker w' i = Working \<Longrightarrow> behind w i"
    using at_releasing [OF inv i] by (cases "worker w i") (auto split: if_splits option.splits)
qed

lemma worker_paced:
  assumes inv: "sync_inv (unat c) (g_sync g)" and p: "paced (unat c) g" and i: "i < unat c"
  shows "paced (unat c) (worker_turn c nr i r t g)"
proof (cases "g_left g i \<and> worker (g_sync g) i = Waiting")
  case True
  then show ?thesis using p by (simp add: worker_turn_def)
next
  case False
  obtain e where e: "g_sync (worker_turn c nr i r t g) = sync_step c (Work i e t) (g_sync g)"
    "g_job (worker_turn c nr i r t g) =
       (if worker (g_sync g) i \<noteq> Working \<and> worker (sync_step c (Work i e t) (g_sync g)) i = Working
        then (g_job g)(i := Suc (g_job g i)) else g_job g)"
    "g_phase (worker_turn c nr i r t g) = g_phase g"
    using False by (simp add: worker_turn_def Let_def)
  show ?thesis
    using p worker_behind [OF inv i _ refl, of _ c e t] i unfolding paced_def e
    by (auto simp del: sync_step.simps split: if_splits)
qed

lemma notify_behind: "rests (master w) \<Longrightarrow> behind (master_notify t w) i"
  by (simp add: behind_def master_notify_def)

lemma start_behind: "master w = Starting \<Longrightarrow> behind (master_notify t w) i = behind w i"
  by (simp add: behind_def master_notify_def rests_def)

lemma wait_behind: "behind (master_wait m over w) i = behind w i"
  by (auto simp: behind_def master_wait_def split: master_place.splits option.splits status.splits)

lemma rest_not_behind: "sync_inv n w \<Longrightarrow> rests (master w) \<Longrightarrow> i < n \<Longrightarrow> \<not> behind w i"
  using resting_idle [of n w] by (auto simp: behind_def idle_def)

lemma join_behind: "sync_inv n w \<Longrightarrow> rests (master w) \<Longrightarrow> i < n \<Longrightarrow> \<not> behind (master_join w) i"
  using rest_not_behind [of n w i] by (simp add: behind_def master_join_def)

lemma start_paced:
  assumes "sync_inv n (g_sync g)" "paced n g" "rests (master (g_sync g))" "g_sync h = g_sync g" "g_job h = g_job g" "g_phase h = g_phase g"
  shows "paced n (start_phase h)" and "paced n (h\<lparr>g_sync := master_join (g_sync h)\<rparr>)"
  using assms rest_not_behind [OF assms(1,3)] join_behind [OF assms(1,3)] notify_behind [OF assms(3)]
  by (auto simp: paced_def start_phase_def)

section \<open>What the result tells\<close>

definition clean_phase :: "nat \<Rightarrow> (nat \<Rightarrow> string option option) \<Rightarrow> bool" where
  "clean_phase n r \<longleftrightarrow> (\<forall>i < n. r i = Some None)"

text \<open>The verdict on the phases that have ended: the master stops at the first that is not clean.\<close>

definition told :: "nat \<Rightarrow> nat \<Rightarrow> grader \<Rightarrow> bool" where
  "told n nbrepeats g \<longleftrightarrow>
     (case master (g_sync g) of
        Fresh \<Rightarrow> g_phase g = 0 \<and> g_history g = [] \<and> g_error g = None
      | Joined \<Rightarrow> g_phase g \<le> jobs nbrepeats \<and>
          (case g_error g of
             None \<Rightarrow> length (g_history g) = jobs nbrepeats \<and> list_all (clean_phase n) (g_history g)
           | Some m \<Rightarrow> \<exists>hs h. g_history g = hs @ [h] \<and> length hs < jobs nbrepeats \<and> list_all (clean_phase n) hs \<and>
               (\<exists>i < n. h i = Some (Some m)))
      | _ \<Rightarrow> g_error g = None \<and> Suc (length (g_history g)) = g_phase g \<and> g_phase g \<le> jobs nbrepeats \<and>
          list_all (clean_phase n) (g_history g))"

lemma worker_master: "master (sync_step c (Work i e t) w) = master w"
  by (auto simp: worker_access split: worker_place.splits option.splits)

lemma worker_turn_keeps:
  "master (g_sync (worker_turn c nr i r t g)) = master (g_sync g)" "g_phase (worker_turn c nr i r t g) = g_phase g"
  "g_error (worker_turn c nr i r t g) = g_error g" "g_history (worker_turn c nr i r t g) = g_history g"
  by (simp_all add: worker_turn_def Let_def worker_master del: sync_step.simps)

lemma worker_told: "told n nr g \<Longrightarrow> told n nr (worker_turn c nr i r t g)"
  unfolding told_def worker_turn_keeps .

lemma returned_runtime:
  "sync_inv n w \<Longrightarrow> master w = Returned (Runtime x) \<Longrightarrow> clean_phase n (reports w)"
  using returned_answered [of n w] by (simp add: answered_def clean_phase_def)

lemma returned_message:
  "sync_inv n w \<Longrightarrow> master w = Returned (Message m) \<Longrightarrow> \<exists>e. m = Some e \<and> (\<exists>i < n. reports w i = Some (Some e))"
  using returned_answered [of n w] by (auto simp: answered_def)

lemma returned_cases:
  "sync_inv n w \<Longrightarrow> master w = Returned r \<Longrightarrow> (\<exists>x. r = Runtime x) \<or> (\<exists>m. r = Message m)"
  using returned_answered [of n w] by (cases r) (auto simp: answered_def)

definition grader_inv :: "nat \<Rightarrow> nat \<Rightarrow> grader \<Rightarrow> bool" where
  "grader_inv n nbrepeats g \<longleftrightarrow> sync_inv n (g_sync g) \<and> paced n g \<and> told n nbrepeats g"

lemma worker_grader_inv:
  assumes "grader_inv (unat c) nr g" "i < unat c"
  shows "grader_inv (unat c) nr (worker_turn c nr i r t g)"
proof -
  have "sync_inv (unat c) (g_sync (worker_turn c nr i r t g))"
    using worker_inv [OF _ assms(2)] assms(1)
    by (simp add: worker_turn_def Let_def grader_inv_def del: sync_step.simps)
  then show ?thesis using assms worker_paced worker_told by (simp add: grader_inv_def)
qed

lemma started_told:
  assumes "rests (master (g_sync g))" "g_error g = None" "length (g_history g) = g_phase g" "g_phase g < jobs nr"
    "list_all (clean_phase n) (g_history g)"
  shows "told n nr (start_phase g)"
  using assms by (simp add: told_def start_phase_def master_notify_def)

lemma start_grader_inv:
  assumes "sync_inv n (g_sync h)" "paced n h" "0 < n" "rests (master (g_sync h))" "g_error h = None"
    "length (g_history h) = g_phase h" "g_phase h < jobs nr" "list_all (clean_phase n) (g_history h)"
  shows "grader_inv n nr (start_phase h)"
  using notify_inv [OF assms(1,3)] start_paced(1) [OF assms(1,2,4) refl refl refl] started_told [OF assms(4-8)]
  by (simp add: grader_inv_def start_phase_def)

lemma waiting_grader_inv:
  assumes "grader_inv n nr g" "master (g_sync g) \<in> {Blocked, Loading, Fetching, Joined} \<or> (\<exists>r. master (g_sync g) = Thrown r)"
  shows "grader_inv n nr (g\<lparr>g_sync := master_wait m over (g_sync g)\<rparr>)"
proof -
  have "paced n (g\<lparr>g_sync := master_wait m over (g_sync g)\<rparr>)" using assms(1) by (simp add: grader_inv_def paced_def wait_behind)
  moreover have "told n nr (g\<lparr>g_sync := master_wait m over (g_sync g)\<rparr>)"
    using assms by (auto simp: grader_inv_def told_def master_wait_def split: option.splits status.splits)
  ultimately show ?thesis using wait_inv assms(1) by (simp add: grader_inv_def)
qed

lemma master_grader_inv:
  assumes inv: "grader_inv n nr g" and n: "0 < n"
  shows "grader_inv n nr (master_turn limit nr t over g)"
proof -
  have s: "sync_inv n (g_sync g)" and p: "paced n g" and v: "told n nr g" using inv by (simp_all add: grader_inv_def)
  show ?thesis
  proof (cases "master (g_sync g)")
    case Fresh
    then show ?thesis using start_grader_inv [OF s p n, of nr] v
      by (simp add: master_turn_def rests_def told_def jobs_def)
  next
    case Starting
    have "paced n (g\<lparr>g_sync := master_notify t (g_sync g)\<rparr>)" using p Starting by (simp add: paced_def start_behind)
    then show ?thesis using notify_inv [OF s n] v Starting
      by (simp add: master_turn_def grader_inv_def told_def master_notify_def rests_def)
  next
    case (Returned r)
    then have rest: "rests (master (g_sync g))" by (simp add: rests_def)
    show ?thesis
      using returned_cases [OF s Returned]
    proof (elim disjE exE)
      fix x assume r: "r = Runtime x"
      define h where "h = g\<lparr>g_ticks := g_ticks g @ [x], g_history := g_history g @ [reports (g_sync g)]\<rparr>"
      have cl: "clean_phase n (reports (g_sync g))" using returned_runtime [OF s] Returned r by simp
      have h: "g_sync h = g_sync g" "g_job h = g_job g" "g_phase h = g_phase g" "g_error h = None"
        "length (g_history h) = g_phase h" "g_phase h \<le> jobs nr" "list_all (clean_phase n) (g_history h)"
        using v Returned cl by (simp_all add: h_def told_def)
      show ?thesis
      proof (cases "g_phase h < jobs nr")
        case True
        have "grader_inv n nr (start_phase h)"
          by (rule start_grader_inv) (use s p n rest h True in \<open>simp_all add: paced_def\<close>)
        then show ?thesis using Returned r True by (simp add: master_turn_def h_def)
      next
        case False
        have "told n nr (h\<lparr>g_sync := master_join (g_sync h)\<rparr>)"
          using h rest False by (simp add: told_def master_join_def)
        then have "grader_inv n nr (h\<lparr>g_sync := master_join (g_sync h)\<rparr>)"
          using join_inv [OF s] start_paced(2) [OF s p rest h(1-3)] h by (simp add: grader_inv_def)
        then show ?thesis using Returned r False by (simp add: master_turn_def h_def)
      qed
    next
      fix m assume r: "r = Message m"
      then obtain e i where e: "m = Some e" "i < n" "reports (g_sync g) i = Some (Some e)"
        using returned_message [OF s] Returned by blast
      define h where "h = g\<lparr>g_error := m, g_history := g_history g @ [reports (g_sync g)]\<rparr>"
      have h: "g_sync h = g_sync g" "g_job h = g_job g" "g_phase h = g_phase g" by (simp_all add: h_def)
      have "told n nr (h\<lparr>g_sync := master_join (g_sync h)\<rparr>)"
        using v Returned e rest by (auto simp: told_def master_join_def h_def)
      then have "grader_inv n nr (h\<lparr>g_sync := master_join (g_sync h)\<rparr>)"
        using join_inv [OF s] start_paced(2) [OF s p rest h] h by (simp add: grader_inv_def)
      then show ?thesis using Returned r by (simp add: master_turn_def h_def)
    qed
  qed (use waiting_grader_inv [OF inv] in \<open>simp_all add: master_turn_def\<close>)
qed

lemma grader_inv_new: "grader_inv n nr (grader_new z)"
  using sync_inv_new [of n z]
  by (simp add: grader_inv_def grader_new_def paced_def told_def behind_def sync_new_def)

lemma measure_run_inv:
  "grader_inv (unat c) nr g \<Longrightarrow> 0 < c \<Longrightarrow> (\<forall>x \<in> set xs. turn_below (unat c) x) \<Longrightarrow>
   grader_inv (unat c) nr (measure_run c nr limit xs g)"
proof (induction xs arbitrary: g)
  case (Cons x xs)
  have "0 < unat c" using Cons.prems(2) by (simp add: word_less_nat_alt)
  then have "grader_inv (unat c) nr (measure_step c nr limit x g)"
    using Cons.prems by (cases x) (simp_all add: master_grader_inv worker_grader_inv)
  with Cons show ?case by simp
qed simp

lemma at_working:
  assumes "sync_inv n w" "i < n" "worker w i = Working"
  shows "\<not> behind w i"
  using assms(1)
proof (cases rule: sync_inv.cases)
  case (closing j)
  then show ?thesis using assms(2,3) by (cases "i = j") (auto simp: closing_def)
next
  case (releasing j)
  then show ?thesis using assms(2,3) by (cases "i = j") (auto simp: releasing_def)
qed (use assms(2,3) in \<open>auto simp: behind_def idle_def gathering_def working_def closed_def quitting_def\<close>)

lemma told_phase: "told n nr g \<Longrightarrow> g_phase g \<le> jobs nr"
  by (auto simp: told_def split: master_place.splits)

lemma told_result:
  assumes "told n nr g"
  shows "(case measure_result n nr g of
      Some (Inr _) \<Rightarrow> length (g_history g) = jobs nr \<and> list_all (clean_phase n) (g_history g)
    | Some (Inl m) \<Rightarrow> \<exists>hs h. g_history g = hs @ [h] \<and> list_all (clean_phase n) hs \<and> (\<exists>i < n. h i = Some (Some m))
    | None \<Rightarrow> True)"
  using assms by (auto simp: measure_result_def told_def joined_def split: option.splits) blast+

text \<open>C13: What \<open>measure\<close> returns is what the workers reported. Whatever the interleaving and the results
of the jobs, a worker in a job is in the job of the master's present phase, so nobody runs ahead
into the next repetition or into the check, and nobody is let in after the check; and if \<open>measure\<close>
returns times, then every worker reported success in the initialisation, in every repetition and in
the check, while a message it returns was reported by a worker in the first phase that failed.\<close>

theorem measure_reports:
  assumes "0 < c" and "\<forall>x \<in> set xs. turn_below (unat c) x" and "g = measure_run c nr limit xs (grader_new z)"
  shows "(\<forall>i < unat c. g_job g i \<le> jobs nr \<and> (worker (g_sync g) i = Working \<longrightarrow> g_job g i = g_phase g)) \<and>
    (case measure_result (unat c) nr g of
       Some (Inr _) \<Rightarrow> length (g_history g) = jobs nr \<and> list_all (clean_phase (unat c)) (g_history g)
     | Some (Inl m) \<Rightarrow> \<exists>hs h. g_history g = hs @ [h] \<and> list_all (clean_phase (unat c)) hs \<and> (\<exists>i < unat c. h i = Some (Some m))
     | None \<Rightarrow> True)"
proof -
  have inv: "grader_inv (unat c) nr g" unfolding assms(3) by (rule measure_run_inv [OF grader_inv_new assms(1,2)])
  then have s: "sync_inv (unat c) (g_sync g)" and p: "paced (unat c) g" and v: "told (unat c) nr g"
    by (simp_all add: grader_inv_def)
  have "g_job g i \<le> jobs nr \<and> (worker (g_sync g) i = Working \<longrightarrow> g_job g i = g_phase g)" if i: "i < unat c" for i
  proof -
    have "g_job g i + (if behind (g_sync g) i then 1 else 0) = g_phase g" using p i by (simp add: paced_def)
    then show ?thesis using at_working [OF s i] told_phase [OF v] by (auto split: if_splits)
  qed
  with told_result [OF v] show ?thesis by blast
qed

text \<open>One worker and one repetition, and no error.\<close>

definition measured_phase :: "turn list" where
  "measured_phase = Master None False # replicate 11 (Worker 0 (Report None) None) @ [Master None False, Master None False, Master None False]"

definition measured :: "turn list" where
  "measured = Master None False # measured_phase @ measured_phase @ measured_phase @ [Worker 0 (Report None) None]"

lemma measured_result:
  "\<exists>g. g = measure_run 1 1 (\<lambda>_. invalid_tick) measured (grader_new 0) \<and> measure_result 1 1 g = Some (Inr (0, 0, 0))"
  by (simp add: measured_def measured_phase_def numeral_eq_Suc sync_eval master_turn_def worker_turn_def start_phase_def grader_new_def
      jobs_def measure_result_def joined_def chrono_convert.simps)

lemma measure_reports_witness:
  "\<exists>g. measure_result 1 1 g = Some (Inr (0, 0, 0)) \<and> length (g_history g) = 3 \<and> list_all (clean_phase 1) (g_history g)"
proof -
  obtain g where g: "g = measure_run 1 1 (\<lambda>_. invalid_tick) measured (grader_new 0)" "measure_result 1 1 g = Some (Inr (0, 0, 0))"
    using measured_result by blast
  have "\<forall>x \<in> set measured. turn_below (unat (1 :: 32 word)) x" by (auto simp: measured_def measured_phase_def)
  from measure_reports [OF _ this g(1)] g(2) show ?thesis by (auto simp: jobs_def)
qed

end
