(* ===== verification/Grading_Main.thy ===== *)
theory Grading_Main
  imports Loader Measure
begin

text \<open>
  \<open>main\<close> of \<open>grading/grading.cpp\<close>: the arguments, the parameters of the run, and the loop over the
  libraries, each of which is loaded, given a bank, measured and unloaded. What \<open>main\<close> does not
  decide is a \<open>scenario\<close>: the dynamic linker, what the functions of a loaded library do, whether
  the creation and the destruction of a region end in time, the interleaving of the threads of
  \<open>measure\<close> with the results of their jobs, and what these jobs do to the region and the memory.
\<close>

section \<open>The arguments\<close>

definition is_space :: "char \<Rightarrow> bool" where
  "is_space ch \<longleftrightarrow> (of_char ch :: nat) \<in> {9, 10, 11, 12, 13, 32}"

definition is_digit :: "char \<Rightarrow> bool" where
  "is_digit ch \<longleftrightarrow> (of_char ch :: nat) \<in> {48..57}"

primrec decimal :: "string \<Rightarrow> nat \<Rightarrow> nat" where
  "decimal [] v = v"
| "decimal (ch # s) v = decimal s (10 * v + (of_char ch - 48))"

text \<open>\<open>std::stoul\<close>: \<open>None\<close> stands for its two exceptions; what follows the digits is ignored.\<close>

definition stoul :: "string \<Rightarrow> 64 word option" where
  "stoul str =
     (let str = dropWhile is_space str;
          negative = (take 1 str = ''-'');
          str = (if take 1 str \<in> {''-'', ''+''} then drop 1 str else str);
          digits = takeWhile is_digit str;
          v = decimal digits 0 in
      if digits = [] \<or> 2 ^ 64 \<le> v then None
      else Some (if negative then - word_of_nat v else word_of_nat v))"

text \<open>The number of processors may be unknown, which is 0.\<close>

definition run_workers :: "32 word \<Rightarrow> csize" where
  "run_workers cores = (let res = (if cores = 0 then 16 else cores) in ucast res)"

definition slow_factor :: "64 word" where
  "slow_factor = 16"

definition run_repeats :: nat where
  "run_repeats = 7"

section \<open>The state\<close>

datatype line =
    Usage string
  | Run_parameters csize csize csize csize "64 word" "64 word option" "64 word"
  | Evaluating string bool
  | Verdict_line string
  | Performance "64 word"
  | Speedup "64 word" "64 word"
  | Exception_line

text \<open>
  \<open>open_modules\<close> are the modules that are loaded, \<open>detached\<close> those that may have a detached thread
  in their code, \<open>printed\<close> what has been printed.
\<close>

record world =
  open_modules :: "addr list"
  detached :: "addr list"
  printed :: "line list"

definition say :: "line \<Rightarrow> world \<Rightarrow> world" where
  "say l w = w\<lparr>printed := printed w @ [l]\<rparr>"

record limits =
  max_init :: "64 word"
  max_perf :: "64 word"
  max_chck :: "64 word"

definition no_limits :: limits where
  "no_limits = \<lparr>max_init = invalid_tick, max_perf = invalid_tick, max_chck = invalid_tick\<rparr>"

definition slowest :: "64 word \<Rightarrow> 64 word" where
  "slowest tick = (let m = slow_factor * tick in if m = invalid_tick then m + 1 else m)"

text \<open>How the process ends: with a return code, by \<open>quick_exit\<close>, or by \<open>std::terminate\<close>.\<close>

datatype ending = Exit int | Quick_exit int | Killed

record 'r scenario =
  sc_linker :: linker
  sc_library :: "tlib \<Rightarrow> 'r library"
  sc_cores :: "32 word"
  sc_resolution :: "(64 word \<times> 64 word) option"
  sc_created :: "nat \<Rightarrow> bool"
  sc_destroyed :: "nat \<Rightarrow> bool"
  sc_started :: "nat \<Rightarrow> bool"
  sc_garbage :: "nat \<Rightarrow> 64 word"
  sc_turns :: "nat \<Rightarrow> turn list"
  sc_effect :: "nat \<Rightarrow> 'r \<times> cstate \<Rightarrow> 'r \<times> cstate"

section \<open>One library\<close>

text \<open>A call of \<open>measure\<close> gives a message or times, or throws; \<open>None\<close> if it has not returned.\<close>

datatype evaluation = Verdict string | Times "64 word" "64 word" "64 word" | Threw

definition measured_by :: "32 word \<Rightarrow> grader \<Rightarrow> evaluation option" where
  "measured_by nbthreads g =
     (case master (g_sync g) of
        Thrown _ \<Rightarrow> Some Threw
      | _ \<Rightarrow> map_option (case_sum Verdict (\<lambda>(a, b, d). Times a b d)) (measure_result (unat nbthreads) run_repeats g))"

definition measure_grader :: "'r scenario \<Rightarrow> nat \<Rightarrow> limits \<Rightarrow> grader" where
  "measure_grader S i l =
     measure_run (ucast (run_workers (sc_cores S))) run_repeats
       (tick_limit (max_init l) (max_perf l) (max_chck l) run_repeats) (sc_turns S i) (grader_new (sc_garbage S i))"

text \<open>
  If a thread cannot be started, those that were are detached and the exception is thrown on; so they
  are when the master throws.
\<close>

definition measure_call :: "'r scenario \<Rightarrow> nat \<Rightarrow> limits \<Rightarrow> evaluation option" where
  "measure_call S i l =
     (if \<not> sc_started S i then Some Threw
      else measured_by (ucast (run_workers (sc_cores S))) (measure_grader S i l))"

text \<open>Leaving the body of the loop destroys the bank and then the library.\<close>

definition leave ::
  "bool \<Rightarrow> tlib \<Rightarrow> 'r bank \<Rightarrow> addr \<Rightarrow> 'r \<Rightarrow> ending + 'a \<Rightarrow> world \<Rightarrow> cstate \<Rightarrow> ((ending + 'a) \<times> world \<times> cstate) option" where
  "leave in_time lib b shared rg r w c = do {
     (d, c) \<leftarrow> tmem_dtor in_time (b_tm b) shared rg c;
     Some (case d of
        Inl _ \<Rightarrow> (Inl Killed, w, c)
      | Inr _ \<Rightarrow> (r, w\<lparr>open_modules := library_dtor lib (open_modules w)\<rparr>, c))
   }"

text \<open>
  The body of the loop. It ends the process or goes on with the limits and the time of the
  reference. An exception of one of the constructors is caught at the end of \<open>main\<close>, when the
  objects that were constructed are gone.
\<close>

definition evaluate ::
  "'r scenario \<Rightarrow> nat \<Rightarrow> string \<Rightarrow> limits \<Rightarrow> 64 word \<Rightarrow> world \<Rightarrow> cstate \<Rightarrow>
   ((ending + limits \<times> 64 word) \<times> world \<times> cstate) option" where
  "evaluate S i path l reference w c =
     (let nb = run_workers (sc_cores S);
          w = say (Evaluating path (max_init l = invalid_tick)) w;
          (t, opened) = library_ctor (sc_linker S) path (open_modules w);
          w = w\<lparr>open_modules := opened\<rparr> in
      case t of
        Inl e \<Rightarrow> Some (Inl (Exit 1), say Exception_line w, c)
      | Inr lib \<Rightarrow> do {
          (r, c) \<leftarrow> bank_ctor (sc_created S i) (sc_library S lib) nb (200000 div nb) (32 * nb) (256 * nb) 100 c;
          (case r of
             Inl Terminated \<Rightarrow> Some (Inl Killed, w, c)
           | Inl e \<Rightarrow>
               Some (Inl (Exit 1),
                 say Exception_line (w\<lparr>open_modules := library_dtor lib (open_modules w),
                   detached := (if e = BoundedOverrun then module lib # detached w else detached w)\<rparr>), c)
           | Inr (b, shared, rg) \<Rightarrow>
               (let (rg, c) = sc_effect S i (rg, c) in do {
                  v \<leftarrow> measure_call S i l;
                  (case v of
                     Verdict m \<Rightarrow> leave (sc_destroyed S i) lib b shared rg (Inl (Exit 1)) (say (Verdict_line m) w) c
                   | Times t_init t_perf t_chck \<Rightarrow>
                       if max_init l = invalid_tick
                       then leave (sc_destroyed S i) lib b shared rg
                              (Inr (\<lparr>max_init = slowest t_init, max_perf = slowest t_perf, max_chck = slowest t_chck\<rparr>, t_perf))
                              (say (Performance t_perf) w) c
                       else leave (sc_destroyed S i) lib b shared rg (Inr (l, reference))
                              (say (Speedup reference t_perf) (say (Performance t_perf) w)) c
                   | Threw \<Rightarrow>
                       Some (Inl (Quick_exit 2), say Exception_line (w\<lparr>detached := module lib # detached w\<rparr>), c))
                }))
        })"

section \<open>The program\<close>

primrec evaluate_all ::
  "'r scenario \<Rightarrow> string list \<Rightarrow> nat \<Rightarrow> limits \<Rightarrow> 64 word \<Rightarrow> world \<Rightarrow> cstate \<Rightarrow> (ending \<times> world \<times> cstate) option" where
  "evaluate_all S [] i l reference w c = Some (Exit 0, w, c)"
| "evaluate_all S (path # paths) i l reference w c = do {
     (r, w, c) \<leftarrow> evaluate S i path l reference w c;
     (case r of
        Inl e \<Rightarrow> Some (e, w, c)
      | Inr (l, reference) \<Rightarrow> evaluate_all S paths (Suc i) l reference w c)
   }"

definition world_new :: world where
  "world_new = \<lparr>open_modules = [], detached = [], printed = []\<rparr>"

definition main :: "'r scenario \<Rightarrow> string list \<Rightarrow> cstate \<Rightarrow> (ending \<times> world \<times> cstate) option" where
  "main S args c =
     (if length args < 3
      then Some (Exit 1, say (Usage (if args \<noteq> [] then hd args else ''grading'')) world_new, c)
      else case stoul (args ! 1) of
        None \<Rightarrow> Some (Exit 1, say Exception_line world_new, c)
      | Some seed \<Rightarrow>
          (let nb = run_workers (sc_cores S);
               clk_res = chrono_get_resolution (sc_resolution S);
               w = say (Run_parameters nb (200000 div nb) (32 * nb) (256 * nb) 100
                     (if clk_res = invalid_tick then None else Some clk_res) seed) world_new in
           evaluate_all S (drop 2 args) 0 no_limits 0 w c))"

section \<open>The parameters\<close>

lemma run_workers_32: "(ucast (run_workers cores) :: 32 word) = (if cores = 0 then 16 else cores)"
  by (rule bit_word_eqI) (simp add: run_workers_def bit_ucast_iff)

lemma run_workers_pos: "0 < (ucast (run_workers cores) :: 32 word)"
  by (simp add: run_workers_32 word_gt_0)

text \<open>The low bits of a product with 16 keep it from being the invalid tick.\<close>

lemma slowest_tick: "slowest tick = 16 * tick" "slowest tick \<noteq> invalid_tick"
proof -
  have "\<not> bit (push_bit 4 tick) 1" by (simp only: bit_push_bit_iff) simp
  moreover have "push_bit 4 tick = 16 * tick" by (simp add: push_bit_eq_mult)
  moreover have "bit invalid_tick 1" by (simp add: invalid_tick_def)
  ultimately have "16 * tick \<noteq> invalid_tick" by auto
  then show "slowest tick = 16 * tick" "slowest tick \<noteq> invalid_tick" by (simp_all add: slowest_def slow_factor_def)
qed

section \<open>A measurement\<close>

text \<open>The turns are those of the threads that \<open>measure\<close> starts.\<close>

definition fair_turns :: "'r scenario \<Rightarrow> bool" where
  "fair_turns S \<longleftrightarrow> (\<forall>i. \<forall>x \<in> set (sc_turns S i). turn_below (unat (ucast (run_workers (sc_cores S)) :: 32 word)) x)"

abbreviation measured_as :: "'r scenario \<Rightarrow> nat \<Rightarrow> limits \<Rightarrow> evaluation \<Rightarrow> bool" where
  "measured_as S i l v \<equiv> measure_call S i l = Some v"

text \<open>Every worker has reported success in every phase; or \<open>m\<close> was reported in the first that failed.\<close>

definition all_clean :: "'r scenario \<Rightarrow> nat \<Rightarrow> limits \<Rightarrow> bool" where
  "all_clean S i l \<longleftrightarrow>
     (let g = measure_grader S i l in
      length (g_history g) = 9 \<and>
      list_all (clean_phase (unat (ucast (run_workers (sc_cores S)) :: 32 word))) (g_history g))"

definition accused :: "'r scenario \<Rightarrow> nat \<Rightarrow> limits \<Rightarrow> string \<Rightarrow> bool" where
  "accused S i l m \<longleftrightarrow>
     (let g = measure_grader S i l; n = unat (ucast (run_workers (sc_cores S)) :: 32 word) in
      \<exists>hs h. g_history g = hs @ [h] \<and> list_all (clean_phase n) hs \<and> (\<exists>j < n. h j = Some (Some m)))"

lemma measure_grader_inv:
  "fair_turns S \<Longrightarrow> grader_inv (unat (ucast (run_workers (sc_cores S)) :: 32 word)) run_repeats (measure_grader S i l)"
  unfolding measure_grader_def by (rule measure_run_inv [OF grader_inv_new run_workers_pos]) (auto simp: fair_turns_def)

lemma measured_by_Some:
  "measured_by c g = Some (Times a b d) \<Longrightarrow> measure_result (unat c) run_repeats g = Some (Inr (a, b, d))"
  "measured_by c g = Some (Verdict m) \<Longrightarrow> measure_result (unat c) run_repeats g = Some (Inl m)"
proof -
  let ?r = "measure_result (unat c) run_repeats g"
  have r: "map_option (case_sum Verdict (\<lambda>(a, b, d). Times a b d)) ?r = Some v" if "measured_by c g = Some v" "v \<noteq> Threw" for v
    using that unfolding measured_by_def by (cases "master (g_sync g)") simp_all
  show "measured_by c g = Some (Times a b d) \<Longrightarrow> ?r = Some (Inr (a, b, d))" "measured_by c g = Some (Verdict m) \<Longrightarrow> ?r = Some (Inl m)"
    using r by (cases ?r; cases "the ?r"; fastforce)+
qed

lemma measured_told:
  assumes "fair_turns S"
  shows "measured_as S i l (Times t_init t_perf t_chck) \<Longrightarrow> all_clean S i l" "measured_as S i l (Verdict m) \<Longrightarrow> accused S i l m"
proof -
  define g n where "g = measure_grader S i l" and "n = unat (ucast (run_workers (sc_cores S)) :: 32 word)"
  have "told n run_repeats g" using measure_grader_inv [OF assms] by (simp add: grader_inv_def g_def n_def)
  note t = told_result [OF this]
  show "all_clean S i l" if "measured_as S i l (Times t_init t_perf t_chck)"
  proof -
    have "measure_result n run_repeats g = Some (Inr (t_init, t_perf, t_chck))"
      using that measured_by_Some(1) unfolding g_def n_def by (simp add: measure_call_def split: if_splits)
    then show ?thesis using t by (simp add: all_clean_def g_def n_def jobs_def run_repeats_def)
  qed
  show "accused S i l m" if "measured_as S i l (Verdict m)"
  proof -
    have "measure_result n run_repeats g = Some (Inl m)"
      using that measured_by_Some(2) unfolding g_def n_def by (simp add: measure_call_def split: if_splits)
    then show ?thesis using t unfolding accused_def Let_def g_def n_def by simp
  qed
qed

text \<open>Without limits nothing is ever too slow, so \<open>measure\<close> does not throw.\<close>

lemma unlimited_step:
  assumes "master (g_sync g) \<noteq> Thrown Overrun" "limit (g_phase g) = invalid_tick"
  shows "master (g_sync (measure_step c nr limit x g)) \<noteq> Thrown Overrun"
proof (cases x)
  case (Master t over)
  then show ?thesis using assms
    by (auto simp: master_turn_def start_phase_def master_notify_def master_join_def master_wait_def latch_wait_def
        Let_def split: master_place.splits outcome.splits status.splits option.splits if_splits)
next
  case (Worker i r t)
  then show ?thesis using assms by (simp add: worker_turn_def Let_def worker_master del: sync_step.simps)
qed

lemma unlimited_run:
  "master (g_sync g) \<noteq> Thrown Overrun \<Longrightarrow> (\<And>k. limit k = invalid_tick) \<Longrightarrow>
   master (g_sync (measure_run c nr limit xs g)) \<noteq> Thrown Overrun"
  by (induction xs arbitrary: g) (simp_all add: unlimited_step)

lemma unlimited_returns:
  assumes "fair_turns S" and "sc_started S i"
  shows "\<not> measured_as S i no_limits Threw"
proof -
  let ?g = "measure_grader S i no_limits"
  have "master (g_sync ?g) \<noteq> Thrown Overrun"
    unfolding measure_grader_def
    by (rule unlimited_run) (simp_all add: grader_new_def sync_new_def tick_limit_def no_limits_def)
  moreover have "master (g_sync ?g) = Thrown r \<Longrightarrow> r = Overrun" for r
    using measure_grader_inv [OF assms(1), of i no_limits] unfolding grader_inv_def by (blast dest: thrown_overrun)
  ultimately show ?thesis using assms(2) by (auto simp: measure_call_def measured_by_def split: master_place.splits sum.splits option.splits)
qed

section \<open>One round of the loop\<close>

lemma tmem_dtor_Some:
  "tmem_dtor in_time tm shared rg c = Some (d, c') \<Longrightarrow> d = (if in_time then Inr () else Inl Terminated)"
  by (auto simp: tmem_dtor_def bounded_run_def bind_simps)

lemma leave_Some:
  assumes "leave in_time lib b shared rg r w c = Some (r', w', c')"
  shows "(r', w') = (if in_time then (r, w\<lparr>open_modules := library_dtor lib (open_modules w)\<rparr>) else (Inl Killed, w))"
proof -
  obtain d c2 where "tmem_dtor in_time (b_tm b) shared rg c = Some (d, c2)" using assms by (auto simp: leave_def bind_simps)
  with tmem_dtor_Some [OF this] assms show ?thesis by (auto simp: leave_def)
qed

lemma say_sel [simp]: "open_modules (say l w) = open_modules w" "detached (say l w) = detached w"
  by (simp_all add: say_def)

lemma bank_ctor_Some:
  assumes "bank_ctor in_time L nw nt na ne ib c = Some (r, c')"
  shows "(\<exists>e. r = Inl e \<and> e = (if in_time then Terminated else BoundedOverrun)) \<or> (\<exists>x. r = Inr x \<and> in_time)"
proof -
  obtain a rg c1 where "lib_create L (segment_size na) segment_align c = Some (a, rg, c1)"
    using assms by (auto simp: bank_ctor_def tmem_ctor_def assert_mode_def bind_simps)
  then show ?thesis using assms
    by (cases rg; cases in_time) (auto simp: bank_ctor_def tmem_ctor_def assert_mode_def bounded_run_def)
qed

text \<open>The ways through the body of the loop; \<open>m\<close> is the handle of the module.\<close>

inductive round :: "'r scenario \<Rightarrow> nat \<Rightarrow> string \<Rightarrow> limits \<Rightarrow> world \<Rightarrow> ending + limits \<Rightarrow> world \<Rightarrow> bool"
  for S i path l w where
  unloadable: "library_ctor (sc_linker S) path (open_modules w) = (Inl e, opened) \<Longrightarrow>
    open_modules w' = opened \<Longrightarrow> detached w' = detached w \<Longrightarrow> round S i path l w (Inl (Exit 1)) w'"
| uncreated: "loads (sc_linker S) path \<Longrightarrow> sc_created S i \<Longrightarrow> open_modules w' = m # open_modules w \<Longrightarrow>
    detached w' = detached w \<Longrightarrow> round S i path l w (Inl Killed) w'"
| overrun: "loads (sc_linker S) path \<Longrightarrow> \<not> sc_created S i \<Longrightarrow> open_modules w' = open_modules w \<Longrightarrow>
    detached w' = m # detached w \<Longrightarrow> m \<noteq> NULL \<Longrightarrow> round S i path l w (Inl (Exit 1)) w'"
| threw: "loads (sc_linker S) path \<Longrightarrow> sc_created S i \<Longrightarrow> measured_as S i l Threw \<Longrightarrow>
    open_modules w' = m # open_modules w \<Longrightarrow> detached w' = m # detached w \<Longrightarrow> round S i path l w (Inl (Quick_exit 2)) w'"
| stuck: "loads (sc_linker S) path \<Longrightarrow> sc_created S i \<Longrightarrow> \<not> sc_destroyed S i \<Longrightarrow>
    open_modules w' = m # open_modules w \<Longrightarrow> detached w' = detached w \<Longrightarrow> round S i path l w (Inl Killed) w'"
| failed: "loads (sc_linker S) path \<Longrightarrow> sc_created S i \<Longrightarrow> sc_destroyed S i \<Longrightarrow> measured_as S i l (Verdict v) \<Longrightarrow>
    open_modules w' = open_modules w \<Longrightarrow> detached w' = detached w \<Longrightarrow> round S i path l w (Inl (Exit 1)) w'"
| passed: "loads (sc_linker S) path \<Longrightarrow> sc_created S i \<Longrightarrow> sc_destroyed S i \<Longrightarrow> measured_as S i l (Times a b d) \<Longrightarrow>
    open_modules w' = open_modules w \<Longrightarrow> detached w' = detached w \<Longrightarrow>
    l' = (if max_init l = invalid_tick then \<lparr>max_init = slowest a, max_perf = slowest b, max_chck = slowest d\<rparr> else l) \<Longrightarrow>
    round S i path l w (Inr l') w'"

lemma measured_round:
  assumes e: "evaluate S i path l ref w c = Some (r, w', c')" and Pair: "library_ctor (sc_linker S) path (open_modules w) = (Inr lib, opened)"
    and ld: "loads (sc_linker S) path" and cr: "sc_created S i"
    and u: "bank_ctor (sc_created S i) (sc_library S lib) (run_workers (sc_cores S)) (200000 div run_workers (sc_cores S))
      (32 * run_workers (sc_cores S)) (256 * run_workers (sc_cores S)) 100 c = Some (Inr (b, shared, rg), c1)"
  shows "round S i path l w (map_sum id fst r) w'"
proof -
  note lib = loaded [OF Pair]
  obtain rg' c2 where eff: "sc_effect S i (rg, c1) = (rg', c2)" by fastforce
  obtain v where v: "measured_as S i l v" using e Pair u eff by (auto simp: evaluate_def Let_def bind_simps)
  note run = e Pair u eff v cr lib
  show ?thesis
  proof (cases "v = Threw")
    case True
    then have "r = Inl (Quick_exit 2)" "open_modules w' = module lib # open_modules w" "detached w' = module lib # detached w"
      using run by (auto simp: evaluate_def Let_def)
    with threw [OF ld cr _ this(2,3)] v True show ?thesis by simp
  next
    case returned: False
    show ?thesis
    proof (cases "sc_destroyed S i")
      case False
      then have "r = Inl Killed" "open_modules w' = module lib # open_modules w" "detached w' = detached w"
        using run returned by (cases v; auto simp: evaluate_def Let_def dest!: leave_Some split: if_splits)+
      with stuck [OF ld cr False this(2,3)] show ?thesis by simp
    next
      case True
      have w': "open_modules w' = open_modules w" "detached w' = detached w"
        using run returned True by (cases v; auto simp: evaluate_def Let_def dest!: leave_Some split: if_splits)+
      show ?thesis
      proof (cases v)
        case (Verdict m)
        then have "r = Inl (Exit 1)" using run True by (auto simp: evaluate_def Let_def dest!: leave_Some)
        with failed [OF ld cr True _ w'] v Verdict show ?thesis by simp
      next
        case (Times a b d)
        then have "map_sum id fst r = Inr (if max_init l = invalid_tick
              then \<lparr>max_init = slowest a, max_perf = slowest b, max_chck = slowest d\<rparr> else l)"
          using run True by (auto simp: evaluate_def Let_def dest!: leave_Some split: if_splits)
        with passed [OF ld cr True _ w' refl] v Times show ?thesis by simp
      qed (use returned in simp)
    qed
  qed
qed

lemma evaluate_round:
  assumes "evaluate S i path l ref w c = Some (r, w', c')"
  shows "round S i path l w (map_sum id fst r) w'"
proof (cases "fst (library_ctor (sc_linker S) path (open_modules w))")
  case (Inl e)
  then show ?thesis using assms
    by (cases "library_ctor (sc_linker S) path (open_modules w)") (auto simp: evaluate_def Let_def intro!: unloadable)
next
  case (Inr lib)
  then obtain opened where Pair: "library_ctor (sc_linker S) path (open_modules w) = (Inr lib, opened)" by (metis prod.collapse)
  note lib = loaded [OF Pair]
  have ld: "loads (sc_linker S) path"
    unfolding loads_def library_ctor_fst [of "sc_linker S" path "open_modules w", symmetric] using Inr by simp
  let ?nb = "run_workers (sc_cores S)"
  obtain u c1 where u: "bank_ctor (sc_created S i) (sc_library S lib) ?nb (200000 div ?nb) (32 * ?nb) (256 * ?nb) 100 c = Some (u, c1)"
    using assms Pair by (auto simp: evaluate_def Let_def bind_simps)
  from bank_ctor_Some [OF this] show ?thesis
  proof (elim disjE exE conjE)
    fix e assume e: "u = Inl e" "e = (if sc_created S i then Terminated else BoundedOverrun)"
    show ?thesis
    proof (cases "sc_created S i")
      case True
      then have "r = Inl Killed" "open_modules w' = module lib # open_modules w" "detached w' = detached w"
        using assms Pair u e lib by (auto simp: evaluate_def Let_def)
      with uncreated [OF ld True this(2,3)] show ?thesis by simp
    next
      case False
      then have "r = Inl (Exit 1)" "open_modules w' = open_modules w" "detached w' = module lib # detached w"
        using assms Pair u e lib by (auto simp: evaluate_def Let_def)
      with overrun [OF ld False this(2,3) lib(2)] show ?thesis by simp
    qed
  next
    fix x assume x: "u = Inr x" "sc_created S i"
    obtain b shared rg where "x = (b, shared, rg)" by (cases x)
    with measured_round [OF assms Pair ld x(2)] u x(1) show ?thesis by blast
  qed
qed

section \<open>The whole run\<close>

text \<open>The limits that hold for the library at index \<open>i\<close>: the first sets them for the others.\<close>

definition limits_for :: "'r scenario \<Rightarrow> nat \<Rightarrow> limits" where
  "limits_for S i =
     (if i = 0 then no_limits
      else case measure_call S 0 no_limits of
             Some (Times a b d) \<Rightarrow> \<lparr>max_init = slowest a, max_perf = slowest b, max_chck = slowest d\<rparr>
           | _ \<Rightarrow> no_limits)"

definition approved :: "'r scenario \<Rightarrow> nat \<Rightarrow> string \<Rightarrow> bool" where
  "approved S i path \<longleftrightarrow> loads (sc_linker S) path \<and> sc_created S i \<and> sc_destroyed S i \<and>
     (\<exists>a b d. measured_as S i (limits_for S i) (Times a b d))"

lemma limits_next:
  assumes "0 < i \<longrightarrow> max_init (limits_for S i) \<noteq> invalid_tick" and "measured_as S i (limits_for S i) (Times a b d)"
    and "l = (if max_init (limits_for S i) = invalid_tick
       then \<lparr>max_init = slowest a, max_perf = slowest b, max_chck = slowest d\<rparr> else limits_for S i)"
  shows "l = limits_for S (Suc i) \<and> max_init (limits_for S (Suc i)) \<noteq> invalid_tick"
proof (cases "i = 0")
  case True
  then show ?thesis using assms slowest_tick(2) by (simp add: limits_for_def no_limits_def)
next
  case False
  then have "limits_for S (Suc i) = limits_for S i" by (simp add: limits_for_def)
  with False show ?thesis using assms by simp
qed

text \<open>Either every library is approved, or the first that is not ends the run.\<close>

lemma evaluate_all_run:
  assumes "evaluate_all S paths i (limits_for S i) ref w c = Some (e, w', c')"
    and "open_modules w = []" "detached w = []" "0 < i \<longrightarrow> max_init (limits_for S i) \<noteq> invalid_tick"
  shows "e = Exit 0 \<and> open_modules w' = [] \<and> detached w' = [] \<and> (\<forall>j < length paths. approved S (i + j) (paths ! j)) \<or>
    (\<exists>k < length paths. (\<forall>j < k. approved S (i + j) (paths ! j)) \<and>
       (\<exists>v. open_modules v = [] \<and> detached v = [] \<and> round S (i + k) (paths ! k) (limits_for S (i + k)) v (Inl e) w'))"
  using assms
proof (induction paths arbitrary: i ref w c)
  case Nil
  then show ?case by simp
next
  case (Cons path paths)
  obtain r w1 c1 where r: "evaluate S i path (limits_for S i) ref w c = Some (r, w1, c1)"
    using Cons.prems(1) by (auto simp: bind_simps)
  note round = evaluate_round [OF r]
  show ?case
  proof (cases r)
    case (Inl e')
    then have "round S i path (limits_for S i) w (Inl e) w'" using round r Cons.prems(1) by simp
    then show ?thesis using Cons.prems(2,3) by (intro disjI2 exI [of _ 0]) auto
  next
    case (Inr lr)
    then obtain l ref' where lr: "r = Inr (l, ref')" by (cases lr) simp
    have "round S i path (limits_for S i) w (Inr l) w1" using round lr by simp
    then obtain a b d where a: "approved S i path" "open_modules w1 = []" "detached w1 = []"
        "measured_as S i (limits_for S i) (Times a b d)"
        "l = (if max_init (limits_for S i) = invalid_tick
           then \<lparr>max_init = slowest a, max_perf = slowest b, max_chck = slowest d\<rparr> else limits_for S i)"
      using Cons.prems(2,3) by (cases rule: round.cases) (auto simp: approved_def)
    note l = limits_next [OF Cons.prems(4) a(4,5)]
    have step: "evaluate_all S paths (Suc i) (limits_for S (Suc i)) ref' w1 c1 = Some (e, w', c')"
      using Cons.prems(1) r lr l by simp
    have all: "(\<forall>j < Suc k. approved S (i + j) ((path # paths) ! j)) \<longleftrightarrow> (\<forall>j < k. approved S (Suc i + j) (paths ! j))" for k
      using a(1) by (auto simp: less_Suc_eq_0_disj)
    have "0 < Suc i \<longrightarrow> max_init (limits_for S (Suc i)) \<noteq> invalid_tick" using l by simp
    from Cons.IH [OF step a(2,3) this] show ?thesis
    proof (elim disjE, goal_cases)
      case 1
      then show ?case using all [of "length paths"] by simp
    next
      case 2
      then obtain k where k: "k < length paths" "\<forall>j < k. approved S (Suc i + j) (paths ! j)"
          "\<exists>v. open_modules v = [] \<and> detached v = [] \<and> round S (Suc i + k) (paths ! k) (limits_for S (Suc i + k)) v (Inl e) w'"
        by blast
      then show ?case using all [of k] by (intro disjI2 exI [of _ "Suc k"]) simp
    qed
  qed
qed

lemma main_run:
  assumes "main S args c = Some (e, w, c')" "3 \<le> length args" "stoul (args ! 1) \<noteq> None"
  shows "e = Exit 0 \<and> open_modules w = [] \<and> detached w = [] \<and> (\<forall>j < length args - 2. approved S j (args ! (j + 2))) \<or>
    (\<exists>k < length args - 2. (\<forall>j < k. approved S j (args ! (j + 2))) \<and>
       (\<exists>v. open_modules v = [] \<and> detached v = [] \<and> round S k (args ! (k + 2)) (limits_for S k) v (Inl e) w))"
proof -
  obtain v where "evaluate_all S (drop 2 args) 0 (limits_for S 0) 0 v c = Some (e, w, c')" "open_modules v = []" "detached v = []"
    using assms by (auto simp: main_def Let_def limits_for_def world_new_def split: option.splits if_splits)
  note run = evaluate_all_run [OF this]
  have "drop 2 args ! j = args ! (j + 2)" for j using assms(2) by (simp add: add.commute)
  then show ?thesis using run by simp
qed


lemma approved_clean:
  assumes "fair_turns S" "approved S i path"
  shows "all_clean S i (limits_for S i)"
  using assms measured_told(1) by (auto simp: approved_def)

text \<open>What it means that the run ends at library \<open>i\<close>.\<close>

definition cause :: "'r scenario \<Rightarrow> nat \<Rightarrow> string \<Rightarrow> ending \<Rightarrow> bool" where
  "cause S i path e \<longleftrightarrow>
     (case e of
        Exit k \<Rightarrow> k = 1 \<and> (\<not> loads (sc_linker S) path \<or> \<not> sc_created S i \<or> (\<exists>m. accused S i (limits_for S i) m))
      | Quick_exit k \<Rightarrow> k = 2 \<and> (\<not> sc_started S i \<or> 0 < i \<and> measured_as S i (limits_for S i) Threw)
      | Killed \<Rightarrow> loads (sc_linker S) path \<and> sc_created S i)"

lemma round_cause:
  assumes "fair_turns S" and "round S i path (limits_for S i) v (Inl e) w"
  shows "cause S i path e"
  using assms(2)
proof (cases rule: round.cases)
  case (unloadable e' opened)
  have "\<not> loads (sc_linker S) path"
    unfolding loads_def library_ctor_fst [of "sc_linker S" path "open_modules v", symmetric] using unloadable by simp
  then show ?thesis using unloadable by (simp add: cause_def)
next
  case (threw m)
  moreover have "sc_started S i \<Longrightarrow> 0 < i" using unlimited_returns [OF assms(1), of i] threw by (cases i) (simp_all add: limits_for_def)
  ultimately show ?thesis by (auto simp: cause_def)
next
  case (failed m)
  then show ?thesis using measured_told(2) [OF assms(1)] by (auto simp: cause_def)
qed (simp_all add: cause_def)

text \<open>C14: \<open>main\<close> returns 0 only if every library it was given loads, creates and destroys its region in
time and is measured with every worker successful in all nine phases, the first without time
limits, all others with limits. Otherwise the first library for which this does not hold ends it: with 1 for
one that does not load, is too slow in creating its region or fails a check, by \<open>quick_exit\<close> for one
whose measurement throws, which the first never does once its threads are started.\<close>

theorem main_verdict:
  assumes "fair_turns S" "3 \<le> length args" "stoul (args ! 1) \<noteq> None" "main S args c = Some (e, w, c')"
  shows "e = Exit 0 \<and>
      (\<forall>i < length args - 2. approved S i (args ! (i + 2)) \<and> all_clean S i (limits_for S i) \<and>
         (max_init (limits_for S i) = invalid_tick \<longleftrightarrow> i = 0)) \<or>
    (\<exists>i < length args - 2. cause S i (args ! (i + 2)) e \<and>
      (\<forall>j < i. approved S j (args ! (j + 2)) \<and> all_clean S j (limits_for S j)))"
  using main_run [OF assms(4,2,3)]
proof (elim disjE conjE exE)
  assume e: "e = Exit 0" and a: "\<forall>j < length args - 2. approved S j (args ! (j + 2))"
  have "approved S 0 (args ! (0 + 2))" by (rule a [rule_format]) (use assms(2) in simp)
  then have "max_init (limits_for S i) = invalid_tick \<longleftrightarrow> i = 0" for i
    using slowest_tick(2) by (auto simp: approved_def limits_for_def no_limits_def numeral_eq_Suc)
  with e a show ?thesis using approved_clean [OF assms(1)] by blast
next
  fix k v
  assume "k < length args - 2" "\<forall>j < k. approved S j (args ! (j + 2))"
    "round S k (args ! (k + 2)) (limits_for S k) v (Inl e) w"
  then show ?thesis using round_cause [OF assms(1)] approved_clean [OF assms(1)] by blast
qed

text \<open>
  A machine with one processor, on which the reference library evaluates itself: nine clean
  phases, and an allocator with two blocks. The region after the jobs is the one that was created.
\<close>

definition clean_turns :: "turn list" where
  "clean_turns = Master None False # concat (replicate 9 measured_phase) @ [Worker 0 (Report None) None]"

definition lone_run :: "bool \<Rightarrow> ref_region scenario" where
  "lone_run created =
     \<lparr>sc_linker = \<lparr>realpath = Some, dlopen = (\<lambda>_. 1), dlsym = (\<lambda>_ _. 1)\<rparr>, sc_library = (\<lambda>_. ref_library 0), sc_cores = 1, sc_resolution = None,
      sc_created = (\<lambda>_. created), sc_destroyed = (\<lambda>_. True), sc_started = (\<lambda>_. True), sc_garbage = (\<lambda>_. 0), sc_turns = (\<lambda>_. clean_turns),
      sc_effect = (\<lambda>_ s. s)\<rparr>"

definition two_blocks :: cstate where
  "two_blocks = \<lparr>heap = Map.empty, mem = (\<lambda>_. 0), answers = [64, 1024]\<rparr>"

definition command_line :: "string list" where
  "command_line = [''grading'', ''7'', ''reference.so'']"

lemma half_of_seven: "Suc (Suc (Suc (Suc (Suc (Suc (Suc 0)))))) div Suc (Suc 0) = Suc (Suc (Suc 0))"
  by code_simp

lemma clean_times: "measure_call (lone_run created) 0 no_limits = Some (Times 0 0 0)"
  by (simp add: measure_call_def measure_grader_def lone_run_def run_workers_def clean_turns_def measured_phase_def numeral_eq_Suc sync_eval
      master_turn_def worker_turn_def start_phase_def grader_new_def jobs_def measured_by_def measure_result_def joined_def
      chrono_convert.simps run_repeats_def tick_limit_def no_limits_def half_of_seven)

lemma lone_library: "library_ctor (sc_linker (lone_run created)) path opened =
    (Inr \<lparr>module = 1, fn_create = 1, fn_destroy = 1, fn_start = 1, fn_size = 1, fn_align = 1, fn_begin = 1, fn_end = 1,
       fn_read = 1, fn_write = 1, fn_alloc = 1, fn_free = 1\<rparr>, 1 # opened)"
  by (simp add: library_ctor_def lone_run_def bind_symbols_def solve_def)

lemma lone_create:
  "\<exists>c'. lib_create (ref_library 0) 280 8 two_blocks =
     Some (64, Some \<lparr>r_lock = \<lparr>readers = 0, writer = False\<rparr>, r_start = 1024, r_allocs = NULL, r_size = 280, r_align = 8\<rparr>, c') \<and>
     heap c' = [64 \<mapsto> Uninit 88, 1024 \<mapsto> Uninit 280]"
  by (simp add: ref_library_def ref_tm_create_def malloc_def two_blocks_def posix_memalign_def ref_shared_lock_init_def
      power_of_two_simps aligned_def memset0_def)

lemma lone_bank:
  "\<exists>b rg c1 c2. bank_ctor True (ref_library 0) 1 200000 32 256 100 two_blocks = Some (Inr (b, 64, rg), c1) \<and>
     tmem_dtor True (b_tm b) 64 rg c1 = Some (Inr (), c2)"
  "\<exists>c1. bank_ctor False (ref_library 0) 1 200000 32 256 100 two_blocks = Some (Inl BoundedOverrun, c1)"
proof -
  obtain c' where c: "lib_create (ref_library 0) 280 8 two_blocks =
     Some (64, Some \<lparr>r_lock = \<lparr>readers = 0, writer = False\<rparr>, r_start = 1024, r_allocs = NULL, r_size = 280, r_align = 8\<rparr>, c')"
    "heap c' = [64 \<mapsto> Uninit 88, 1024 \<mapsto> Uninit 280]"
    using lone_create by blast
  have d: "lib_destroy (ref_library 0) = ref_tm_destroy" by (simp add: ref_library_def)
  show "\<exists>b rg c1 c2. bank_ctor True (ref_library 0) 1 200000 32 256 100 two_blocks = Some (Inr (b, 64, rg), c1) \<and>
     tmem_dtor True (b_tm b) 64 rg c1 = Some (Inr (), c2)"
    using c by (simp add: bank_ctor_def tmem_ctor_def segment_align_def segment_size_def bounded_run_def assert_mode_def
        tmem_dtor_def d ref_tm_destroy_def free_def free_segments.simps [of NULL] ref_shared_lock_cleanup_def)
  show "\<exists>c1. bank_ctor False (ref_library 0) 1 200000 32 256 100 two_blocks = Some (Inl BoundedOverrun, c1)"
    using c by (simp add: bank_ctor_def tmem_ctor_def segment_align_def segment_size_def bounded_run_def assert_mode_def)
qed

lemma seven: "stoul ''7'' = Some 7"
  by (simp add: stoul_def is_space_def is_digit_def)

lemma lone_sel: "sc_cores (lone_run created) = 1" "sc_created (lone_run created) i = created" "sc_destroyed (lone_run created) i"
  "sc_library (lone_run created) lib = ref_library 0" "sc_effect (lone_run created) i s = s" "run_workers 1 = 1"
  by (simp_all add: lone_run_def run_workers_def)

lemma lone_main:
  "\<exists>w c'. main (lone_run True) command_line two_blocks = Some (Exit 0, w, c')"
  "\<exists>w c'. main (lone_run False) command_line two_blocks = Some (Exit 1, w, c') \<and> detached w = [1]"
proof -
  obtain b rg c1 c2 where b: "bank_ctor True (ref_library 0) 1 200000 32 256 100 two_blocks = Some (Inr (b, 64, rg), c1)"
     "tmem_dtor True (b_tm b) 64 rg c1 = Some (Inr (), c2)"
    using lone_bank(1) by blast
  show "\<exists>w c'. main (lone_run True) command_line two_blocks = Some (Exit 0, w, c')"
    using b clean_times [of True]
    by (simp add: main_def command_line_def seven evaluate_def lone_library lone_sel Let_def leave_def)
  obtain c1 where "bank_ctor False (ref_library 0) 1 200000 32 256 100 two_blocks = Some (Inl BoundedOverrun, c1)"
    using lone_bank(2) by blast
  then show "\<exists>w c'. main (lone_run False) command_line two_blocks = Some (Exit 1, w, c') \<and> detached w = [1]"
    by (simp add: main_def command_line_def seven evaluate_def lone_library lone_sel Let_def world_new_def)
qed

lemma lone_fair: "fair_turns (lone_run created)"
  by (auto simp: fair_turns_def lone_run_def run_workers_def clean_turns_def measured_phase_def)

lemma main_verdict_witness: "approved (lone_run True) 0 ''reference.so'' \<and> all_clean (lone_run True) 0 no_limits"
proof -
  obtain w c' where m: "main (lone_run True) command_line two_blocks = Some (Exit 0, w, c')" using lone_main(1) by blast
  have "\<not> cause S i path (Exit 0)" for S :: "ref_region scenario" and i path by (simp add: cause_def)
  with main_verdict [OF lone_fair _ _ m] show ?thesis by (simp add: command_line_def seven limits_for_def)
qed



end
